(* ===== verification/Prelude.thy ===== *)
theory Prelude
  imports Main "HOL-Library.Word" "HOL-Library.Multiset"
begin

text \<open>
  What every component of the development shares: the result type of fallible
  C functions (\<open>'e + 'a\<close>, \<open>Inl\<close> the failure) with its sequencing
  operators, the machine integer types, the sums over job lists the counter
  invariants are stated with, and the collections of rewrite rules the
  component proofs use.
\<close>

section \<open>Rule collections\<close>

named_theorems res_simps \<open>unfolding of the sequencing operators\<close>
named_theorems frame_simps \<open>fields an operation does not change\<close>
named_theorems find_simps \<open>lookups after an update\<close>

section \<open>Machine integers\<close>

type_synonym u8 = "8 word"
type_synonym u32 = "32 word"
type_synonym u64 = "64 word"

text \<open>
  A signed 32-bit result: the exact value wrapped into the range of a two's
  complement \<open>int32_t\<close>.
\<close>

definition s32 :: "int \<Rightarrow> int" where
  "s32 x = signed_take_bit 31 x"

definition in_s32 :: "int \<Rightarrow> bool" where
  "in_s32 x \<longleftrightarrow> - 2147483648 \<le> x \<and> x < 2147483648"

definition in_s64 :: "int \<Rightarrow> bool" where
  "in_s64 x \<longleftrightarrow> - 9223372036854775808 \<le> x \<and> x < 9223372036854775808"

lemma s32_id [simp]: "in_s32 x \<Longrightarrow> s32 x = x"
  unfolding s32_def in_s32_def by (rule signed_take_bit_int_eq_self) simp_all

section \<open>Results of fallible code\<close>

text \<open>
  \<open>bindE\<close> runs the second computation on the value of the first; a failure
  of the first is the result. \<open>foldE\<close> is a \<^verbatim>\<open>for\<close> loop over a list whose body
  may fail.
\<close>

fun bindE :: "'e + 'a \<Rightarrow> ('a \<Rightarrow> 'e + 'b) \<Rightarrow> 'e + 'b" where
  "bindE (Inl e) f = Inl e"
| "bindE (Inr x) f = f x"

fun foldE :: "('a \<Rightarrow> 's \<Rightarrow> 'e + 's) \<Rightarrow> 'a list \<Rightarrow> 's \<Rightarrow> 'e + 's" where
  "foldE f [] s = Inr s"
| "foldE f (x # xs) s = bindE (f x s) (foldE f xs)"

definition assertE :: "'e \<Rightarrow> bool \<Rightarrow> 'e + unit" where
  "assertE e b = (if b then Inr () else Inl e)"

lemma bindE_Inr_iff:
  "bindE m f = Inr y \<longleftrightarrow> (\<exists>x. m = Inr x \<and> f x = Inr y)"
  by (cases m) auto

lemma bindE_Inl_iff:
  "bindE m f = Inl e \<longleftrightarrow> m = Inl e \<or> (\<exists>x. m = Inr x \<and> f x = Inl e)"
  by (cases m) auto

lemma assertE_Inr [simp]: "assertE e b = Inr u \<longleftrightarrow> b"
  by (simp add: assertE_def)

lemma assertE_Inl [simp]: "assertE e b = Inl e' \<longleftrightarrow> \<not> b \<and> e' = e"
  by (auto simp add: assertE_def)

lemma bindE_assertE [res_simps]:
  "bindE (assertE e b) f = (if b then f () else Inl e)"
  by (simp add: assertE_def)

lemma bindE_if [res_simps]:
  "bindE (if b then m else n) f = (if b then bindE m f else bindE n f)"
  by simp

lemma foldE_append:
  "foldE f (xs @ ys) s = bindE (foldE f xs s) (foldE f ys)"
proof (induction xs arbitrary: s)
  case Nil
  show ?case by simp
next
  case (Cons x xs)
  then show ?case by (cases "f x s") auto
qed

text \<open>A loop whose body never fails is a \<open>fold\<close>.\<close>

lemma foldE_total:
  assumes "\<And>x s. x \<in> set xs \<Longrightarrow> f x s = Inr (g x s)"
  shows "foldE f xs s = Inr (fold g xs s)"
  using assms by (induction xs arbitrary: s) auto

text \<open>Invariant rule for loops that may fail.\<close>

lemma foldE_inv:
  assumes "foldE f xs s = Inr t" and "P s"
    and "\<And>x s t. x \<in> set xs \<Longrightarrow> P s \<Longrightarrow> f x s = Inr t \<Longrightarrow> P t"
  shows "P t"
  using assms
proof (induction xs arbitrary: s)
  case Nil
  then show ?case by simp
next
  case (Cons x xs)
  from Cons.prems(1) obtain u where u: "f x s = Inr u" "foldE f xs u = Inr t"
    by (auto simp: bindE_Inr_iff)
  have "P u" using Cons.prems(2,3) u(1) by auto
  with u(2) Cons.prems(3) show ?case by (intro Cons.IH [OF u(2)]) auto
qed

section \<open>Sums over lists\<close>

text \<open>
  A counter of the scheduler is the sum of what each job contributes. The two
  lemmas below are how such a sum changes when one job of the list changes.
\<close>

definition tally :: "('p \<Rightarrow> 'a::ab_group_add) \<Rightarrow> 'p list \<Rightarrow> 'a" where
  "tally f xs = sum_list (map f xs)"

lemma tally_Nil [simp]: "tally f [] = 0"
  by (simp add: tally_def)

lemma tally_Cons [simp]: "tally f (x # xs) = f x + tally f xs"
  by (simp add: tally_def)

lemma tally_append [simp]: "tally f (xs @ ys) = tally f xs + tally f ys"
  by (simp add: tally_def)

lemma tally_cong:
  "(\<And>x. x \<in> set xs \<Longrightarrow> f x = g x) \<Longrightarrow> tally f xs = tally g xs"
  by (induction xs) auto

lemma tally_mset: "mset xs = mset ys \<Longrightarrow> tally f xs = tally f ys"
  unfolding tally_def by (metis mset_map sum_mset_sum_list)

lemma tally_remove1: "x \<in> set xs \<Longrightarrow> tally f (remove1 x xs) = tally f xs - f x"
  by (induction xs) auto

lemma tally_upd:
  assumes "distinct xs"
  shows "tally (f(p := v)) xs = tally f xs + (if p \<in> set xs then v - f p else 0)"
  using assms by (induction xs) auto

lemma tally_change:
  assumes "distinct xs" and "p \<in> set xs" and "\<And>x. x \<in> set xs \<Longrightarrow> x \<noteq> p \<Longrightarrow> g x = f x"
  shows "tally g xs = tally f xs + (g p - f p)"
proof -
  have "tally g xs = tally (f(p := g p)) xs"
    by (rule tally_cong) (use assms(3) in auto)
  then show ?thesis using assms by (simp add: tally_upd)
qed

lemma tally_zero: "(\<And>x. x \<in> set xs \<Longrightarrow> f x = 0) \<Longrightarrow> tally f xs = 0"
  by (induction xs) auto

lemma tally_nonneg: "(\<And>x. x \<in> set xs \<Longrightarrow> 0 \<le> (f x :: int)) \<Longrightarrow> 0 \<le> tally f xs"
  by (induction xs) (auto intro!: add_nonneg_nonneg)

lemma tally_add: "tally (\<lambda>x. f x + g x) xs = tally f xs + tally g xs"
  by (induction xs) auto

section \<open>Lists\<close>

lemma mset_remove1_add: "x \<in> set xs \<Longrightarrow> mset xs = add_mset x (mset (remove1 x xs))"
  by simp

lemma set_take_subset_len: "n \<le> length xs \<Longrightarrow> length (take n xs) = n"
  by simp

lemma map_update_distinct:
  "distinct (map f xs) \<Longrightarrow> i < length xs \<Longrightarrow> j < length xs \<Longrightarrow> f (xs ! i) = f (xs ! j) \<Longrightarrow> i = j"
  by (metis distinct_conv_nth length_map nth_map)

end
