(* ===== verification/Cstring.thy ===== *)
theory Cstring
  imports Prelude
begin

text \<open>
  The string helpers of \<open>src/base/lib/ll.sys.c\<close> and the parts of the C
  library they rest on. A C string is the list of its characters before the
  terminating NUL. \<open>fmt_ld\<close> is what \<^verbatim>\<open>printf("%ld")\<close> prints, \<open>strtoll\<close> the
  conversion of the C library: the value, whether it was out of range, and the
  unread rest; \<open>None\<close> when there is no digit to convert.
\<close>

section \<open>Characters\<close>

definition isspace :: "char \<Rightarrow> bool" where
  "isspace c \<longleftrightarrow> (let n = (of_char c :: nat) in n = 32 \<or> (9 \<le> n \<and> n \<le> 13))"

definition isdigit :: "char \<Rightarrow> bool" where
  "isdigit c \<longleftrightarrow> (let n = (of_char c :: nat) in 48 \<le> n \<and> n \<le> 57)"

definition tolower :: "char \<Rightarrow> char" where
  "tolower c = (let n = (of_char c :: nat) in
     if 65 \<le> n \<and> n \<le> 90 then char_of (n + 32) else c)"

definition digit_char :: "nat \<Rightarrow> char" where
  "digit_char d = char_of (48 + d)"

definition digit_val :: "char \<Rightarrow> nat" where
  "digit_val c = of_char c - 48"

section \<open>Decimal printing and reading\<close>

fun fmt_nat :: "nat \<Rightarrow> string" where
  "fmt_nat n = (if n < 10 then [digit_char n]
                else fmt_nat (n div 10) @ [digit_char (n mod 10)])"

declare fmt_nat.simps [simp del]

definition fmt_ld :: "int \<Rightarrow> string" where
  "fmt_ld i = (if i < 0 then CHR ''-'' # fmt_nat (nat (- i)) else fmt_nat (nat i))"

definition digits_val :: "string \<Rightarrow> nat" where
  "digits_val ds = foldl (\<lambda>a c. a * 10 + digit_val c) 0 ds"

definition skip_spaces :: "string \<Rightarrow> string" where
  "skip_spaces s = dropWhile isspace s"

definition clamp_s64 :: "int \<Rightarrow> int \<times> bool" where
  "clamp_s64 v =
     (if v < - 9223372036854775808 then (- 9223372036854775808, True)
      else if 9223372036854775807 < v then (9223372036854775807, True)
      else (v, False))"

definition strtoll :: "string \<Rightarrow> (int \<times> bool \<times> string) option" where
  "strtoll s =
     (let s1 = skip_spaces s;
          neg = (s1 \<noteq> [] \<and> hd s1 = CHR ''-'');
          s2 = (if s1 \<noteq> [] \<and> (hd s1 = CHR ''-'' \<or> hd s1 = CHR ''+'') then tl s1 else s1);
          ds = takeWhile isdigit s2;
          rest = dropWhile isdigit s2;
          v = (if neg then - int (digits_val ds) else int (digits_val ds))
      in if ds = [] then None
         else Some (fst (clamp_s64 v), snd (clamp_s64 v), rest))"

definition ll_atoi :: "string \<Rightarrow> int option" where
  "ll_atoi s =
     (let s1 = skip_spaces s in
      if s1 = [] then None
      else case strtoll s1 of
          None \<Rightarrow> None
        | Some (v, erange, rest) \<Rightarrow>
            if skip_spaces rest \<noteq> [] then None
            else if erange \<or> v < - 2147483648 \<or> 2147483647 < v then None
            else Some v)"

definition ll_atoll :: "string \<Rightarrow> int option" where
  "ll_atoll s =
     (let s1 = skip_spaces s in
      if s1 = [] then None
      else case strtoll s1 of
          None \<Rightarrow> None
        | Some (v, erange, rest) \<Rightarrow>
            if skip_spaces rest \<noteq> [] then None
            else if erange then None
            else Some v)"

section \<open>Bounded copies\<close>

text \<open>
  The pair is the new content of the destination and the returned length. The
  old content of the destination is an argument because a zero size leaves it.
\<close>

definition ll_strlcpy :: "string \<Rightarrow> string \<Rightarrow> nat \<Rightarrow> string \<times> nat" where
  "ll_strlcpy dst src sz =
     (if sz = 0 then (dst, length src)
      else if length src < sz then (src, length src)
      else (take (sz - 1) src, length src))"

definition ll_strlcat :: "string \<Rightarrow> string \<Rightarrow> nat \<Rightarrow> string \<times> nat" where
  "ll_strlcat dst src sz =
     (if sz \<le> length dst then (dst, length dst + length src)
      else (let (t, n) = ll_strlcpy [] src (sz - length dst)
            in (dst @ t, length dst + n)))"

text \<open>A field of \<open>n\<close> bytes filled from \<open>src\<close>.\<close>

definition cfield :: "nat \<Rightarrow> string \<Rightarrow> string" where
  "cfield n src = fst (ll_strlcpy [] src n)"

section \<open>Signal names\<close>

definition ll_sig_table :: "(int \<times> string) list" where
  "ll_sig_table =
     [(1, ''hup''), (2, ''int''), (3, ''quit''), (4, ''ill''), (6, ''abrt''), (8, ''fpe''),
      (9, ''kill''), (11, ''segv''), (13, ''pipe''), (14, ''alrm''), (15, ''term''),
      (10, ''usr1''), (12, ''usr2''), (17, ''chld''), (18, ''cont''), (19, ''stop''),
      (20, ''tstp'')]"

fun ll_streq_nocase :: "string \<Rightarrow> string \<Rightarrow> bool" where
  "ll_streq_nocase (a # as) (b # bs) =
     (if tolower a \<noteq> tolower b then False else ll_streq_nocase as bs)"
| "ll_streq_nocase as bs = (as = [] \<and> bs = [])"

definition ll_sig_to_str :: "int \<Rightarrow> string" where
  "ll_sig_to_str sig =
     (case find (\<lambda>e. fst e = sig) ll_sig_table of
        Some e \<Rightarrow> snd e | None \<Rightarrow> ''unknown'')"

definition ll_str_to_sig :: "string \<Rightarrow> int" where
  "ll_str_to_sig s =
     (if s = [] then - 1
      else case find (\<lambda>e. ll_streq_nocase (snd e) s) ll_sig_table of
        Some e \<Rightarrow> fst e | None \<Rightarrow> - 1)"

section \<open>Lemmas\<close>

lemma isdigit_digit_char [simp]: "d < 10 \<Longrightarrow> isdigit (digit_char d)"
  by (simp add: isdigit_def digit_char_def)

lemma digit_val_char [simp]: "d < 10 \<Longrightarrow> digit_val (digit_char d) = d"
  by (simp add: digit_val_def digit_char_def)

text \<open>The digits as literals, for evaluating on concrete numbers.\<close>

lemma digit_char_lits:
  "digit_char 0 = CHR ''0''" "digit_char (Suc 0) = CHR ''1''" "digit_char 2 = CHR ''2''"
  "digit_char 3 = CHR ''3''" "digit_char 4 = CHR ''4''"
  "digit_char 5 = CHR ''5''" "digit_char 6 = CHR ''6''" "digit_char 7 = CHR ''7''"
  "digit_char 8 = CHR ''8''" "digit_char 9 = CHR ''9''"
  by (simp_all add: digit_char_def char_of_def bit_0)

lemma isdigit_not_isspace [simp]: "isdigit c \<Longrightarrow> \<not> isspace c"
  by (auto simp: isdigit_def isspace_def Let_def)

lemma isdigit_not_sign [simp]: "isdigit c \<Longrightarrow> c \<noteq> CHR ''-'' \<and> c \<noteq> CHR ''+''"
  by (auto simp: isdigit_def)

lemma sign_not_isspace [simp]: "\<not> isspace CHR ''-''" "\<not> isspace CHR ''+''"
  by (simp_all add: isspace_def)

lemma sign_not_isdigit [simp]: "\<not> isdigit CHR ''-''" "\<not> isdigit CHR ''+''"
  by (simp_all add: isdigit_def)

lemma fmt_nat_digits: "c \<in> set (fmt_nat n) \<Longrightarrow> isdigit c"
proof (induction n rule: fmt_nat.induct)
  case (1 n)
  then show ?case
    by (subst (asm) (2) fmt_nat.simps) (auto split: if_splits)
qed

lemma fmt_nat_not_Nil [simp]: "fmt_nat n \<noteq> []"
  by (subst fmt_nat.simps) simp

lemma digits_val_snoc: "digits_val (ds @ [c]) = digits_val ds * 10 + digit_val c"
  by (simp add: digits_val_def)

lemma digits_val_fmt_nat [simp]: "digits_val (fmt_nat n) = n"
proof (induction n rule: fmt_nat.induct)
  case (1 n)
  show ?case
  proof (cases "n < 10")
    case True
    then show ?thesis by (simp add: fmt_nat.simps [of n] digits_val_def)
  next
    case False
    with 1 show ?thesis by (simp add: fmt_nat.simps [of n] digits_val_snoc)
  qed
qed

lemma span_digits:
  assumes "\<And>c. c \<in> set ds \<Longrightarrow> isdigit c" and "rest = [] \<or> \<not> isdigit (hd rest)"
  shows "takeWhile isdigit (ds @ rest) = ds" and "dropWhile isdigit (ds @ rest) = rest"
  using assms by (induction ds) (cases rest; auto)+

lemma hd_fmt_nat: "isdigit (hd (fmt_nat n))"
  by (rule fmt_nat_digits [of _ n]) simp

lemma hd_fmt_ld: "isdigit (hd (fmt_ld i)) \<or> hd (fmt_ld i) = CHR ''-''"
  by (simp add: fmt_ld_def hd_fmt_nat)

lemma fmt_ld_not_Nil [simp]: "fmt_ld i \<noteq> []"
  by (simp add: fmt_ld_def)

lemma set_fmt_ld: "c \<in> set (fmt_ld i) \<Longrightarrow> isdigit c \<or> c = CHR ''-''"
  by (auto simp: fmt_ld_def dest: fmt_nat_digits split: if_splits)

lemma skip_spaces_id: "s = [] \<or> \<not> isspace (hd s) \<Longrightarrow> skip_spaces s = s"
  by (cases s) (auto simp: skip_spaces_def)

lemma skip_spaces_fmt_ld [simp]: "skip_spaces (fmt_ld i @ rest) = fmt_ld i @ rest"
proof (rule skip_spaces_id)
  have "\<not> isspace (hd (fmt_ld i))" using hd_fmt_ld [of i] by auto
  then show "fmt_ld i @ rest = [] \<or> \<not> isspace (hd (fmt_ld i @ rest))" by simp
qed

lemma length_skip_spaces: "length (skip_spaces s) \<le> length s"
  by (simp add: skip_spaces_def length_dropWhile_le)

text \<open>Reading back what \<^verbatim>\<open>%ld\<close> printed.\<close>

lemma strtoll_fmt_ld:
  assumes "in_s64 i" and "rest = [] \<or> \<not> isdigit (hd rest)"
  shows "strtoll (fmt_ld i @ rest) = Some (i, False, rest)"
proof (cases "i < 0")
  case True
  have sp: "takeWhile isdigit (fmt_nat (nat (- i)) @ rest) = fmt_nat (nat (- i))"
    "dropWhile isdigit (fmt_nat (nat (- i)) @ rest) = rest"
    by (rule span_digits; use assms(2) fmt_nat_digits in blast)+
  have "skip_spaces (fmt_ld i @ rest) = CHR ''-'' # fmt_nat (nat (- i)) @ rest"
    using True by (simp add: fmt_ld_def skip_spaces_def)
  from this show ?thesis
    using True assms(1) unfolding strtoll_def in_s64_def Let_def clamp_s64_def
    by (simp only:) (simp add: sp)
next
  case False
  have sp: "takeWhile isdigit (fmt_nat (nat i) @ rest) = fmt_nat (nat i)"
    "dropWhile isdigit (fmt_nat (nat i) @ rest) = rest"
    by (rule span_digits; use assms(2) fmt_nat_digits in blast)+
  have "skip_spaces (fmt_ld i @ rest) = fmt_nat (nat i) @ rest"
    using False skip_spaces_fmt_ld [of i rest] by (simp add: fmt_ld_def)
  moreover have "hd (fmt_nat (nat i)) \<noteq> CHR ''-''" "hd (fmt_nat (nat i)) \<noteq> CHR ''+''"
    using hd_fmt_nat isdigit_not_sign by blast+
  ultimately show ?thesis
    using False assms(1) unfolding strtoll_def in_s64_def Let_def clamp_s64_def
    by (simp only:) (simp add: sp)
qed

lemma ll_atoll_fmt_ld: "in_s64 i \<Longrightarrow> ll_atoll (fmt_ld i) = Some i"
  using strtoll_fmt_ld [of i "[]"] skip_spaces_fmt_ld [of i "[]"]
  by (simp add: ll_atoll_def skip_spaces_def)

lemma ll_atoi_fmt_ld: "in_s32 i \<Longrightarrow> ll_atoi (fmt_ld i) = Some i"
  using strtoll_fmt_ld [of i "[]"] skip_spaces_fmt_ld [of i "[]"]
  by (auto simp: ll_atoi_def skip_spaces_def in_s32_def in_s64_def)

lemma fmt_nat_inj [simp]: "fmt_nat m = fmt_nat n \<longleftrightarrow> m = n"
  using digits_val_fmt_nat by metis

lemma fmt_nat_ne_minus [simp]: "fmt_nat m \<noteq> CHR ''-'' # s" "CHR ''-'' # s \<noteq> fmt_nat m"
  using hd_fmt_nat [of m] by (metis list.sel(1) sign_not_isdigit(1))+

lemma fmt_ld_inj [simp]: "fmt_ld i = fmt_ld j \<longleftrightarrow> i = j"
  by (auto simp: fmt_ld_def)

lemma strtoll_length:
  assumes "strtoll s = Some (v, e, rest)"
  shows "length rest < length s"
proof -
  define s1 where "s1 = skip_spaces s"
  define s2 where
    "s2 = (if s1 \<noteq> [] \<and> (hd s1 = CHR ''-'' \<or> hd s1 = CHR ''+'') then tl s1 else s1)"
  have ne: "takeWhile isdigit s2 \<noteq> []" and r: "rest = dropWhile isdigit s2"
    using assms unfolding strtoll_def Let_def s1_def s2_def by (auto split: if_splits)
  have "length s1 \<le> length s" unfolding s1_def by (rule length_skip_spaces)
  then have "length s2 \<le> length s" unfolding s2_def by auto
  moreover have "length rest < length s2"
    using ne unfolding r by (cases s2) (auto simp: le_imp_less_Suc length_dropWhile_le split: if_splits)
  ultimately show ?thesis by simp
qed

text \<open>The unread rest of a conversion does not influence its value.\<close>

lemma skip_spaces_split: "\<exists>w. (\<forall>c \<in> set w. isspace c) \<and> s = w @ skip_spaces s"
  unfolding skip_spaces_def by (metis set_takeWhileD takeWhile_dropWhile_id)

lemma skip_spaces_append:
  "(\<forall>c \<in> set w. isspace c) \<Longrightarrow> skip_spaces (w @ s) = skip_spaces s"
  by (simp add: skip_spaces_def dropWhile_append2)

lemma strtoll_split:
  assumes "strtoll s = Some (v, e, rest)"
  shows "\<exists>num. s = num @ rest \<and> strtoll num = Some (v, e, [])"
proof -
  define s1 where "s1 = skip_spaces s"
  define sg where "sg = (s1 \<noteq> [] \<and> (hd s1 = CHR ''-'' \<or> hd s1 = CHR ''+''))"
  define s2 where "s2 = (if sg then tl s1 else s1)"
  define pre where "pre = (if sg then [hd s1] else [])"
  define ds where "ds = takeWhile isdigit s2"
  let ?v = "if s1 \<noteq> [] \<and> hd s1 = CHR ''-'' then - int (digits_val ds) else int (digits_val ds)"
  have ne: "ds \<noteq> []" and r: "rest = dropWhile isdigit s2"
    and v: "v = fst (clamp_s64 ?v)" "e = snd (clamp_s64 ?v)"
    using assms unfolding strtoll_def Let_def ds_def s2_def sg_def s1_def
    by (auto split: if_splits)
  have s1: "s1 = pre @ s2" unfolding s2_def sg_def pre_def by (cases s1) auto
  obtain w where w: "\<forall>c \<in> set w. isspace c" "s = w @ s1"
    using skip_spaces_split unfolding s1_def by blast
  have dig: "isdigit (hd ds)" using ne unfolding ds_def by (metis hd_in_set set_takeWhileD)
  have hd_eq: "hd (pre @ ds) = hd s1"
    using ne s1 unfolding pre_def ds_def by (cases s2) (auto split: if_splits)
  have "\<not> isspace (hd (pre @ ds))" using dig unfolding pre_def sg_def by auto
  then have sk: "skip_spaces (w @ pre @ ds) = pre @ ds"
    using w(1) ne by (simp add: skip_spaces_append skip_spaces_id)
  have "s1 \<noteq> []" using s1 ne unfolding ds_def by auto
  then have t: "(if pre @ ds \<noteq> [] \<and> (hd (pre @ ds) = CHR ''-'' \<or> hd (pre @ ds) = CHR ''+'')
      then tl (pre @ ds) else pre @ ds) = ds"
    using ne dig unfolding hd_eq by (auto simp: pre_def sg_def)
  have d: "takeWhile isdigit ds = ds" "dropWhile isdigit ds = []"
    unfolding ds_def by (auto dest: set_takeWhileD)
  have "strtoll (w @ pre @ ds) = Some (v, e, [])"
    unfolding strtoll_def Let_def sk t d v using ne \<open>s1 \<noteq> []\<close> by (simp add: hd_eq)
  moreover have "s = (w @ pre @ ds) @ rest" using w(2) s1 r by (simp add: ds_def)
  ultimately show ?thesis by blast
qed

text \<open>\<open>ll_strlcpy\<close> never writes more than \<open>sz\<close> bytes, terminator included.\<close>

lemma ll_strlcpy_bound:
  "0 < sz \<Longrightarrow> length (fst (ll_strlcpy dst src sz)) < sz"
  by (auto simp: ll_strlcpy_def)

lemma ll_strlcpy_exact:
  "length src < sz \<Longrightarrow> fst (ll_strlcpy dst src sz) = src"
  by (auto simp: ll_strlcpy_def)

lemma cfield_take: "cfield n src = take (n - 1) src"
  by (auto simp: cfield_def ll_strlcpy_def)

lemma ll_strlcat_bound:
  "length dst < sz \<Longrightarrow> length (fst (ll_strlcat dst src sz)) < sz"
  by (auto simp: ll_strlcat_def ll_strlcpy_def)

lemma ll_streq_nocase_refl [simp]: "ll_streq_nocase s s"
  by (induction s) auto

end
