(* ===== verification/Ll_Hash.thy ===== *)
theory Ll_Hash
  imports Cstring
begin

unbundle bit_operations_syntax

text \<open>
  The string-keyed hash table of \<open>src/base/lib/ll.hash.c\<close>: separate chaining
  over a prime number of buckets, 32-bit FNV-1a hashing, doubling when the load
  exceeds three quarters. A chain is the list of its entries from the bucket
  head; an entry is its key and its value, where \<open>None\<close> is the null
  pointer. Allocation succeeds. The locale \<open>string_table\<close> is the contract the
  daemons rely on; the interpretation at the end discharges it for this code.
\<close>

section \<open>Primes\<close>

function ll_is_prime_loop :: "nat \<Rightarrow> nat \<Rightarrow> bool" where
  "ll_is_prime_loop n i =
     (if i * i \<le> n
      then if n mod i = 0 \<or> n mod (i + 2) = 0 then False else ll_is_prime_loop n (i + 6)
      else True)"
  by pat_completeness auto
termination
proof (relation "measure (\<lambda>(n, i). Suc n - i)")
  fix n i :: nat
  assume "i * i \<le> n"
  then have "i \<le> n" by (meson le_square order_trans)
  then show "((n, i + 6), (n, i)) \<in> measure (\<lambda>(n, i). Suc n - i)" by simp
qed simp

definition ll_is_prime :: "nat \<Rightarrow> bool" where
  "ll_is_prime n =
     (if n < 2 then False
      else if n = 2 \<or> n = 3 then True
      else if n mod 2 = 0 \<or> n mod 3 = 0 then False
      else ll_is_prime_loop n 5)"

text \<open>The reference: at least two, and no divisor strictly between one and the number.\<close>

definition prime_spec :: "nat \<Rightarrow> bool" where
  "prime_spec n \<longleftrightarrow> 2 \<le> n \<and> (\<forall>d. d dvd n \<longrightarrow> d = 1 \<or> d = n)"

declare ll_is_prime_loop.simps [simp del]

lemma prime_spec_divisor: "2 \<le> n \<Longrightarrow> \<exists>p. prime_spec p \<and> p dvd n"
proof (induction n rule: less_induct)
  case (less n)
  show ?case
  proof (cases "prime_spec n")
    case False
    with less.prems obtain d where d: "d dvd n" "d \<noteq> 1" "d \<noteq> n"
      by (auto simp: prime_spec_def)
    with less.prems have "d < n" "2 \<le> d"
      using dvd_imp_le [of d n] by (auto dest: dvd_pos_nat simp: numeral_2_eq_2 Suc_le_eq)
    then show ?thesis using less.IH d(1) dvd_trans by blast
  qed auto
qed

text \<open>
  A composite number has a prime divisor not above its square root; the loop
  visits every candidate of the form \<open>6k - 1\<close> and \<open>6k + 1\<close>, which all primes
  above three are.
\<close>

lemma prime_spec_small_divisor:
  assumes "2 \<le> n" and "\<not> prime_spec n"
  obtains p where "prime_spec p" "p dvd n" "p * p \<le> n"
proof -
  from assms obtain d where d: "d dvd n" "d \<noteq> 1" "d \<noteq> n" by (auto simp: prime_spec_def)
  then obtain e where e: "n = d * e" by (auto elim: dvdE)
  have "d \<noteq> 0" "e \<noteq> 0" "e \<noteq> 1" using assms(1) d(3) e by (intro notI; simp)+
  then have ge: "2 \<le> d" "2 \<le> e" using d(2) by linarith+
  define m where "m = min d e"
  have m: "2 \<le> m" "m dvd n" using ge e by (auto simp: m_def min_def)
  have mm: "m * m \<le> n" unfolding e m_def by (intro mult_le_mono) auto
  from prime_spec_divisor [OF m(1)] obtain p where p: "prime_spec p" "p dvd m" by auto
  have "p \<le> m" using p(2) m(1) by (auto dest: dvd_imp_le)
  then have "p * p \<le> n" using mm mult_le_mono [of p m p m] by linarith
  with p m(2) that show thesis using dvd_trans by blast
qed

lemma prime_mod_6:
  assumes "prime_spec p" and "5 \<le> p"
  shows "p mod 6 = 5 \<or> p mod 6 = 1"
proof -
  have "\<not> 2 dvd p" "\<not> 3 dvd p" using assms by (auto simp: prime_spec_def)
  then show ?thesis by presburger
qed

lemma ll_is_prime_loop_spec:
  assumes "i mod 6 = 5"
  shows "ll_is_prime_loop n i \<longleftrightarrow>
    (\<forall>p. i \<le> p \<and> p mod 6 = 5 \<and> p * p \<le> n \<longrightarrow> \<not> p dvd n \<and> \<not> (p + 2) dvd n)"
  using assms
proof (induction n i rule: ll_is_prime_loop.induct)
  case (1 n i)
  show ?case
  proof (cases "i * i \<le> n")
    case False
    then have "\<not> p * p \<le> n" if "i \<le> p" for p
      using mult_le_mono [OF that that] by linarith
    then show ?thesis using False by (subst ll_is_prime_loop.simps) auto
  next
    case True
    have step: "p = i \<or> i + 6 \<le> p" if "i \<le> p" "p mod 6 = 5" for p
    proof -
      have "i = 6 * (i div 6) + 5" "p = 6 * (p div 6) + 5"
        using that(2) "1.prems" mult_div_mod_eq [of 6 i] mult_div_mod_eq [of 6 p] by simp_all
      with that(1) show ?thesis by (cases "i div 6 = p div 6") linarith+
    qed
    show ?thesis
    proof (cases "n mod i = 0 \<or> n mod (i + 2) = 0")
      case True
      then have "i dvd n \<or> (i + 2) dvd n" by (simp only: dvd_eq_mod_eq_0)
      then have "\<not> (\<forall>p. i \<le> p \<and> p mod 6 = 5 \<and> p * p \<le> n \<longrightarrow> \<not> p dvd n \<and> \<not> (p + 2) dvd n)"
        using \<open>i * i \<le> n\<close> "1.prems" by blast
      moreover have "\<not> ll_is_prime_loop n i"
        using \<open>i * i \<le> n\<close> True by (subst ll_is_prime_loop.simps) (simp only: if_True simp_thms)
      ultimately show ?thesis by blast
    next
      case False
      have "(i + 6) mod 6 = 5" using "1.prems" by simp
      note ih = "1.IH" [OF True False this]
      have i: "\<not> i dvd n" "\<not> (i + 2) dvd n" using False by (simp_all only: dvd_eq_mod_eq_0 simp_thms de_Morgan_disj)
      have "(\<forall>p. i \<le> p \<and> p mod 6 = 5 \<and> p * p \<le> n \<longrightarrow> \<not> p dvd n \<and> \<not> (p + 2) dvd n) \<longleftrightarrow>
        (\<forall>p. i + 6 \<le> p \<and> p mod 6 = 5 \<and> p * p \<le> n \<longrightarrow> \<not> p dvd n \<and> \<not> (p + 2) dvd n)"
        (is "?L \<longleftrightarrow> ?R")
      proof
        assume ?L
        then show ?R using add_leD1 by blast
      next
        assume R: ?R
        show ?L
        proof (intro allI impI)
          fix p
          assume p: "i \<le> p \<and> p mod 6 = 5 \<and> p * p \<le> n"
          with step [of p] have "p = i \<or> i + 6 \<le> p" by blast
          then show "\<not> p dvd n \<and> \<not> (p + 2) dvd n" using i R p by blast
        qed
      qed
      then show ?thesis using ih by (subst ll_is_prime_loop.simps) (simp only: True False if_True if_False)
    qed
  qed
qed

lemma prime_spec_2_3: "prime_spec 2" "prime_spec 3"
proof -
  have "d = 1 \<or> d = 2" if "d dvd 2" for d :: nat
  proof -
    have "d \<le> 2" "d \<noteq> 0" using that dvd_imp_le [of d 2] by (simp, intro notI, simp)
    then show ?thesis by linarith
  qed
  then show "prime_spec 2" by (simp add: prime_spec_def)
  have "d = 1 \<or> d = 3" if "d dvd 3" for d :: nat
  proof -
    have "d \<le> 3" "d \<noteq> 0" "d \<noteq> 2" using that dvd_imp_le [of d 3] by (simp, intro notI, simp, intro notI, simp)
    then show ?thesis by linarith
  qed
  then show "prime_spec 3" by (simp add: prime_spec_def)
qed

lemma ll_is_prime_sound:
  assumes "ll_is_prime n" and "n \<noteq> 2" "n \<noteq> 3"
  shows "prime_spec n"
proof (rule ccontr)
  assume np: "\<not> prime_spec n"
  from assms have n: "2 \<le> n" "\<not> 2 dvd n" "\<not> 3 dvd n" and l: "ll_is_prime_loop n 5"
    by (auto simp: ll_is_prime_def split: if_splits)
  from prime_spec_small_divisor [OF n(1) np] obtain p
    where p: "prime_spec p" "p dvd n" "p * p \<le> n" .
  have "(2 :: nat) dvd 4" by presburger
  then have "p \<noteq> 2" "p \<noteq> 3" "p \<noteq> 4" using p(2) n dvd_trans by blast+
  moreover have "2 \<le> p" using p(1) by (simp add: prime_spec_def)
  ultimately have p5: "5 \<le> p" by linarith
  have all: "\<forall>q. 5 \<le> q \<and> q mod 6 = 5 \<and> q * q \<le> n \<longrightarrow> \<not> q dvd n \<and> \<not> (q + 2) dvd n"
    using l ll_is_prime_loop_spec [of 5 n] by simp
  from prime_mod_6 [OF p(1) p5] show False
  proof
    assume "p mod 6 = 5"
    with all p p5 show False by blast
  next
    assume m: "p mod 6 = 1"
    then have "p = 6 * (p div 6) + 1" using mult_div_mod_eq [of 6 p] by simp
    moreover from this p5 have "p div 6 \<noteq> 0" by (intro notI) simp
    ultimately obtain k where k: "p = 6 * k + 7" by (intro that [of "p div 6 - 1"]) linarith
    then have q: "5 \<le> p - 2" "(p - 2) mod 6 = 5" "p - 2 + 2 = p" by simp_all
    have "(p - 2) * (p - 2) \<le> n" using p(3) mult_le_mono [of "p - 2" p "p - 2" p] by linarith
    with all q p(2) show False by metis
  qed
qed

lemma ll_is_prime_complete:
  assumes "prime_spec n"
  shows "ll_is_prime n"
proof (cases "n = 2 \<or> n = 3")
  case False
  have d: "d = 1 \<or> d = n" if "d dvd n" for d using assms that by (auto simp: prime_spec_def)
  have n: "\<not> n < 2" "\<not> 2 dvd n" "\<not> 3 dvd n"
    using assms False d [of 2] d [of 3] by (auto simp: prime_spec_def)
  have "\<not> q dvd n \<and> \<not> (q + 2) dvd n" if q: "5 \<le> q" "q * q \<le> n" for q
  proof -
    have "5 * q \<le> n" using q mult_le_mono [of 5 q q q] by linarith
    then show ?thesis using d [of q] d [of "q + 2"] q(1) by auto
  qed
  then have "ll_is_prime_loop n 5" using ll_is_prime_loop_spec [of 5 n] by simp
  moreover have "\<not> (n mod 2 = 0 \<or> n mod 3 = 0)"
    using n by (simp only: dvd_eq_mod_eq_0 simp_thms)
  ultimately show ?thesis using n(1) False
    unfolding ll_is_prime_def by (simp only: if_False simp_thms)
qed (auto simp: ll_is_prime_def)

lemma ll_is_prime_spec: "ll_is_prime n \<longleftrightarrow> prime_spec n"
  using ll_is_prime_sound ll_is_prime_complete prime_spec_2_3 by blast

text \<open>There is a prime at or above every number, so the search for one ends.\<close>

lemma prime_above: "\<exists>p \<ge> n. ll_is_prime p"
proof -
  have "2 \<le> (fact n :: nat) + 1" using fact_ge_1 [of n, where 'a = nat] by linarith
  from prime_spec_divisor [OF this] obtain p where p: "prime_spec p" "p dvd fact n + 1" by auto
  have "n < p"
  proof (rule ccontr)
    assume "\<not> n < p"
    then have "p dvd fact n" using p(1) by (intro dvd_fact) (auto simp: prime_spec_def)
    then have "p dvd 1" using p(2) dvd_add_right_iff by blast
    with p(1) show False by (auto simp: prime_spec_def)
  qed
  with p(1) show ?thesis using ll_is_prime_complete less_imp_le by blast
qed

function ll_next_prime_loop :: "nat \<Rightarrow> nat" where
  "ll_next_prime_loop n = (if ll_is_prime n then n else ll_next_prime_loop (n + 1))"
  by pat_completeness auto
termination
proof (relation "measure (\<lambda>n. (LEAST p. n \<le> p \<and> ll_is_prime p) - n)")
  fix n
  assume np: "\<not> ll_is_prime n"
  let ?P = "\<lambda>m p. m \<le> p \<and> ll_is_prime p"
  have eq: "?P (n + 1) = ?P n" using np by (auto simp: fun_eq_iff le_less)
  have "?P n (LEAST p. ?P n p)" using prime_above [of n] by (metis (mono_tags, lifting) LeastI_ex)
  then have "n < (LEAST p. ?P n p)" using np by (metis (mono_tags, lifting) le_neq_implies_less)
  then show "(n + 1, n) \<in> measure (\<lambda>n. (LEAST p. n \<le> p \<and> ll_is_prime p) - n)"
    using eq by simp
qed simp

declare ll_next_prime_loop.simps [simp del]

definition ll_next_prime :: "nat \<Rightarrow> nat" where
  "ll_next_prime n = ll_next_prime_loop (if n < 2 then 2 else n)"

lemma ll_next_prime_loop_spec:
  "n \<le> ll_next_prime_loop n \<and> ll_is_prime (ll_next_prime_loop n) \<and>
   (\<forall>q. n \<le> q \<longrightarrow> q < ll_next_prime_loop n \<longrightarrow> \<not> ll_is_prime q)"
proof (induction n rule: ll_next_prime_loop.induct)
  case (1 n)
  show ?case
  proof (cases "ll_is_prime n")
    case True
    then show ?thesis by (subst (1 2 3) ll_next_prime_loop.simps) simp
  next
    case False
    with 1 have ih: "n + 1 \<le> ll_next_prime_loop (n + 1)"
      "ll_is_prime (ll_next_prime_loop (n + 1))"
      "\<And>q. n + 1 \<le> q \<Longrightarrow> q < ll_next_prime_loop (n + 1) \<Longrightarrow> \<not> ll_is_prime q" by auto
    have e: "ll_next_prime_loop n = ll_next_prime_loop (n + 1)"
      using False by (subst ll_next_prime_loop.simps) simp
    have "\<not> ll_is_prime q" if "n \<le> q" "q < ll_next_prime_loop (n + 1)" for q
      using ih(3) [of q] that False by (cases "q = n") auto
    then show ?thesis unfolding e using ih by auto
  qed
qed

lemma ll_next_prime_pos [simp]: "0 < ll_next_prime n" "ll_is_prime (ll_next_prime n)"
  using ll_next_prime_loop_spec [of "if n < 2 then 2 else n"]
  by (auto simp: ll_next_prime_def split: if_splits)

section \<open>The table\<close>

type_synonym 'v ll_hash_entry = "string \<times> 'v option"

record 'v ll_hash =
  buckets :: "'v ll_hash_entry list list"
  nbuckets :: nat
  nentries :: nat

datatype ll_hash_status = LL_HASH_INSERTED | LL_HASH_UPDATED | LL_HASH_EXISTS

definition ll_hash_str :: "string \<Rightarrow> u64" where
  "ll_hash_str s =
     ucast (foldl (\<lambda>h c. (h XOR of_char c) * 16777619) (2166136261 :: u32) s)"

definition ll_bucket_index :: "string \<Rightarrow> nat \<Rightarrow> nat" where
  "ll_bucket_index key nb = unat (ll_hash_str key) mod nb"

text \<open>Moving an entry to the head of its chain in the new array.\<close>

definition rehash_entry ::
  "nat \<Rightarrow> 'v ll_hash_entry list list \<Rightarrow> 'v ll_hash_entry \<Rightarrow> 'v ll_hash_entry list list" where
  "rehash_entry nb arr ent =
     (let idx = ll_bucket_index (fst ent) nb in arr[idx := ent # arr ! idx])"

definition ll_hash_resize :: "'v ll_hash \<Rightarrow> nat \<Rightarrow> 'v ll_hash" where
  "ll_hash_resize ht new_buckets =
     (let nb = ll_next_prime new_buckets;
          arr = foldl (foldl (rehash_entry nb)) (replicate nb []) (buckets ht)
      in ht\<lparr>buckets := arr, nbuckets := nb\<rparr>)"

text \<open>The load factor bound is three quarters; the comparison is exact on these sizes.\<close>

definition ll_hash_maybe_grow :: "'v ll_hash \<Rightarrow> 'v ll_hash" where
  "ll_hash_maybe_grow ht =
     (if nbuckets ht = 0 then ht
      else if 4 * nentries ht \<le> 3 * nbuckets ht then ht
      else ll_hash_resize ht (nbuckets ht * 2))"

definition ll_hash_init :: "nat \<Rightarrow> 'v ll_hash" where
  "ll_hash_init initial_buckets =
     (let nb = ll_next_prime (if initial_buckets = 0 then 11 else initial_buckets)
      in \<lparr>buckets = replicate nb [], nbuckets = nb, nentries = 0\<rparr>)"

fun chain_set :: "'v ll_hash_entry list \<Rightarrow> string \<Rightarrow> 'v option \<Rightarrow> 'v ll_hash_entry list" where
  "chain_set [] key v = []"
| "chain_set (e # es) key v = (if fst e = key then (key, v) # es else e # chain_set es key v)"

fun chain_del :: "'v ll_hash_entry list \<Rightarrow> string \<Rightarrow> 'v ll_hash_entry list" where
  "chain_del [] key = []"
| "chain_del (e # es) key = (if fst e = key then es else e # chain_del es key)"

definition ll_hash_insert ::
  "'v ll_hash \<Rightarrow> string \<Rightarrow> 'v option \<Rightarrow> bool \<Rightarrow> ll_hash_status \<times> 'v ll_hash" where
  "ll_hash_insert ht0 key v allow_update =
     (let ht = ll_hash_maybe_grow ht0;
          idx = ll_bucket_index key (nbuckets ht);
          chain = buckets ht ! idx
      in case map_of chain key of
           Some _ \<Rightarrow>
             if allow_update
             then (LL_HASH_UPDATED, ht\<lparr>buckets := (buckets ht)[idx := chain_set chain key v]\<rparr>)
             else (LL_HASH_EXISTS, ht)
         | None \<Rightarrow>
             (LL_HASH_INSERTED,
              ht\<lparr>buckets := (buckets ht)[idx := (key, v) # chain], nentries := nentries ht + 1\<rparr>))"

definition ll_hash_search :: "'v ll_hash \<Rightarrow> string \<Rightarrow> 'v option" where
  "ll_hash_search ht key =
     (case map_of (buckets ht ! ll_bucket_index key (nbuckets ht)) key of
        Some v \<Rightarrow> v | None \<Rightarrow> None)"

definition ll_hash_contains :: "'v ll_hash \<Rightarrow> string \<Rightarrow> bool" where
  "ll_hash_contains ht key =
     (map_of (buckets ht ! ll_bucket_index key (nbuckets ht)) key \<noteq> None)"

definition ll_hash_remove :: "'v ll_hash \<Rightarrow> string \<Rightarrow> 'v option \<times> 'v ll_hash" where
  "ll_hash_remove ht key =
     (let idx = ll_bucket_index key (nbuckets ht);
          chain = buckets ht ! idx
      in case map_of chain key of
           None \<Rightarrow> (None, ht)
         | Some v \<Rightarrow>
             (v, ht\<lparr>buckets := (buckets ht)[idx := chain_del chain key],
                    nentries := nentries ht - 1\<rparr>))"

definition ll_hash_count :: "'v ll_hash \<Rightarrow> nat" where
  "ll_hash_count ht = nentries ht"

text \<open>
  Iteration. \<open>it_entry\<close> is the rest of the current chain from the current
  entry, empty for the null pointer.
\<close>

record 'v ll_hash_iter =
  it_bucket :: nat
  it_entry :: "'v ll_hash_entry list"

definition ll_hash_iter_init :: "'v ll_hash \<Rightarrow> 'v ll_hash_iter" where
  "ll_hash_iter_init ht = \<lparr>it_bucket = 0, it_entry = []\<rparr>"

function ll_hash_iter_skip ::
  "'v ll_hash \<Rightarrow> nat \<Rightarrow> 'v ll_hash_entry list \<Rightarrow> 'v ll_hash_entry option \<times> 'v ll_hash_iter" where
  "ll_hash_iter_skip ht b es =
     (case es of
        e # _ \<Rightarrow> (Some e, \<lparr>it_bucket = b, it_entry = es\<rparr>)
      | [] \<Rightarrow> if nbuckets ht \<le> b then (None, \<lparr>it_bucket = b, it_entry = []\<rparr>)
              else ll_hash_iter_skip ht (b + 1) (buckets ht ! b))"
  by pat_completeness auto
termination by (relation "measure (\<lambda>(ht, b, es). nbuckets ht - b)") auto

declare ll_hash_iter_skip.simps [simp del]

definition ll_hash_iter_next ::
  "'v ll_hash \<Rightarrow> 'v ll_hash_iter \<Rightarrow> 'v ll_hash_entry option \<times> 'v ll_hash_iter" where
  "ll_hash_iter_next ht it = ll_hash_iter_skip ht (it_bucket it) (tl (it_entry it))"

text \<open>\<open>ll_hash_for_each\<close> visits the entries bucket by bucket.\<close>

definition ll_hash_for_each :: "'v ll_hash \<Rightarrow> ('v ll_hash_entry \<Rightarrow> 's \<Rightarrow> 's) \<Rightarrow> 's \<Rightarrow> 's" where
  "ll_hash_for_each ht fn s = fold (fold fn) (take (nbuckets ht) (buckets ht)) s"

section \<open>Well-formed tables\<close>

definition chain_ok :: "nat \<Rightarrow> nat \<Rightarrow> 'v ll_hash_entry list \<Rightarrow> bool" where
  "chain_ok nb i es \<longleftrightarrow>
     distinct (map fst es) \<and> (\<forall>e \<in> set es. ll_bucket_index (fst e) nb = i)"

definition ll_hash_wf :: "'v ll_hash \<Rightarrow> bool" where
  "ll_hash_wf ht \<longleftrightarrow>
     nbuckets ht = length (buckets ht) \<and> ll_is_prime (nbuckets ht) \<and>
     (\<forall>i < nbuckets ht. chain_ok (nbuckets ht) i (buckets ht ! i)) \<and>
     nentries ht = sum_list (map length (buckets ht))"

definition ll_hash_abs :: "'v ll_hash \<Rightarrow> string \<rightharpoonup> 'v option" where
  "ll_hash_abs ht key = map_of (buckets ht ! ll_bucket_index key (nbuckets ht)) key"

text \<open>A bucket array of \<open>nb\<close> chains that holds the map \<open>m\<close> in \<open>n\<close> entries.\<close>

definition table_ok :: "nat \<Rightarrow> 'v ll_hash_entry list list \<Rightarrow> (string \<rightharpoonup> 'v option) \<Rightarrow> nat \<Rightarrow> bool" where
  "table_ok nb arr m n \<longleftrightarrow>
     length arr = nb \<and> (\<forall>i < nb. chain_ok nb i (arr ! i)) \<and>
     (\<forall>k. map_of (arr ! ll_bucket_index k nb) k = m k) \<and> n = sum_list (map length arr)"

lemma ll_hash_wf_table:
  "ll_hash_wf ht \<longleftrightarrow> ll_is_prime (nbuckets ht) \<and>
     table_ok (nbuckets ht) (buckets ht) (ll_hash_abs ht) (nentries ht)"
  by (auto simp: ll_hash_wf_def table_ok_def ll_hash_abs_def)

lemma ll_is_prime_gt0: "ll_is_prime n \<Longrightarrow> 0 < n"
  by (cases n) (auto simp: ll_is_prime_def)

lemma ll_bucket_index_less [simp]: "0 < nb \<Longrightarrow> ll_bucket_index k nb < nb"
  by (simp add: ll_bucket_index_def)

lemma sum_list_update_length:
  "i < length xs \<Longrightarrow>
   sum_list (map length (xs[i := ys])) + length (xs ! i) = sum_list (map length xs) + length ys"
  by (induction xs arbitrary: i) (auto split: nat.splits)

lemma table_ok_empty: "0 < nb \<Longrightarrow> table_ok nb (replicate nb []) Map.empty 0"
  by (simp add: table_ok_def chain_ok_def)

lemma chain_ok_NoneD: "map_of es k = None \<Longrightarrow> k \<notin> fst ` set es"
  by (simp add: map_of_eq_None_iff)

text \<open>Replacing the chain of one key by a chain that agrees on all other keys.\<close>

lemma table_ok_replace:
  assumes ok: "table_ok nb arr m n" and nb: "0 < nb"
    and idx: "idx = ll_bucket_index k nb" and c: "chain_ok nb idx es"
    and same: "\<And>k'. k' \<noteq> k \<Longrightarrow> map_of es k' = map_of (arr ! idx) k'"
    and n: "n' + length (arr ! idx) = n + length es"
  shows "table_ok nb (arr[idx := es]) (m(k := map_of es k)) n'"
proof -
  have len: "length arr = nb" and lt: "idx < nb"
    using ok nb idx by (auto simp: table_ok_def)
  have look: "map_of (arr ! ll_bucket_index k' nb) k' = m k'" for k'
    using ok by (simp add: table_ok_def)
  have "map_of (arr[idx := es] ! ll_bucket_index k' nb) k' = (m(k := map_of es k)) k'" for k'
    using same [of k'] look [of k'] len lt idx by (cases "ll_bucket_index k' nb = idx") auto
  moreover have "n' = sum_list (map length (arr[idx := es]))"
    using ok n lt len sum_list_update_length [of idx arr es] by (auto simp: table_ok_def)
  moreover have "chain_ok nb i (arr[idx := es] ! i)" if "i < nb" for i
    using ok c that len by (cases "i = idx") (auto simp: table_ok_def)
  ultimately show ?thesis using len by (simp add: table_ok_def)
qed

lemma table_ok_chain:
  assumes "table_ok nb arr m n" and "0 < nb"
  shows "chain_ok nb (ll_bucket_index k nb) (arr ! ll_bucket_index k nb)"
    and "map_of (arr ! ll_bucket_index k nb) k = m k"
  using assms by (auto simp: table_ok_def)

lemma table_ok_add:
  assumes ok: "table_ok nb arr m n" and nb: "0 < nb" and new: "m k = None"
    and idx: "idx = ll_bucket_index k nb"
  shows "table_ok nb (arr[idx := (k, v) # arr ! idx]) (m(k \<mapsto> v)) (n + 1)"
proof -
  have "map_of (arr ! idx) k = None" using table_ok_chain(2) [OF ok nb, of k] new idx by simp
  then have "chain_ok nb idx ((k, v) # arr ! idx)"
    using table_ok_chain(1) [OF ok nb, of k] idx by (auto simp: chain_ok_def map_of_eq_None_iff)
  from table_ok_replace [OF ok nb idx this, of "n + 1"] show ?thesis by simp
qed

lemma table_ok_rehash:
  assumes "table_ok nb arr m n" and "0 < nb" and "distinct (map fst es)"
    and "\<And>k. k \<in> fst ` set es \<Longrightarrow> m k = None"
  shows "table_ok nb (foldl (rehash_entry nb) arr es) (m ++ map_of es) (n + length es)"
  using assms
proof (induction es arbitrary: arr m n)
  case Nil
  then show ?case by simp
next
  case (Cons e es)
  obtain k v where e: "e = (k, v)" by (cases e)
  let ?arr = "rehash_entry nb arr e"
  have step: "table_ok nb ?arr (m(k \<mapsto> v)) (n + 1)"
    using table_ok_add [OF Cons.prems(1,2), of k] Cons.prems(4) [of k]
    by (simp add: e rehash_entry_def Let_def)
  have none: "map_of es k = None" using Cons.prems(3) e by (auto simp: map_of_eq_None_iff)
  have "table_ok nb (foldl (rehash_entry nb) ?arr es) (m(k \<mapsto> v) ++ map_of es) (n + 1 + length es)"
    by (rule Cons.IH [OF step Cons.prems(2)]) (use Cons.prems(3,4) e in auto)
  moreover have "m(k \<mapsto> v) ++ map_of es = m ++ map_of (e # es)"
    using none by (auto simp: e fun_eq_iff map_add_def split: option.splits)
  ultimately show ?case by (simp only: foldl_Cons list.size add.assoc add.commute [of "Suc 0"] One_nat_def)
qed

lemma chains_concat:
  assumes "\<And>i. i < length bs \<Longrightarrow> chain_ok nb i (bs ! i)"
  shows "distinct (map fst (concat bs)) \<and>
    (\<forall>k. map_of (concat bs) k =
       (if ll_bucket_index k nb < length bs then map_of (bs ! ll_bucket_index k nb) k else None))"
  using assms
proof (induction bs rule: rev_induct)
  case Nil
  then show ?case by simp
next
  case (snoc b bs)
  have "chain_ok nb i (bs ! i)" if "i < length bs" for i
    using snoc.prems [of i] that by (simp add: nth_append)
  note ih = snoc.IH [OF this, THEN conjunct1] snoc.IH [OF this, THEN conjunct2, rule_format]
  have b: "distinct (map fst b)" "\<And>k. k \<in> fst ` set b \<Longrightarrow> ll_bucket_index k nb = length bs"
    using snoc.prems [of "length bs"] by (auto simp: chain_ok_def)
  have old: "ll_bucket_index k nb < length bs" if "k \<in> fst ` set (concat bs)" for k
    using ih(2) [of k] that by (metis map_of_eq_None_iff)
  have none: "map_of b k = None" if "ll_bucket_index k nb \<noteq> length bs" for k
    using b(2) [of k] that by (auto simp: map_of_eq_None_iff)
  have "fst ` set (concat bs) \<inter> fst ` set b = {}" using old b(2) by fastforce
  then have "distinct (map fst (concat (bs @ [b])))"
    using ih(1) b(1) by (simp only: concat_append map_append distinct_append) auto
  moreover have "map_of (concat (bs @ [b])) k =
      (if ll_bucket_index k nb < length (bs @ [b]) then map_of ((bs @ [b]) ! ll_bucket_index k nb) k
       else None)" for k
    using ih(2) [of k] none [of k]
    by (auto simp: map_add_def nth_append less_Suc_eq split: option.splits)
  ultimately show ?case by blast
qed

lemma foldl_foldl_concat: "foldl (foldl f) a xss = foldl f a (concat xss)"
  by (induction xss arbitrary: a) auto

lemma fold_fold_concat: "fold (fold f) xss a = fold f (concat xss) a"
  by (induction xss arbitrary: a) auto

text \<open>The entries of a well-formed table, in bucket order, list its map once.\<close>

lemma ll_hash_entries_spec:
  assumes wf: "ll_hash_wf ht"
  shows "distinct (map fst (concat (buckets ht)))"
    and "map_of (concat (buckets ht)) k = ll_hash_abs ht k"
    and "(k, v) \<in> set (concat (buckets ht)) \<longleftrightarrow> ll_hash_abs ht k = Some v"
proof -
  have ok: "table_ok (nbuckets ht) (buckets ht) (ll_hash_abs ht) (nentries ht)"
    and pos: "0 < nbuckets ht" using wf ll_is_prime_gt0 by (auto simp: ll_hash_wf_table)
  have cc: "distinct (map fst (concat (buckets ht)))"
    "\<And>k. map_of (concat (buckets ht)) k = ll_hash_abs ht k"
    using chains_concat [of "buckets ht" "nbuckets ht"] ok pos by (auto simp: table_ok_def)
  then show "distinct (map fst (concat (buckets ht)))"
    "map_of (concat (buckets ht)) k = ll_hash_abs ht k" by simp_all
  show "(k, v) \<in> set (concat (buckets ht)) \<longleftrightarrow> ll_hash_abs ht k = Some v"
    using cc map_of_eq_Some_iff by metis
qed

lemma ll_hash_resize_ok:
  assumes wf: "ll_hash_wf ht"
  shows "ll_hash_wf (ll_hash_resize ht n)" and "ll_hash_abs (ll_hash_resize ht n) = ll_hash_abs ht"
    and "nentries (ll_hash_resize ht n) = nentries ht"
proof -
  let ?nb = "ll_next_prime n" and ?es = "concat (buckets ht)"
  let ?arr = "foldl (rehash_entry ?nb) (replicate ?nb []) ?es"
  have ok: "table_ok (nbuckets ht) (buckets ht) (ll_hash_abs ht) (nentries ht)"
    and pos: "0 < nbuckets ht"
    using wf ll_is_prime_gt0 by (auto simp: ll_hash_wf_table)
  note cc = ll_hash_entries_spec(1,2) [OF wf]
  have len: "length ?es = nentries ht" using ok by (simp add: table_ok_def length_concat)
  have "table_ok ?nb ?arr (Map.empty ++ map_of ?es) (0 + length ?es)"
    by (rule table_ok_rehash [OF table_ok_empty]) (use cc in auto)
  moreover have "Map.empty ++ map_of ?es = ll_hash_abs ht" using cc(2) by (simp add: fun_eq_iff)
  ultimately have T: "table_ok ?nb ?arr (ll_hash_abs ht) (nentries ht)" using len by simp
  have e: "ll_hash_resize ht n = ht\<lparr>buckets := ?arr, nbuckets := ?nb\<rparr>"
    by (simp add: ll_hash_resize_def foldl_foldl_concat Let_def)
  show A: "ll_hash_abs (ll_hash_resize ht n) = ll_hash_abs ht"
    using T by (simp add: e table_ok_def ll_hash_abs_def [of "_\<lparr>buckets := _, nbuckets := _\<rparr>"] fun_eq_iff)
  show "ll_hash_wf (ll_hash_resize ht n)" unfolding ll_hash_wf_table A using T by (simp add: e)
  show "nentries (ll_hash_resize ht n) = nentries ht" by (simp add: e)
qed

lemma ll_hash_grow_ok:
  assumes "ll_hash_wf ht"
  shows "ll_hash_wf (ll_hash_maybe_grow ht)" "ll_hash_abs (ll_hash_maybe_grow ht) = ll_hash_abs ht"
    "nentries (ll_hash_maybe_grow ht) = nentries ht"
  using assms ll_hash_resize_ok by (auto simp: ll_hash_maybe_grow_def)

lemma chain_set_map_of:
  "map_of es k \<noteq> None \<Longrightarrow> map_of (chain_set es k v) k' = (if k' = k then Some v else map_of es k')"
  by (induction es) auto

lemma chain_set_keys [simp]: "map fst (chain_set es k v) = map fst es"
  by (induction es) auto

lemma chain_set_ok: "chain_ok nb i es \<Longrightarrow> chain_ok nb i (chain_set es k v)"
proof -
  assume "chain_ok nb i es"
  moreover have "fst ` set (chain_set es k v) = fst ` set es"
    using chain_set_keys by (metis list.set_map)
  ultimately show ?thesis unfolding chain_ok_def by (metis chain_set_keys image_iff)
qed

lemma chain_set_length [simp]: "length (chain_set es k v) = length es"
  using chain_set_keys by (metis length_map)

lemma chain_del_subset: "set (chain_del es k) \<subseteq> set es"
  by (induction es) auto

lemma chain_del_map_of:
  "distinct (map fst es) \<Longrightarrow> map_of (chain_del es k) k' = (if k' = k then None else map_of es k')"
proof (induction es)
  case (Cons e es)
  then show ?case by (cases "fst e = k") (auto simp: map_of_eq_None_iff [symmetric])
qed simp

lemma chain_del_ok: "chain_ok nb i es \<Longrightarrow> chain_ok nb i (chain_del es k)"
proof -
  assume "chain_ok nb i es"
  moreover have "distinct (map fst es) \<Longrightarrow> distinct (map fst (chain_del es k))"
    by (induction es) (use chain_del_subset in fastforce)+
  ultimately show ?thesis using chain_del_subset [of es k] by (auto simp: chain_ok_def)
qed

lemma chain_del_length: "map_of es k \<noteq> None \<Longrightarrow> Suc (length (chain_del es k)) = length es"
  by (induction es) (auto split: if_splits)

section \<open>The contract of the table\<close>

locale string_table =
  fixes tbl_wf :: "'t \<Rightarrow> bool"
    and tbl_abs :: "'t \<Rightarrow> string \<rightharpoonup> 'v option"
    and tbl_create :: "nat \<Rightarrow> 't"
    and tbl_insert :: "'t \<Rightarrow> string \<Rightarrow> 'v option \<Rightarrow> bool \<Rightarrow> ll_hash_status \<times> 't"
    and tbl_search :: "'t \<Rightarrow> string \<Rightarrow> 'v option"
    and tbl_contains :: "'t \<Rightarrow> string \<Rightarrow> bool"
    and tbl_remove :: "'t \<Rightarrow> string \<Rightarrow> 'v option \<times> 't"
    and tbl_count :: "'t \<Rightarrow> nat"
  assumes create_wf: "tbl_wf (tbl_create n)"
    and create_abs: "tbl_abs (tbl_create n) = Map.empty"
    and insert_wf: "tbl_wf t \<Longrightarrow> tbl_wf (snd (tbl_insert t k v u))"
    and insert_abs: "tbl_wf t \<Longrightarrow> tbl_abs (snd (tbl_insert t k v u)) =
      (if tbl_abs t k = None \<or> u then (tbl_abs t)(k \<mapsto> v) else tbl_abs t)"
    and insert_status: "tbl_wf t \<Longrightarrow> fst (tbl_insert t k v u) =
      (if tbl_abs t k = None then LL_HASH_INSERTED
       else if u then LL_HASH_UPDATED else LL_HASH_EXISTS)"
    and search_abs: "tbl_wf t \<Longrightarrow> tbl_search t k = Option.bind (tbl_abs t k) (\<lambda>v. v)"
    and contains_abs: "tbl_wf t \<Longrightarrow> tbl_contains t k \<longleftrightarrow> tbl_abs t k \<noteq> None"
    and remove_wf: "tbl_wf t \<Longrightarrow> tbl_wf (snd (tbl_remove t k))"
    and remove_abs: "tbl_wf t \<Longrightarrow> tbl_abs (snd (tbl_remove t k)) = (tbl_abs t)(k := None)"
    and remove_value: "tbl_wf t \<Longrightarrow> fst (tbl_remove t k) = tbl_search t k"
    and finite_abs: "tbl_wf t \<Longrightarrow> finite (dom (tbl_abs t))"
    and count_abs: "tbl_wf t \<Longrightarrow> tbl_count t = card (dom (tbl_abs t))"
begin

lemma search_create: "tbl_search (tbl_create n) k = None"
  by (simp add: search_abs create_wf create_abs)

lemma create_empty: "\<not> tbl_contains (tbl_create n) k" "tbl_count (tbl_create n) = 0"
  by (simp_all add: contains_abs count_abs create_wf create_abs)

lemma search_insert_new:
  "tbl_wf t \<Longrightarrow> \<not> tbl_contains t k \<Longrightarrow>
   tbl_search (snd (tbl_insert t k v u)) k' = (if k' = k then v else tbl_search t k')"
  by (simp add: search_abs insert_wf insert_abs contains_abs)

lemma search_insert_update:
  "tbl_wf t \<Longrightarrow>
   tbl_search (snd (tbl_insert t k v True)) k' = (if k' = k then v else tbl_search t k')"
  by (simp add: search_abs insert_wf insert_abs)

lemma search_insert_exists:
  "tbl_wf t \<Longrightarrow> tbl_contains t k \<Longrightarrow>
   tbl_search (snd (tbl_insert t k v False)) k' = tbl_search t k'"
  by (auto simp: search_abs insert_wf insert_abs contains_abs)

lemma search_remove:
  "tbl_wf t \<Longrightarrow>
   tbl_search (snd (tbl_remove t k)) k' = (if k' = k then None else tbl_search t k')"
  by (simp add: search_abs remove_wf remove_abs)

lemma search_Some_contains: "tbl_wf t \<Longrightarrow> tbl_search t k = Some v \<Longrightarrow> tbl_contains t k"
  by (auto simp: search_abs contains_abs bind_eq_Some_conv)

lemma insert_new_status:
  "tbl_wf t \<Longrightarrow> fst (tbl_insert t k v u) = LL_HASH_INSERTED \<longleftrightarrow> \<not> tbl_contains t k"
  by (simp add: insert_status contains_abs)

lemma count_insert:
  "tbl_wf t \<Longrightarrow> tbl_count (snd (tbl_insert t k v u)) =
     (if tbl_contains t k then tbl_count t else tbl_count t + 1)"
  by (auto simp: count_abs insert_wf insert_abs contains_abs finite_abs card_insert_if
      domIff intro!: arg_cong [where f = card])

lemma count_remove:
  "tbl_wf t \<Longrightarrow> tbl_count (snd (tbl_remove t k)) =
     (if tbl_contains t k then tbl_count t - 1 else tbl_count t)"
  by (auto simp: count_abs remove_wf remove_abs contains_abs finite_abs domIff
      intro!: arg_cong [where f = card])

lemma insert_remove_search:
  "tbl_wf t \<Longrightarrow> \<not> tbl_contains t k \<Longrightarrow>
   tbl_abs (snd (tbl_remove (snd (tbl_insert t k v u)) k)) = tbl_abs t"
  by (auto simp: remove_abs insert_wf insert_abs contains_abs)

end

lemma ll_hash_count_card:
  assumes wf: "ll_hash_wf ht"
  shows "finite (dom (ll_hash_abs ht))" and "nentries ht = card (dom (ll_hash_abs ht))"
proof -
  have ok: "table_ok (nbuckets ht) (buckets ht) (ll_hash_abs ht) (nentries ht)"
    and pos: "0 < nbuckets ht" using wf ll_is_prime_gt0 by (auto simp: ll_hash_wf_table)
  note cc = ll_hash_entries_spec(1,2) [OF wf]
  then have d: "dom (ll_hash_abs ht) = fst ` set (concat (buckets ht))"
    by (metis dom_map_of_conv_image_fst ext)
  show "finite (dom (ll_hash_abs ht))" unfolding d by blast
  have "card (fst ` set (concat (buckets ht))) = length (concat (buckets ht))"
    using distinct_card [OF cc(1)] by simp
  then show "nentries ht = card (dom (ll_hash_abs ht))"
    unfolding d using ok by (simp add: table_ok_def length_concat)
qed

lemma ll_hash_set_ok:
  assumes wf: "ll_hash_wf ht" and k: "ll_hash_abs ht k \<noteq> None"
    and idx: "idx = ll_bucket_index k (nbuckets ht)"
    and ht': "ht' = ht\<lparr>buckets := (buckets ht)[idx := chain_set (buckets ht ! idx) k v]\<rparr>"
  shows "ll_hash_wf ht' \<and> ll_hash_abs ht' = (ll_hash_abs ht)(k \<mapsto> v)"
proof -
  have ok: "table_ok (nbuckets ht) (buckets ht) (ll_hash_abs ht) (nentries ht)"
    and pos: "0 < nbuckets ht" and pr: "ll_is_prime (nbuckets ht)"
    using wf ll_is_prime_gt0 by (auto simp: ll_hash_wf_table)
  have ne: "map_of (buckets ht ! idx) k \<noteq> None" using k by (simp add: ll_hash_abs_def idx)
  have "table_ok (nbuckets ht) (buckets ht') ((ll_hash_abs ht)(k := Some v)) (nentries ht)"
    using table_ok_replace [OF ok pos idx chain_set_ok [OF table_ok_chain(1) [OF ok pos], of k k v,
        folded idx], of "nentries ht"]
    by (simp add: ht' chain_set_map_of [OF ne])
  then show ?thesis using pr
    by (auto simp: ll_hash_wf_table ht' table_ok_def ll_hash_abs_def fun_eq_iff)
qed

lemma ll_hash_add_ok:
  assumes wf: "ll_hash_wf ht" and k: "ll_hash_abs ht k = None"
    and idx: "idx = ll_bucket_index k (nbuckets ht)"
    and ht': "ht' = ht\<lparr>buckets := (buckets ht)[idx := (k, v) # buckets ht ! idx],
                        nentries := nentries ht + 1\<rparr>"
  shows "ll_hash_wf ht' \<and> ll_hash_abs ht' = (ll_hash_abs ht)(k \<mapsto> v)"
proof -
  have ok: "table_ok (nbuckets ht) (buckets ht) (ll_hash_abs ht) (nentries ht)"
    and pos: "0 < nbuckets ht" and pr: "ll_is_prime (nbuckets ht)"
    using wf ll_is_prime_gt0 by (auto simp: ll_hash_wf_table)
  have "table_ok (nbuckets ht) (buckets ht') ((ll_hash_abs ht)(k \<mapsto> v)) (nentries ht + 1)"
    using table_ok_add [OF ok pos k idx, of v] by (simp add: ht')
  then show ?thesis using pr
    by (auto simp: ll_hash_wf_table ht' table_ok_def ll_hash_abs_def fun_eq_iff)
qed

lemma ll_hash_del_ok:
  assumes wf: "ll_hash_wf ht" and k: "ll_hash_abs ht k \<noteq> None"
    and idx: "idx = ll_bucket_index k (nbuckets ht)"
    and ht': "ht' = ht\<lparr>buckets := (buckets ht)[idx := chain_del (buckets ht ! idx) k],
                        nentries := nentries ht - 1\<rparr>"
  shows "ll_hash_wf ht' \<and> ll_hash_abs ht' = (ll_hash_abs ht)(k := None)"
proof -
  have ok: "table_ok (nbuckets ht) (buckets ht) (ll_hash_abs ht) (nentries ht)"
    and pos: "0 < nbuckets ht" and pr: "ll_is_prime (nbuckets ht)"
    using wf ll_is_prime_gt0 by (auto simp: ll_hash_wf_table)
  have c: "chain_ok (nbuckets ht) idx (buckets ht ! idx)"
    using table_ok_chain(1) [OF ok pos] idx by simp
  then have d: "distinct (map fst (buckets ht ! idx))" by (simp add: chain_ok_def)
  have ne: "map_of (buckets ht ! idx) k \<noteq> None" using k by (simp add: ll_hash_abs_def idx)
  have "0 < nentries ht" using ll_hash_count_card [OF wf] k by (auto simp: card_gt_0_iff)
  then have "table_ok (nbuckets ht) (buckets ht') ((ll_hash_abs ht)(k := None)) (nentries ht - 1)"
    using table_ok_replace [OF ok pos idx chain_del_ok [OF c, of k], of "nentries ht - 1"]
      chain_del_length [OF ne]
    by (simp add: ht' chain_del_map_of [OF d])
  then show ?thesis using pr
    by (auto simp: ll_hash_wf_table ht' table_ok_def ll_hash_abs_def fun_eq_iff)
qed

lemma ll_hash_insert_ok:
  assumes "ll_hash_wf ht"
  shows "ll_hash_wf (snd (ll_hash_insert ht k v u)) \<and>
    ll_hash_abs (snd (ll_hash_insert ht k v u)) =
      (if ll_hash_abs ht k = None \<or> u then (ll_hash_abs ht)(k \<mapsto> v) else ll_hash_abs ht) \<and>
    fst (ll_hash_insert ht k v u) =
      (if ll_hash_abs ht k = None then LL_HASH_INSERTED
       else if u then LL_HASH_UPDATED else LL_HASH_EXISTS)"
proof -
  define g where "g = ll_hash_maybe_grow ht"
  have g: "ll_hash_wf g" "ll_hash_abs g = ll_hash_abs ht"
    using ll_hash_grow_ok [OF assms] by (simp_all add: g_def)
  have m: "map_of (buckets g ! ll_bucket_index k (nbuckets g)) k = ll_hash_abs ht k"
    unfolding g(2) [symmetric] by (simp add: ll_hash_abs_def)
  show ?thesis
  proof (cases "ll_hash_abs ht k")
    case None
    with ll_hash_add_ok [OF g(1) _ refl refl, of k v] g(2) show ?thesis
      by (simp add: ll_hash_insert_def g_def [symmetric] Let_def m)
  next
    case (Some w)
    with ll_hash_set_ok [OF g(1) _ refl refl, of k v] g show ?thesis
      by (simp add: ll_hash_insert_def g_def [symmetric] Let_def m)
  qed
qed

lemma ll_hash_remove_ok:
  assumes wf: "ll_hash_wf ht"
  shows "ll_hash_wf (snd (ll_hash_remove ht k)) \<and>
    ll_hash_abs (snd (ll_hash_remove ht k)) = (ll_hash_abs ht)(k := None) \<and>
    fst (ll_hash_remove ht k) = ll_hash_search ht k"
proof (cases "ll_hash_abs ht k")
  case None
  then show ?thesis using wf
    by (auto simp: ll_hash_remove_def ll_hash_search_def Let_def ll_hash_abs_def fun_eq_iff)
next
  case (Some w)
  then have m: "map_of (buckets ht ! ll_bucket_index k (nbuckets ht)) k = Some w"
    by (simp add: ll_hash_abs_def)
  show ?thesis using ll_hash_del_ok [OF wf _ refl refl, of k] Some
    by (simp add: ll_hash_remove_def ll_hash_search_def Let_def m)
qed

lemma ll_hash_init_ok: "ll_hash_wf (ll_hash_init n)" "ll_hash_abs (ll_hash_init n) = Map.empty"
  by (auto simp: ll_hash_wf_def ll_hash_init_def ll_hash_abs_def chain_ok_def Let_def fun_eq_iff)

interpretation ht: string_table ll_hash_wf ll_hash_abs ll_hash_init ll_hash_insert
  ll_hash_search ll_hash_contains ll_hash_remove ll_hash_count
  by unfold_locales
    (simp_all add: ll_hash_init_ok ll_hash_insert_ok ll_hash_remove_ok ll_hash_count_card
      ll_hash_count_def ll_hash_search_def ll_hash_contains_def ll_hash_abs_def split: option.split)

section \<open>Iteration\<close>

text \<open>What an iterator has still to return: the rest of its chain, then the later buckets.\<close>

definition ll_hash_iter_rest :: "'v ll_hash \<Rightarrow> 'v ll_hash_iter \<Rightarrow> 'v ll_hash_entry list" where
  "ll_hash_iter_rest ht it = tl (it_entry it) @ concat (drop (it_bucket it) (buckets ht))"

lemma ll_hash_iter_skip_spec:
  assumes "nbuckets ht = length (buckets ht)"
  shows "case es @ concat (drop b (buckets ht)) of
      [] \<Rightarrow> fst (ll_hash_iter_skip ht b es) = None
    | e # r \<Rightarrow> fst (ll_hash_iter_skip ht b es) = Some e \<and>
        ll_hash_iter_rest ht (snd (ll_hash_iter_skip ht b es)) = r"
  using assms
proof (induction ht b es rule: ll_hash_iter_skip.induct)
  case (1 ht b es)
  show ?case
  proof (cases es)
    case (Cons e r)
    then show ?thesis by (simp add: ll_hash_iter_skip.simps [of ht b "e # r"] ll_hash_iter_rest_def)
  next
    case Nil
    show ?thesis
    proof (cases "nbuckets ht \<le> b")
      case True
      then show ?thesis using Nil "1.prems" by (simp add: ll_hash_iter_skip.simps [of ht b "[]"])
    next
      case False
      then have d: "drop b (buckets ht) = buckets ht ! b # drop (b + 1) (buckets ht)"
        using "1.prems" by (simp add: Cons_nth_drop_Suc)
      have e: "ll_hash_iter_skip ht b es = ll_hash_iter_skip ht (b + 1) (buckets ht ! b)"
        using Nil False by (simp add: ll_hash_iter_skip.simps [of ht b "[]"])
      show ?thesis using "1.IH" [OF Nil False "1.prems"] unfolding e d by (simp add: Nil)
    qed
  qed
qed

lemma ll_hash_iter_init_rest: "ll_hash_iter_rest ht (ll_hash_iter_init ht) = concat (buckets ht)"
  by (simp add: ll_hash_iter_rest_def ll_hash_iter_init_def)

lemma ll_hash_for_each_fold:
  "ll_hash_wf ht \<Longrightarrow> ll_hash_for_each ht fn s = fold fn (concat (buckets ht)) s"
  by (simp add: ll_hash_for_each_def ll_hash_wf_def fold_fold_concat)

section \<open>Properties\<close>





text \<open>
  C26. Removing a key returns the stored value and leaves every other key as it
  was; removing a key that was just inserted restores the map.
\<close>

theorem hash_remove_refines:
  assumes "ll_hash_wf t"
  shows "let (v, t') = ll_hash_remove t k in
    ll_hash_wf t' \<and> v = ll_hash_search t k \<and> \<not> ll_hash_contains t' k \<and>
    (\<forall>k'. k' \<noteq> k \<longrightarrow> ll_hash_search t' k' = ll_hash_search t k') \<and>
    (\<not> ll_hash_contains t k \<longrightarrow>
      ll_hash_abs (snd (ll_hash_remove (snd (ll_hash_insert t k w u)) k)) = ll_hash_abs t)"
  using assms
  by (auto simp: split_beta ht.remove_wf ht.remove_value ht.contains_abs ht.remove_abs
      ht.search_remove ht.insert_remove_search)

theorem hash_remove_refines_witness:
  "let t = snd (ll_hash_insert (ll_hash_init 2) ''17'' (Some (5::nat)) False);
       (v, t') = ll_hash_remove t ''17'' in v = Some 5 \<and> \<not> ll_hash_contains t' ''17''"
  using hash_remove_refines [OF ht.insert_wf [OF ht.create_wf [of 2]],
      where k = "''17''" and k1 = "''17''" and v1 = "Some (5::nat)" and u1 = False]
  by (auto simp: split_beta Let_def ht.search_insert_new ht.create_wf ht.contains_abs ht.create_abs)

text \<open>
  C27. The iterator returns every entry of the table once, in bucket order, and
  then the null pointer: from \<open>ll_hash_iter_init\<close> on, what is still to come is
  the list of all entries, each call of \<open>ll_hash_iter_next\<close> returns its first
  and leaves its tail, and that list is duplicate free and is the map.
\<close>

theorem hash_iteration_complete:
  assumes "ll_hash_wf t"
  shows "ll_hash_iter_rest t (ll_hash_iter_init t) = concat (buckets t) \<and>
    distinct (map fst (concat (buckets t))) \<and>
    ((k, v) \<in> set (concat (buckets t)) \<longleftrightarrow> ll_hash_abs t k = Some v) \<and>
    (case ll_hash_iter_rest t it of
       [] \<Rightarrow> fst (ll_hash_iter_next t it) = None
     | e # r \<Rightarrow> fst (ll_hash_iter_next t it) = Some e \<and>
         ll_hash_iter_rest t (snd (ll_hash_iter_next t it)) = r)"
proof -
  have "nbuckets t = length (buckets t)" using assms by (simp add: ll_hash_wf_def)
  note skip = ll_hash_iter_skip_spec [OF this, of "it_bucket it" "tl (it_entry it)"]
  show ?thesis using skip ll_hash_entries_spec [OF assms]
    unfolding ll_hash_iter_next_def ll_hash_iter_rest_def [of t it]
    by (simp add: ll_hash_iter_init_rest)
qed

theorem hash_iteration_complete_witness:
  "let t = (ll_hash_init 2 :: nat ll_hash) in
   fst (ll_hash_iter_next t (ll_hash_iter_init t)) = None"
  using hash_iteration_complete [OF ht.create_wf, of 2 "''a''" None
      "ll_hash_iter_init (ll_hash_init 2 :: nat ll_hash)"]
  by (simp add: Let_def ll_hash_init_def ll_hash_iter_init_rest)

end
