(* ===== verification/Ll_List.thy ===== *)
theory Ll_List
  imports Prelude
begin

text \<open>
  The intrusive doubly linked list of \<open>src/base/lib/ll.list.c\<close>, at the level of
  pointers: the \<open>next\<close> and \<open>prev\<close> fields of all entries are one store
  (\<open>links\<close>) that every list of the program shares, and a list head holds
  \<open>head\<close>, \<open>tail\<close> and \<open>count\<close>. \<open>lists_rep\<close> says which entries each list holds, in
  order. The locale \<open>list_store\<close> is the contract the daemons rely on, for
  several lists over one store of links, since jobs move between lists.
\<close>

section \<open>Links and list heads\<close>

type_synonym entry = nat

record links =
  lnext :: "entry \<Rightarrow> entry option"
  lprev :: "entry \<Rightarrow> entry option"

record ll_list =
  l_head :: "entry option"
  l_tail :: "entry option"
  l_count :: int

definition set_next :: "entry \<Rightarrow> entry option \<Rightarrow> links \<Rightarrow> links" where
  "set_next e v k = k\<lparr>lnext := (lnext k)(e := v)\<rparr>"

definition set_prev :: "entry \<Rightarrow> entry option \<Rightarrow> links \<Rightarrow> links" where
  "set_prev e v k = k\<lparr>lprev := (lprev k)(e := v)\<rparr>"

section \<open>Operations\<close>

definition ll_list_init :: "ll_list" where
  "ll_list_init = \<lparr>l_head = None, l_tail = None, l_count = 0\<rparr>"

definition ll_list_append :: "ll_list \<Rightarrow> entry \<Rightarrow> links \<Rightarrow> ll_list \<times> links" where
  "ll_list_append lst ent k =
     (let k1 = set_prev ent (l_tail lst) (set_next ent None k)
      in case l_tail lst of
           Some t \<Rightarrow> (lst\<lparr>l_tail := Some ent, l_count := l_count lst + 1\<rparr>, set_next t (Some ent) k1)
         | None \<Rightarrow> (lst\<lparr>l_head := Some ent, l_tail := Some ent, l_count := l_count lst + 1\<rparr>, k1))"

definition ll_list_remove :: "ll_list \<Rightarrow> entry option \<Rightarrow> links \<Rightarrow> ll_list \<times> links" where
  "ll_list_remove lst ento k =
     (case ento of
        None \<Rightarrow> (lst, k)
      | Some ent \<Rightarrow>
          (let (lst1, k1) =
             (case lprev k ent of
                Some p \<Rightarrow> (lst, set_next p (lnext k ent) k)
              | None \<Rightarrow> (lst\<lparr>l_head := lnext k ent\<rparr>, k));
               (lst2, k2) =
             (case lnext k1 ent of
                Some n \<Rightarrow> (lst1, set_prev n (lprev k1 ent) k1)
              | None \<Rightarrow> (lst1\<lparr>l_tail := lprev k1 ent\<rparr>, k1))
           in (lst2\<lparr>l_count := l_count lst2 - 1\<rparr>, set_prev ent None (set_next ent None k2))))"

definition ll_list_is_empty :: "ll_list \<Rightarrow> bool" where
  "ll_list_is_empty lst = (l_head lst = None)"

definition ll_list_count :: "ll_list \<Rightarrow> int" where
  "ll_list_count lst = l_count lst"

definition ll_list_push :: "ll_list \<Rightarrow> entry \<Rightarrow> links \<Rightarrow> ll_list \<times> links" where
  "ll_list_push lst ent k =
     (let k1 = set_next ent (l_head lst) (set_prev ent None k)
      in case l_head lst of
           Some h \<Rightarrow> (lst\<lparr>l_head := Some ent, l_count := l_count lst + 1\<rparr>, set_prev h (Some ent) k1)
         | None \<Rightarrow> (lst\<lparr>l_tail := Some ent, l_head := Some ent, l_count := l_count lst + 1\<rparr>, k1))"

definition ll_list_pop :: "ll_list \<Rightarrow> links \<Rightarrow> entry option \<times> ll_list \<times> links" where
  "ll_list_pop lst k =
     (case l_head lst of
        None \<Rightarrow> (None, lst, k)
      | Some ent \<Rightarrow>
          (let lst1 = lst\<lparr>l_head := lnext k ent\<rparr>;
               (lst2, k1) =
                 (case l_head lst1 of
                    Some h \<Rightarrow> (lst1, set_prev h None k)
                  | None \<Rightarrow> (lst1\<lparr>l_tail := None\<rparr>, k))
           in (Some ent, lst2\<lparr>l_count := l_count lst2 - 1\<rparr>,
               set_prev ent None (set_next ent None k1))))"

definition ll_list_dequeue :: "ll_list \<Rightarrow> links \<Rightarrow> entry option \<times> ll_list \<times> links" where
  "ll_list_dequeue lst k = ll_list_pop lst k"

text \<open>
  The first \<open>n\<close> entries from \<open>e\<close>, as the sort copies them to its array;
  \<open>None\<close> when the chain is shorter, where the C code would follow a null
  pointer.
\<close>

fun ll_list_walk :: "links \<Rightarrow> nat \<Rightarrow> entry option \<Rightarrow> entry list option" where
  "ll_list_walk k 0 e = Some []"
| "ll_list_walk k (Suc n) None = None"
| "ll_list_walk k (Suc n) (Some e) = map_option (Cons e) (ll_list_walk k n (lnext k e))"

definition ll_list_rebuild :: "entry list \<Rightarrow> links \<Rightarrow> ll_list \<times> links" where
  "ll_list_rebuild arr k = foldl (\<lambda>(l, k). \<lambda>e. ll_list_append l e k) (ll_list_init, k) arr"

text \<open>
  The library sort: a stable sort of the array by the comparison function, as
  the merge sort of the C library does it. What the program relies on is the
  contract \<open>array_sort\<close> below.
\<close>

fun qs_insert :: "('a \<Rightarrow> 'a \<Rightarrow> int) \<Rightarrow> 'a \<Rightarrow> 'a list \<Rightarrow> 'a list" where
  "qs_insert cmp x [] = [x]"
| "qs_insert cmp x (y # ys) = (if cmp x y \<le> 0 then x # y # ys else y # qs_insert cmp x ys)"

definition qsort :: "('a \<Rightarrow> 'a \<Rightarrow> int) \<Rightarrow> 'a list \<Rightarrow> 'a list" where
  "qsort cmp xs = foldr (qs_insert cmp) xs []"

definition ll_list_sort ::
  "(entry \<Rightarrow> entry \<Rightarrow> int) \<Rightarrow> ll_list \<Rightarrow> links \<Rightarrow> (ll_list \<times> links) option" where
  "ll_list_sort cmp lst k =
     (if l_count lst < 2 then Some (lst, k)
      else case ll_list_walk k (nat (l_count lst)) (l_head lst) of
          None \<Rightarrow> None
        | Some arr \<Rightarrow> Some (ll_list_rebuild (qsort cmp arr) k))"

section \<open>Chains of links\<close>

text \<open>
  \<open>seg k p xs n\<close>: the entries \<open>xs\<close> are linked in this order, the first one's
  \<open>prev\<close> is \<open>p\<close> and the last one's \<open>next\<close> is \<open>n\<close>.
\<close>

fun seg :: "links \<Rightarrow> entry option \<Rightarrow> entry list \<Rightarrow> entry option \<Rightarrow> bool" where
  "seg k p [] n = True"
| "seg k p (x # xs) n =
     (lprev k x = p \<and> lnext k x = (if xs = [] then n else Some (hd xs)) \<and> seg k (Some x) xs n)"

definition first_of :: "entry list \<Rightarrow> entry option \<Rightarrow> entry option" where
  "first_of xs n = (if xs = [] then n else Some (hd xs))"

definition last_of :: "entry list \<Rightarrow> entry option \<Rightarrow> entry option" where
  "last_of xs p = (if xs = [] then p else Some (last xs))"

definition list_rep :: "links \<Rightarrow> ll_list \<Rightarrow> entry list \<Rightarrow> bool" where
  "list_rep k lst xs \<longleftrightarrow>
     distinct xs \<and> l_head lst = first_of xs None \<and> l_tail lst = last_of xs None \<and>
     l_count lst = int (length xs) \<and> seg k None xs None"

lemma seg_append:
  "seg k p (xs @ ys) n \<longleftrightarrow> seg k p xs (first_of ys n) \<and> seg k (last_of xs p) ys n"
  by (induction xs arbitrary: p) (auto simp: first_of_def last_of_def)

lemma seg_frame:
  "(\<And>x. x \<in> set xs \<Longrightarrow> lnext k' x = lnext k x \<and> lprev k' x = lprev k x) \<Longrightarrow>
   seg k' p xs n = seg k p xs n"
  by (induction xs arbitrary: p) auto

lemma seg_set_other [simp]:
  "e \<notin> set xs \<Longrightarrow> seg (set_next e v k) p xs n = seg k p xs n"
  "e \<notin> set xs \<Longrightarrow> seg (set_prev e v k) p xs n = seg k p xs n"
  by (auto intro!: seg_frame simp: set_next_def set_prev_def)

lemma link_reads [simp]:
  "lnext (set_next e v k) x = (if x = e then v else lnext k x)"
  "lprev (set_next e v k) x = lprev k x"
  "lnext (set_prev e v k) x = lnext k x"
  "lprev (set_prev e v k) x = (if x = e then v else lprev k x)"
  by (auto simp: set_next_def set_prev_def)

text \<open>Redirecting the last \<open>next\<close>, or the first \<open>prev\<close>, of a chain.\<close>

lemma seg_relink_last:
  assumes "seg k p xs n" "distinct xs" "xs \<noteq> []"
  shows "seg (set_next (last xs) n' k) p xs n'"
  using assms
proof (induction xs arbitrary: p)
  case (Cons x xs)
  then show ?case by (cases xs) auto
qed simp

lemma seg_relink_first:
  assumes "seg k p xs n" "distinct xs" "xs \<noteq> []"
  shows "seg (set_prev (hd xs) p' k) p' xs n"
  using assms by (cases xs) auto

lemma seg_ends:
  "seg k p (xs @ e # ys) n \<Longrightarrow> lprev k e = last_of xs p \<and> lnext k e = first_of ys n"
  by (simp add: seg_append first_of_def)

lemma list_rep_frame:
  assumes "list_rep k lst xs"
    and "\<And>x. x \<in> set xs \<Longrightarrow> lnext k' x = lnext k x \<and> lprev k' x = lprev k x"
  shows "list_rep k' lst xs"
  using assms seg_frame [of xs k' k] by (simp add: list_rep_def)

text \<open>The operations touch only the entries of their own list.\<close>

definition links_same :: "entry set \<Rightarrow> links \<Rightarrow> links \<Rightarrow> bool" where
  "links_same A k k' \<longleftrightarrow> (\<forall>x. x \<notin> A \<longrightarrow> lnext k' x = lnext k x \<and> lprev k' x = lprev k x)"

lemma list_rep_init: "list_rep k ll_list_init []"
  by (simp add: list_rep_def ll_list_init_def first_of_def last_of_def)

lemma ll_list_append_rep:
  assumes rep: "list_rep k lst xs" and new: "ent \<notin> set xs"
    and r: "ll_list_append lst ent k = (lst', k')"
  shows "list_rep k' lst' (xs @ [ent])" and "links_same (insert ent (set xs)) k k'"
proof -
  have R: "distinct xs" "l_head lst = first_of xs None" "l_tail lst = last_of xs None"
    "l_count lst = int (length xs)" "seg k None xs None" using rep by (auto simp: list_rep_def)
  show "list_rep k' lst' (xs @ [ent])"
  proof (cases "xs = []")
    case True
    then show ?thesis using r R by (auto simp: ll_list_append_def list_rep_def first_of_def last_of_def)
  next
    case False
    let ?k = "set_prev ent (Some (last xs)) (set_next ent None k)"
    have e: "lst' = lst\<lparr>l_tail := Some ent, l_count := l_count lst + 1\<rparr>"
      "k' = set_next (last xs) (Some ent) ?k"
      using r R(3) False by (auto simp: ll_list_append_def last_of_def)
    have "seg ?k None xs None" using R(5) new by simp
    then have "seg k' None xs (Some ent)" unfolding e by (rule seg_relink_last [OF _ R(1) False])
    moreover have "seg k' (Some (last xs)) [ent] None" using new False by (auto simp: e)
    ultimately have "seg k' None (xs @ [ent]) None"
      using False by (simp add: seg_append first_of_def last_of_def)
    then show ?thesis using R False new by (simp add: list_rep_def e first_of_def last_of_def)
  qed
  show "links_same (insert ent (set xs)) k k'"
    using r R(3) by (auto simp: ll_list_append_def links_same_def last_of_def split: if_splits)
qed

lemma ll_list_push_rep:
  assumes rep: "list_rep k lst xs" and new: "ent \<notin> set xs"
    and r: "ll_list_push lst ent k = (lst', k')"
  shows "list_rep k' lst' (ent # xs)" and "links_same (insert ent (set xs)) k k'"
proof -
  have R: "distinct xs" "l_head lst = first_of xs None" "l_tail lst = last_of xs None"
    "l_count lst = int (length xs)" "seg k None xs None" using rep by (auto simp: list_rep_def)
  show "list_rep k' lst' (ent # xs)"
  proof (cases "xs = []")
    case True
    then show ?thesis using r R by (auto simp: ll_list_push_def list_rep_def first_of_def last_of_def)
  next
    case False
    let ?k = "set_next ent (Some (hd xs)) (set_prev ent None k)"
    have e: "lst' = lst\<lparr>l_head := Some ent, l_count := l_count lst + 1\<rparr>"
      "k' = set_prev (hd xs) (Some ent) ?k"
      using r R(2) False by (auto simp: ll_list_push_def first_of_def)
    have "seg ?k None xs None" using R(5) new by simp
    then have "seg k' (Some ent) xs None" unfolding e by (rule seg_relink_first [OF _ R(1) False])
    moreover have "hd xs \<noteq> ent" using new False by (metis hd_in_set)
    ultimately have "seg k' None (ent # xs) None" using False by (simp add: e)
    then show ?thesis using R False new by (simp add: list_rep_def e first_of_def last_of_def)
  qed
  show "links_same (insert ent (set xs)) k k'"
    using r R(2) by (auto simp: ll_list_push_def links_same_def first_of_def split: if_splits)
qed

lemma ll_list_remove_rep_split:
  assumes rep: "list_rep k lst (xs @ ent # ys)"
    and r: "ll_list_remove lst (Some ent) k = (lst', k')"
  shows "list_rep k' lst' (xs @ ys)" and "links_same (set (xs @ ent # ys)) k k'"
proof -
  have R: "distinct (xs @ ent # ys)" "l_head lst = first_of (xs @ ent # ys) None"
    "l_tail lst = last_of (xs @ ent # ys) None" "l_count lst = int (length (xs @ ent # ys))"
    "seg k None (xs @ ent # ys) None" using rep by (auto simp: list_rep_def)
  have pn: "lprev k ent = last_of xs None" "lnext k ent = first_of ys None"
    using seg_ends [OF R(5)] by auto
  have sx: "seg k None xs (Some ent)" and sy: "seg k (Some ent) ys None"
    using R(5) by (auto simp: seg_append first_of_def)
  let ?k1 = "if xs = [] then k else set_next (last xs) (first_of ys None) k"
  let ?k2 = "if ys = [] then ?k1 else set_prev (hd ys) (last_of xs None) ?k1"
  have ne: "xs \<noteq> [] \<Longrightarrow> last xs \<noteq> ent" "ys \<noteq> [] \<Longrightarrow> hd ys \<noteq> ent"
    "xs \<noteq> [] \<Longrightarrow> last xs \<notin> set ys" "ys \<noteq> [] \<Longrightarrow> hd ys \<notin> set xs"
    using R(1) by (auto dest: last_in_set hd_in_set)
  have e: "k' = set_prev ent None (set_next ent None ?k2)"
    "lst' = lst\<lparr>l_head := first_of (xs @ ys) None, l_tail := last_of (xs @ ys) None,
                l_count := l_count lst - 1\<rparr>"
    using r R(2,3) pn ne(1,2)
    by (auto simp: ll_list_remove_def first_of_def last_of_def Let_def split: if_splits)
  have "seg ?k1 None xs (first_of ys None)"
    using sx R(1) by (auto intro: seg_relink_last)
  then have x: "seg k' None xs (first_of ys None)"
    unfolding e using R(1) ne(4) by auto
  have "seg ?k1 (Some ent) ys None" using sy ne(3) by auto
  then have "seg ?k2 (last_of xs None) ys None"
    using R(1) by (auto intro: seg_relink_first)
  then have y: "seg k' (last_of xs None) ys None" unfolding e using R(1) by auto
  show "list_rep k' lst' (xs @ ys)"
    using x y R by (simp add: list_rep_def seg_append e)
  show "links_same (set (xs @ ent # ys)) k k'"
    unfolding e links_same_def using ne by (auto dest: last_in_set hd_in_set)
qed

lemma ll_list_remove_rep:
  assumes rep: "list_rep k lst xs" and mem: "ent \<in> set xs"
    and r: "ll_list_remove lst (Some ent) k = (lst', k')"
  shows "list_rep k' lst' (remove1 ent xs)" and "links_same (set xs) k k'"
proof -
  obtain ys zs where s: "xs = ys @ ent # zs" "ent \<notin> set ys" using mem split_list_first by metis
  have "remove1 ent xs = ys @ zs" using s by (simp add: remove1_append)
  then show "list_rep k' lst' (remove1 ent xs)" "links_same (set xs) k k'"
    using ll_list_remove_rep_split [of k lst ys ent zs] rep r s(1) by simp_all
qed

text \<open>Popping is removing the head.\<close>

lemma ll_list_pop_remove:
  assumes "list_rep k lst (x # xs)"
  shows "ll_list_pop lst k = (Some x, ll_list_remove lst (Some x) k)"
proof -
  have "l_head lst = Some x" "lprev k x = None" "l_tail lst = last_of (x # xs) None"
    "lnext k x = first_of xs None" "xs \<noteq> [] \<Longrightarrow> hd xs \<noteq> x"
    using assms by (auto simp: list_rep_def first_of_def)
  then show ?thesis
    by (auto simp: ll_list_pop_def ll_list_remove_def Let_def first_of_def split: option.splits)
qed

lemma ll_list_walk_seg:
  "seg k p xs n \<Longrightarrow> ll_list_walk k (length xs) (first_of xs n) = Some xs"
proof (induction xs arbitrary: p)
  case (Cons x xs)
  then show ?case by (cases xs) (auto simp: first_of_def)
qed simp

lemma ll_list_rebuild_rep:
  assumes "distinct xs"
  shows "list_rep (snd (ll_list_rebuild xs k)) (fst (ll_list_rebuild xs k)) xs \<and>
    links_same (set xs) k (snd (ll_list_rebuild xs k))"
  using assms
proof (induction xs rule: rev_induct)
  case Nil
  then show ?case by (simp add: ll_list_rebuild_def list_rep_init links_same_def)
next
  case (snoc x xs)
  obtain l1 k1 where b: "ll_list_rebuild xs k = (l1, k1)" by fastforce
  obtain l2 k2 where a: "ll_list_append l1 x k1 = (l2, k2)" by fastforce
  have c: "ll_list_rebuild (xs @ [x]) k = (l2, k2)"
    using a b by (simp add: ll_list_rebuild_def)
  show ?case using snoc b c ll_list_append_rep [OF _ _ a, of xs]
    by (auto simp: links_same_def)
qed

section \<open>The library sort\<close>

locale array_sort =
  fixes sort_by :: "('a \<Rightarrow> 'a \<Rightarrow> int) \<Rightarrow> 'a list \<Rightarrow> 'a list"
  assumes sort_mset: "mset (sort_by cmp xs) = mset xs"
    and sort_sorted:
      "(\<And>a b. a \<in> set xs \<Longrightarrow> b \<in> set xs \<Longrightarrow> cmp a b \<le> 0 \<or> cmp b a \<le> 0) \<Longrightarrow>
       (\<And>a b c. a \<in> set xs \<Longrightarrow> b \<in> set xs \<Longrightarrow> c \<in> set xs \<Longrightarrow>
          cmp a b \<le> 0 \<Longrightarrow> cmp b c \<le> 0 \<Longrightarrow> cmp a c \<le> 0) \<Longrightarrow>
       sorted_wrt (\<lambda>a b. cmp a b \<le> 0) (sort_by cmp xs)"
begin

lemma sort_set: "set (sort_by cmp xs) = set xs"
  using sort_mset by (metis set_mset_mset)

lemma sort_length: "length (sort_by cmp xs) = length xs"
  using sort_mset by (metis size_mset)

lemma sort_distinct: "distinct (sort_by cmp xs) = distinct xs"
  using sort_mset by (rule mset_eq_imp_distinct_iff)

text \<open>The first element of a sorted array compares at most zero with every element.\<close>

lemma sort_hd_least:
  assumes "\<And>a b. a \<in> set xs \<Longrightarrow> b \<in> set xs \<Longrightarrow> cmp a b \<le> 0 \<or> cmp b a \<le> 0"
    and "\<And>a b c. a \<in> set xs \<Longrightarrow> b \<in> set xs \<Longrightarrow> c \<in> set xs \<Longrightarrow>
          cmp a b \<le> 0 \<Longrightarrow> cmp b c \<le> 0 \<Longrightarrow> cmp a c \<le> 0"
    and "y \<in> set xs"
  shows "cmp (hd (sort_by cmp xs)) y \<le> 0"
proof -
  have s: "sorted_wrt (\<lambda>a b. cmp a b \<le> 0) (sort_by cmp xs)" by (rule sort_sorted [OF assms(1,2)])
  have "y \<in> set (sort_by cmp xs)" using assms(3) sort_set by blast
  then obtain z zs where z: "sort_by cmp xs = z # zs" "y = z \<or> y \<in> set zs"
    by (cases "sort_by cmp xs") auto
  have "z \<in> set xs" using z(1) sort_set [of cmp xs] by auto
  then show ?thesis using z s assms(1) [of z z] by auto
qed

end

lemma qs_insert_mset: "mset (qs_insert cmp x ys) = add_mset x (mset ys)"
  by (induction ys) auto

lemma qsort_mset: "mset (qsort cmp xs) = mset xs"
  by (induction xs) (auto simp: qsort_def qs_insert_mset)

lemma qs_insert_sorted:
  assumes "sorted_wrt (\<lambda>a b. cmp a b \<le> 0) ys" and "set (x # ys) \<subseteq> A"
    and "\<And>a b. a \<in> A \<Longrightarrow> b \<in> A \<Longrightarrow> cmp a b \<le> 0 \<or> cmp b a \<le> 0"
    and "\<And>a b c. a \<in> A \<Longrightarrow> b \<in> A \<Longrightarrow> c \<in> A \<Longrightarrow> cmp a b \<le> 0 \<Longrightarrow> cmp b c \<le> 0 \<Longrightarrow> cmp a c \<le> 0"
  shows "sorted_wrt (\<lambda>a b. cmp a b \<le> 0) (qs_insert cmp x ys)"
  using assms(1,2)
proof (induction ys)
  case (Cons y ys)
  have ins: "set (qs_insert cmp x ys) = insert x (set ys)"
    using qs_insert_mset [of cmp x ys] by (metis set_mset_add_mset_insert set_mset_mset)
  show ?case
  proof (cases "cmp x y \<le> 0")
    case True
    then have "cmp x z \<le> 0" if "z \<in> set ys" for z
      using Cons.prems that assms(4) [of x y z] by auto
    then show ?thesis using True Cons.prems by auto
  next
    case False
    then have "cmp y x \<le> 0" using Cons.prems(2) assms(3) [of x y] by auto
    then show ?thesis using False Cons ins by auto
  qed
qed simp

lemma qsort_sorted:
  assumes "\<And>a b. a \<in> set xs \<Longrightarrow> b \<in> set xs \<Longrightarrow> cmp a b \<le> 0 \<or> cmp b a \<le> 0"
    and "\<And>a b c. a \<in> set xs \<Longrightarrow> b \<in> set xs \<Longrightarrow> c \<in> set xs \<Longrightarrow>
          cmp a b \<le> 0 \<Longrightarrow> cmp b c \<le> 0 \<Longrightarrow> cmp a c \<le> 0"
  shows "sorted_wrt (\<lambda>a b. cmp a b \<le> 0) (qsort cmp xs)"
proof -
  have "sorted_wrt (\<lambda>a b. cmp a b \<le> 0) (qsort cmp ys)" if "set ys \<subseteq> set xs" for ys
    using that
  proof (induction ys)
    case (Cons y ys)
    have "set (qsort cmp ys) = set ys" using qsort_mset by (metis set_mset_mset)
    with Cons.prems have sub: "set (y # qsort cmp ys) \<subseteq> set xs" by simp
    have "sorted_wrt (\<lambda>a b. cmp a b \<le> 0) (qsort cmp ys)" using Cons by simp
    then have "sorted_wrt (\<lambda>a b. cmp a b \<le> 0) (qs_insert cmp y (qsort cmp ys))"
      by (rule qs_insert_sorted [OF _ sub assms])
    then show ?case by (simp add: qsort_def)
  qed (simp add: qsort_def)
  then show ?thesis by blast
qed

interpretation qs: array_sort qsort
  by unfold_locales (rule qsort_mset, rule qsort_sorted)

section \<open>Several lists over one store of links\<close>

record 'l list_heads =
  hd_links :: links
  hd_lists :: "'l \<Rightarrow> ll_list"

definition heads_append :: "'l list_heads \<Rightarrow> 'l \<Rightarrow> entry \<Rightarrow> 'l list_heads" where
  "heads_append s l e =
     (let (lst, k) = ll_list_append (hd_lists s l) e (hd_links s)
      in s\<lparr>hd_links := k, hd_lists := (hd_lists s)(l := lst)\<rparr>)"

definition heads_remove :: "'l list_heads \<Rightarrow> 'l \<Rightarrow> entry \<Rightarrow> 'l list_heads" where
  "heads_remove s l e =
     (let (lst, k) = ll_list_remove (hd_lists s l) (Some e) (hd_links s)
      in s\<lparr>hd_links := k, hd_lists := (hd_lists s)(l := lst)\<rparr>)"

definition heads_push :: "'l list_heads \<Rightarrow> 'l \<Rightarrow> entry \<Rightarrow> 'l list_heads" where
  "heads_push s l e =
     (let (lst, k) = ll_list_push (hd_lists s l) e (hd_links s)
      in s\<lparr>hd_links := k, hd_lists := (hd_lists s)(l := lst)\<rparr>)"

definition heads_pop :: "'l list_heads \<Rightarrow> 'l \<Rightarrow> entry option \<times> 'l list_heads" where
  "heads_pop s l =
     (let (e, lst, k) = ll_list_pop (hd_lists s l) (hd_links s)
      in (e, s\<lparr>hd_links := k, hd_lists := (hd_lists s)(l := lst)\<rparr>))"

definition heads_count :: "'l list_heads \<Rightarrow> 'l \<Rightarrow> int" where
  "heads_count s l = ll_list_count (hd_lists s l)"

definition lists_disjoint :: "('l \<Rightarrow> 'e list) \<Rightarrow> bool" where
  "lists_disjoint m \<longleftrightarrow>
     (\<forall>l. distinct (m l)) \<and> (\<forall>l l'. l \<noteq> l' \<longrightarrow> set (m l) \<inter> set (m l') = {})"

definition heads_rep :: "'l list_heads \<Rightarrow> ('l \<Rightarrow> entry list) \<Rightarrow> bool" where
  "heads_rep s m \<longleftrightarrow> (\<forall>l. list_rep (hd_links s) (hd_lists s l) (m l)) \<and> lists_disjoint m"

locale list_store =
  fixes rep :: "'s \<Rightarrow> ('l \<Rightarrow> 'e list) \<Rightarrow> bool"
    and append_to :: "'s \<Rightarrow> 'l \<Rightarrow> 'e \<Rightarrow> 's"
    and remove_from :: "'s \<Rightarrow> 'l \<Rightarrow> 'e \<Rightarrow> 's"
    and count_of :: "'s \<Rightarrow> 'l \<Rightarrow> int"
  assumes rep_disjoint: "rep s m \<Longrightarrow> lists_disjoint m"
    and append_rep: "rep s m \<Longrightarrow> (\<And>l'. e \<notin> set (m l')) \<Longrightarrow> rep (append_to s l e) (m(l := m l @ [e]))"
    and remove_rep: "rep s m \<Longrightarrow> e \<in> set (m l) \<Longrightarrow> rep (remove_from s l e) (m(l := remove1 e (m l)))"
    and count_rep: "rep s m \<Longrightarrow> count_of s l = int (length (m l))"
begin

lemma rep_unique_list: "rep s m \<Longrightarrow> e \<in> set (m l) \<Longrightarrow> e \<in> set (m l') \<Longrightarrow> l = l'"
  using rep_disjoint unfolding lists_disjoint_def by blast

lemma rep_distinct: "rep s m \<Longrightarrow> distinct (m l)"
  using rep_disjoint unfolding lists_disjoint_def by blast

text \<open>Moving an entry: off one list, to the end of another (or the same) one.\<close>

lemma move_rep:
  assumes "rep s m" and "e \<in> set (m a)" and "m1 = m(a := remove1 e (m a))"
  shows "rep (append_to (remove_from s a e) b e) (m1(b := m1 b @ [e]))"
proof (rule append_rep)
  show "rep (remove_from s a e) m1" using remove_rep assms by blast
  show "e \<notin> set (m1 l')" for l'
    using assms rep_unique_list rep_distinct [OF assms(1)] by (auto split: if_splits)
qed

lemma move_count:
  assumes "rep s m" and "e \<in> set (m a)" and "a \<noteq> b"
  shows "count_of (append_to (remove_from s a e) b e) l =
    count_of s l + (if l = b then 1 else 0) - (if l = a then 1 else 0)"
proof -
  have "length (m a) = Suc (length (remove1 e (m a)))"
    using assms(2) by (simp add: length_remove1) (metis Suc_pred length_pos_if_in_set)
  then show ?thesis
    using assms(3) by (simp add: count_rep [OF move_rep [OF assms(1,2) refl]] count_rep [OF assms(1)])
qed

end

lemma heads_other_lists:
  assumes rep: "heads_rep s m" and same: "links_same A (hd_links s) k"
    and A: "A \<subseteq> insert e (set (m l))" and e: "\<And>l'. l' \<noteq> l \<Longrightarrow> e \<notin> set (m l')"
    and l: "list_rep k lst xs" and dis: "lists_disjoint (m(l := xs))"
  shows "heads_rep (s\<lparr>hd_links := k, hd_lists := (hd_lists s)(l := lst)\<rparr>) (m(l := xs))"
proof -
  have "list_rep k (hd_lists s l') (m l')" if "l' \<noteq> l" for l'
  proof (rule list_rep_frame)
    show "list_rep (hd_links s) (hd_lists s l') (m l')" using rep by (simp add: heads_rep_def)
    fix x assume x: "x \<in> set (m l')"
    have "set (m l') \<inter> set (m l) = {}" using rep that by (auto simp: heads_rep_def lists_disjoint_def)
    then have "x \<notin> A" using A e [OF that] x by blast
    then show "lnext k x = lnext (hd_links s) x \<and> lprev k x = lprev (hd_links s) x"
      using same by (simp add: links_same_def)
  qed
  then show ?thesis using l dis by (simp add: heads_rep_def)
qed

lemma lists_disjoint_add:
  assumes "lists_disjoint m" "\<And>l'. e \<notin> set (m l')" "set xs = insert e (set (m l))" "distinct xs"
  shows "lists_disjoint (m(l := xs))"
  using assms unfolding lists_disjoint_def by simp

lemma lists_disjoint_sub:
  assumes "lists_disjoint m" "set xs \<subseteq> set (m l)" "distinct xs"
  shows "lists_disjoint (m(l := xs))"
proof -
  have "set (m l1) \<inter> set (m l2) = {}" if "l1 \<noteq> l2" for l1 l2
    using assms(1) that unfolding lists_disjoint_def by blast
  then have "set ((m(l := xs)) l1) \<inter> set ((m(l := xs)) l2) = {}" if "l1 \<noteq> l2" for l1 l2
    using assms(2) that by (cases "l1 = l"; cases "l2 = l") (simp_all, blast+)
  then show ?thesis using assms(1,3) unfolding lists_disjoint_def by simp
qed

lemma heads_append_rep:
  assumes rep: "heads_rep s m" and new: "\<And>l'. e \<notin> set (m l')"
  shows "heads_rep (heads_append s l e) (m(l := m l @ [e]))"
proof -
  obtain lst k where a: "ll_list_append (hd_lists s l) e (hd_links s) = (lst, k)" by fastforce
  have "list_rep (hd_links s) (hd_lists s l) (m l)" using rep by (simp add: heads_rep_def)
  note ap = ll_list_append_rep [OF this new a]
  have dj: "lists_disjoint m" "distinct (m l)" using rep by (simp_all add: heads_rep_def lists_disjoint_def)
  have "lists_disjoint (m(l := m l @ [e]))"
    by (rule lists_disjoint_add [OF dj(1) new]) (use dj(2) new in simp_all)
  with heads_other_lists [OF rep ap(2) subset_refl new ap(1)] show ?thesis
    by (simp add: heads_append_def a)
qed

lemma heads_push_rep:
  assumes rep: "heads_rep s m" and new: "\<And>l'. e \<notin> set (m l')"
  shows "heads_rep (heads_push s l e) (m(l := e # m l))"
proof -
  obtain lst k where a: "ll_list_push (hd_lists s l) e (hd_links s) = (lst, k)" by fastforce
  have "list_rep (hd_links s) (hd_lists s l) (m l)" using rep by (simp add: heads_rep_def)
  note ap = ll_list_push_rep [OF this new a]
  have dj: "lists_disjoint m" "distinct (m l)" using rep by (simp_all add: heads_rep_def lists_disjoint_def)
  have "lists_disjoint (m(l := e # m l))"
    by (rule lists_disjoint_add [OF dj(1) new]) (use dj(2) new in simp_all)
  with heads_other_lists [OF rep ap(2) subset_refl new ap(1)] show ?thesis
    by (simp add: heads_push_def a)
qed

lemma heads_remove_rep:
  assumes rep: "heads_rep s m" and mem: "e \<in> set (m l)"
  shows "heads_rep (heads_remove s l e) (m(l := remove1 e (m l)))"
proof -
  obtain lst k where a: "ll_list_remove (hd_lists s l) (Some e) (hd_links s) = (lst, k)" by fastforce
  have lr: "list_rep (hd_links s) (hd_lists s l) (m l)" and dj: "lists_disjoint m"
    using rep by (auto simp: heads_rep_def)
  note rm = ll_list_remove_rep [OF lr mem a]
  have "lists_disjoint (m(l := remove1 e (m l)))"
    using lr by (intro lists_disjoint_sub [OF dj] set_remove1_subset) (simp add: list_rep_def)
  moreover have "l' \<noteq> l \<Longrightarrow> e \<notin> set (m l')" for l' using dj mem by (auto simp: lists_disjoint_def)
  ultimately show ?thesis
    using heads_other_lists [OF rep rm(2) subset_insertI _ rm(1), of e] by (simp add: heads_remove_def a)
qed

lemma heads_pop_rep:
  assumes rep: "heads_rep s m"
  shows "m l = [] \<Longrightarrow> heads_pop s l = (None, s)"
    and "m l = e # xs \<Longrightarrow>
      fst (heads_pop s l) = Some e \<and> heads_rep (snd (heads_pop s l)) (m(l := xs))"
proof -
  have lr: "list_rep (hd_links s) (hd_lists s l) (m l)" using rep by (simp add: heads_rep_def)
  show "heads_pop s l = (None, s)" if "m l = []"
    using lr that by (auto simp: heads_pop_def ll_list_pop_def list_rep_def first_of_def Let_def)
  show "fst (heads_pop s l) = Some e \<and> heads_rep (snd (heads_pop s l)) (m(l := xs))"
    if m: "m l = e # xs"
  proof -
    have "heads_pop s l = (Some e, heads_remove s l e)"
      using ll_list_pop_remove [of "hd_links s" "hd_lists s l" e xs] lr m
      by (simp add: heads_pop_def heads_remove_def Let_def split_beta)
    then show ?thesis using heads_remove_rep [OF rep, of e l] m by simp
  qed
qed

interpretation hl: list_store heads_rep heads_append heads_remove heads_count
proof
  show "heads_rep s m \<Longrightarrow> lists_disjoint m" for s :: "'a list_heads" and m
    by (simp add: heads_rep_def)
  show "heads_rep s m \<Longrightarrow> heads_count s l = int (length (m l))" for s :: "'a list_heads" and m l
    by (simp add: heads_rep_def list_rep_def heads_count_def ll_list_count_def)
qed (rule heads_append_rep heads_remove_rep; assumption)+

section \<open>Properties\<close>

text \<open>
  C29. Moving an entry between two intrusive lists that share the links of all
  entries (\<open>ll_list_remove\<close> on one head, \<open>ll_list_append\<close> on the other) relinks
  exactly as the sequences say: the entry leaves its place in the first list and
  is the last of the second, every other list and the order of all other entries
  stay, and the two counters follow.
\<close>

theorem list_move_refines:
  assumes "heads_rep s m" and "e \<in> set (m a)" and "a \<noteq> b"
  shows "heads_rep (heads_append (heads_remove s a e) b e)
      (m(a := remove1 e (m a), b := m b @ [e])) \<and>
    heads_count (heads_append (heads_remove s a e) b e) a = heads_count s a - 1 \<and>
    heads_count (heads_append (heads_remove s a e) b e) b = heads_count s b + 1"
  using hl.move_rep [OF assms(1,2) refl, of b] hl.move_count [OF assms] assms(3)
  by simp

definition two_lists :: "bool list_heads" where
  "two_lists =
     heads_append (heads_append (heads_append
       \<lparr>hd_links = \<lparr>lnext = (\<lambda>_. None), lprev = (\<lambda>_. None)\<rparr>, hd_lists = (\<lambda>_. ll_list_init)\<rparr>
       True 1) True 2) True 3"

lemma two_lists_rep: "heads_rep two_lists (\<lambda>l. if l then [1, 2, 3] else [])"
proof -
  let ?s = "\<lparr>hd_links = \<lparr>lnext = (\<lambda>_. None), lprev = (\<lambda>_. None)\<rparr>, hd_lists = (\<lambda>_. ll_list_init)\<rparr>"
  have "heads_rep ?s (\<lambda>_. [])" by (simp add: heads_rep_def list_rep_init lists_disjoint_def)
  note a1 = heads_append_rep [OF this, of 1 True]
  note a2 = heads_append_rep [OF a1, of 2 True]
  note a3 = heads_append_rep [OF a2, of 3 True]
  have "heads_rep two_lists ((\<lambda>_. [])(True := [1, 2, 3]))"
    using a3 by (simp add: two_lists_def)
  moreover have "(\<lambda>_. [])(True := [1, 2, 3 :: entry]) = (\<lambda>l. if l then [1, 2, 3] else [])" by auto
  ultimately show ?thesis by simp
qed

theorem list_move_refines_witness:
  "let s = heads_append (heads_remove two_lists True 2) False 2 in
   heads_rep s ((\<lambda>l. if l then [1, 2, 3] else [])(True := [1, 3], False := [2])) \<and>
   heads_count s True = 2"
  using list_move_refines [OF two_lists_rep, of 2 True False] hl.count_rep [OF two_lists_rep, of True]
  by (simp add: Let_def)

text \<open>
  C30. \<open>ll_list_sort\<close> on a well-formed list never follows a null pointer, keeps the
  entries, and leaves them linked in an order in which no entry compares greater
  than a later one, for every comparison that is total and transitive on them.
\<close>

theorem list_sort_sorts:
  assumes rep: "list_rep k lst xs"
    and tot: "\<And>a b. a \<in> set xs \<Longrightarrow> b \<in> set xs \<Longrightarrow> cmp a b \<le> 0 \<or> cmp b a \<le> 0"
    and trans: "\<And>a b c. a \<in> set xs \<Longrightarrow> b \<in> set xs \<Longrightarrow> c \<in> set xs \<Longrightarrow>
      cmp a b \<le> 0 \<Longrightarrow> cmp b c \<le> 0 \<Longrightarrow> cmp a c \<le> 0"
  shows "\<exists>lst' k' ys. ll_list_sort cmp lst k = Some (lst', k') \<and> list_rep k' lst' ys \<and>
    mset ys = mset xs \<and> sorted_wrt (\<lambda>a b. cmp a b \<le> 0) ys \<and> links_same (set xs) k k'"
proof (cases "l_count lst < 2")
  case True
  then have "length xs < 2" using rep by (simp add: list_rep_def)
  then have "sorted_wrt (\<lambda>a b. cmp a b \<le> 0) xs" by (cases xs) (auto simp: less_Suc_eq)
  then show ?thesis using True rep by (auto simp: ll_list_sort_def links_same_def)
next
  case False
  have w: "ll_list_walk k (nat (l_count lst)) (l_head lst) = Some xs"
    using rep ll_list_walk_seg [of k None xs None] by (simp add: list_rep_def)
  let ?ys = "qsort cmp xs"
  have "distinct ?ys" using rep by (simp add: list_rep_def qs.sort_distinct)
  note rb = ll_list_rebuild_rep [OF this, of k]
  have "sorted_wrt (\<lambda>a b. cmp a b \<le> 0) ?ys" by (rule qs.sort_sorted [OF tot trans])
  then have "ll_list_sort cmp lst k = Some (fst (ll_list_rebuild ?ys k), snd (ll_list_rebuild ?ys k)) \<and>
      list_rep (snd (ll_list_rebuild ?ys k)) (fst (ll_list_rebuild ?ys k)) ?ys \<and> mset ?ys = mset xs \<and>
      sorted_wrt (\<lambda>a b. cmp a b \<le> 0) ?ys \<and> links_same (set xs) k (snd (ll_list_rebuild ?ys k))"
    using False w rb by (simp add: ll_list_sort_def qs.sort_mset qs.sort_set)
  then show ?thesis by blast
qed

theorem list_sort_sorts_witness:
  "\<exists>lst' k' ys. ll_list_sort (\<lambda>a b. int b - int a) (hd_lists two_lists True) (hd_links two_lists)
      = Some (lst', k') \<and> list_rep k' lst' ys \<and> ys = [3, 2, 1]"
proof -
  have r: "list_rep (hd_links two_lists) (hd_lists two_lists True) [1, 2, 3]"
    using two_lists_rep by (auto simp: heads_rep_def split: if_splits)
  obtain lst' k' ys where o: "ll_list_sort (\<lambda>a b. int b - int a) (hd_lists two_lists True)
      (hd_links two_lists) = Some (lst', k')" "list_rep k' lst' ys" "mset ys = mset [1, 2, 3]"
      "sorted_wrt (\<lambda>a b. int b - int a \<le> 0) ys"
    using list_sort_sorts [OF r, of "\<lambda>a b. int b - int a"] by force
  have "sorted (rev ys)" using o(4) by (simp add: sorted_wrt_rev)
  moreover have "mset (rev ys) = mset [1, 2, 3]" using o(3) by simp
  ultimately have "rev ys = sort [1, 2, 3]" by (metis properties_for_sort)
  then have "ys = [3, 2, 1]" by simp
  then show ?thesis using o by blast
qed

end
