(* ===== verification/Dependency.thy ===== *)
theory Dependency
  imports Cstring
begin

text \<open>
  Dependency conditions of jobs (\<open>src/batch/lib/dependency.c\<close>): a recursive
  descent parser that emits the condition in postfix order, and the evaluation
  of the postfix list on a stack of sixteen cells. The parser state is the
  record the C functions pass around; the position is the unread rest of the
  string. The recursion carries fuel; \<open>dep_parse\<close> supplies three units per
  character, and the lemmas show that this always suffices. Both the grammar
  and the meaning of a condition are given independently of the code
  (\<open>gr_expr\<close>, \<open>expr_value\<close>).
\<close>

section \<open>Conditions\<close>

datatype dep_type = DEP_DONE | DEP_EXIT | DEP_ENDED | DEP_AND | DEP_OR | DEP_NOT

record job_dep =
  dep_kind :: dep_type
  dep_job_id :: int

datatype dep_parse_status =
  DEP_PARSE_OK | DEP_PARSE_SYNTAX | DEP_PARSE_UNKNOWN_JOB | DEP_OUT_OF_FUEL

type_synonym dep_resolve_fn = "int \<Rightarrow> bool"
type_synonym dep_check_fn = "dep_type \<Rightarrow> int \<Rightarrow> int"

definition DEP_MAX_STACK :: nat where
  "DEP_MAX_STACK = 16"

section \<open>The parser\<close>

record dep_parser =
  dp_p :: string
  dp_deps :: "job_dep list"
  dp_error :: dep_parse_status

definition dp_fail :: "dep_parse_status \<Rightarrow> dep_parser \<Rightarrow> dep_parser" where
  "dp_fail e dp = dp\<lparr>dp_error := e\<rparr>"

definition dp_advance :: "nat \<Rightarrow> dep_parser \<Rightarrow> dep_parser" where
  "dp_advance n dp = dp\<lparr>dp_p := drop n (dp_p dp)\<rparr>"

definition skip_ws :: "dep_parser \<Rightarrow> dep_parser" where
  "skip_ws dp = dp\<lparr>dp_p := skip_spaces (dp_p dp)\<rparr>"

definition emit :: "dep_type \<Rightarrow> int \<Rightarrow> dep_parser \<Rightarrow> dep_parser" where
  "emit t j dp =
     (if dp_error dp \<noteq> DEP_PARSE_OK then dp
      else dp\<lparr>dp_deps := dp_deps dp @ [\<lparr>dep_kind = t, dep_job_id = j\<rparr>]\<rparr>)"

definition looking_at :: "string \<Rightarrow> dep_parser \<Rightarrow> bool" where
  "looking_at w dp \<longleftrightarrow> take (length w) (dp_p dp) = w"

text \<open>A call in three parts: the closing parenthesis on, the argument on, and the name.\<close>

definition parse_call_close ::
  "dep_resolve_fn option \<Rightarrow> dep_type \<Rightarrow> int \<Rightarrow> dep_parser \<Rightarrow> dep_parser" where
  "parse_call_close resolve t job_id dp0 =
     (let dp = skip_ws dp0 in
      if \<not> looking_at '')'' dp then dp_fail DEP_PARSE_SYNTAX dp
      else
        (let dp = dp_advance 1 dp in
         case resolve of
           None \<Rightarrow> emit t job_id dp
         | Some f \<Rightarrow>
             if \<not> f job_id then dp_fail DEP_PARSE_UNKNOWN_JOB dp else emit t job_id dp))"

definition parse_call_args ::
  "dep_resolve_fn option \<Rightarrow> dep_type \<Rightarrow> dep_parser \<Rightarrow> dep_parser" where
  "parse_call_args resolve t dp0 =
     (let dp = skip_ws dp0 in
      if \<not> looking_at ''('' dp then dp_fail DEP_PARSE_SYNTAX dp
      else
        (let dp = skip_ws (dp_advance 1 dp) in
         case strtoll (dp_p dp) of
           None \<Rightarrow> dp_fail DEP_PARSE_SYNTAX dp
         | Some (job_id, _, rest) \<Rightarrow>
             parse_call_close resolve t job_id (dp\<lparr>dp_p := rest\<rparr>)))"

definition parse_funccall :: "dep_resolve_fn option \<Rightarrow> dep_parser \<Rightarrow> dep_parser" where
  "parse_funccall resolve dp =
     (if looking_at ''done'' dp then parse_call_args resolve DEP_DONE (dp_advance 4 dp)
      else if looking_at ''exit'' dp then parse_call_args resolve DEP_EXIT (dp_advance 4 dp)
      else if looking_at ''ended'' dp then parse_call_args resolve DEP_ENDED (dp_advance 5 dp)
      else dp_fail DEP_PARSE_SYNTAX dp)"

fun parse_expr :: "dep_resolve_fn option \<Rightarrow> nat \<Rightarrow> dep_parser \<Rightarrow> dep_parser"
  and parse_expr_loop :: "dep_resolve_fn option \<Rightarrow> nat \<Rightarrow> dep_parser \<Rightarrow> dep_parser"
  and parse_term :: "dep_resolve_fn option \<Rightarrow> nat \<Rightarrow> dep_parser \<Rightarrow> dep_parser"
  and parse_term_loop :: "dep_resolve_fn option \<Rightarrow> nat \<Rightarrow> dep_parser \<Rightarrow> dep_parser"
  and parse_factor :: "dep_resolve_fn option \<Rightarrow> nat \<Rightarrow> dep_parser \<Rightarrow> dep_parser"
where
  "parse_expr r 0 dp = dp_fail DEP_OUT_OF_FUEL dp"
| "parse_expr r (Suc n) dp = parse_expr_loop r n (skip_ws (parse_term r n dp))"
| "parse_expr_loop r 0 dp = dp_fail DEP_OUT_OF_FUEL dp"
| "parse_expr_loop r (Suc n) dp =
     (if dp_error dp = DEP_PARSE_OK \<and> looking_at ''||'' dp
      then parse_expr_loop r n (skip_ws (emit DEP_OR 0 (parse_term r n (dp_advance 2 dp))))
      else dp)"
| "parse_term r 0 dp = dp_fail DEP_OUT_OF_FUEL dp"
| "parse_term r (Suc n) dp = parse_term_loop r n (skip_ws (parse_factor r n dp))"
| "parse_term_loop r 0 dp = dp_fail DEP_OUT_OF_FUEL dp"
| "parse_term_loop r (Suc n) dp =
     (if dp_error dp = DEP_PARSE_OK \<and> looking_at ''&&'' dp
      then parse_term_loop r n (skip_ws (emit DEP_AND 0 (parse_factor r n (dp_advance 2 dp))))
      else dp)"
| "parse_factor r 0 dp = dp_fail DEP_OUT_OF_FUEL dp"
| "parse_factor r (Suc n) dp0 =
     (let dp = skip_ws dp0 in
      if dp_error dp \<noteq> DEP_PARSE_OK then dp
      else if looking_at ''!'' dp then emit DEP_NOT 0 (parse_factor r n (dp_advance 1 dp))
      else if looking_at ''('' dp then
        (let dp = skip_ws (parse_expr r n (dp_advance 1 dp)) in
         if dp_error dp \<noteq> DEP_PARSE_OK then dp
         else if \<not> looking_at '')'' dp then dp_fail DEP_PARSE_SYNTAX dp
         else dp_advance 1 dp)
      else parse_funccall r dp)"

definition dep_parse ::
  "string \<Rightarrow> dep_resolve_fn option \<Rightarrow> dep_parse_status \<times> job_dep list" where
  "dep_parse str resolve =
     (let dp = skip_ws (parse_expr resolve (3 * length str + 3)
                 \<lparr>dp_p = str, dp_deps = [], dp_error = DEP_PARSE_OK\<rparr>);
          dp = (if dp_error dp = DEP_PARSE_OK \<and> dp_p dp \<noteq> []
                then dp_fail DEP_PARSE_SYNTAX dp else dp)
      in if dp_error dp \<noteq> DEP_PARSE_OK then (dp_error dp, []) else (DEP_PARSE_OK, dp_deps dp))"

section \<open>Evaluation\<close>

datatype dep_eval_error = Stack_overflow | Stack_underflow

definition dep_push :: "int \<Rightarrow> int list \<Rightarrow> dep_eval_error + int list" where
  "dep_push v st = (if length st < DEP_MAX_STACK then Inr (v # st) else Inl Stack_overflow)"

definition dep_step :: "dep_check_fn \<Rightarrow> job_dep \<Rightarrow> int list \<Rightarrow> dep_eval_error + int list" where
  "dep_step check d st =
     (case dep_kind d of
        DEP_AND \<Rightarrow>
          (case st of b # a # r \<Rightarrow> dep_push (if a \<noteq> 0 \<and> b \<noteq> 0 then 1 else 0) r
                    | _ \<Rightarrow> Inl Stack_underflow)
      | DEP_OR \<Rightarrow>
          (case st of b # a # r \<Rightarrow> dep_push (if a \<noteq> 0 \<or> b \<noteq> 0 then 1 else 0) r
                    | _ \<Rightarrow> Inl Stack_underflow)
      | DEP_NOT \<Rightarrow>
          (case st of a # r \<Rightarrow> dep_push (if a = 0 then 1 else 0) r
                    | _ \<Rightarrow> Inl Stack_underflow)
      | t \<Rightarrow> dep_push (check t (dep_job_id d)) st)"

definition dep_list_eval :: "job_dep list \<Rightarrow> dep_check_fn \<Rightarrow> dep_eval_error + int" where
  "dep_list_eval deps check =
     bindE (foldE (dep_step check) deps [])
       (\<lambda>st. case st of [] \<Rightarrow> Inl Stack_underflow | v # _ \<Rightarrow> Inr v)"

section \<open>What a condition means\<close>

datatype dep_expr =
    E_call dep_type int
  | E_not dep_expr
  | E_and dep_expr dep_expr
  | E_or dep_expr dep_expr

fun postfix :: "dep_expr \<Rightarrow> job_dep list" where
  "postfix (E_call t j) = [\<lparr>dep_kind = t, dep_job_id = j\<rparr>]"
| "postfix (E_not a) = postfix a @ [\<lparr>dep_kind = DEP_NOT, dep_job_id = 0\<rparr>]"
| "postfix (E_and a b) = postfix a @ postfix b @ [\<lparr>dep_kind = DEP_AND, dep_job_id = 0\<rparr>]"
| "postfix (E_or a b) = postfix a @ postfix b @ [\<lparr>dep_kind = DEP_OR, dep_job_id = 0\<rparr>]"

fun expr_value :: "dep_check_fn \<Rightarrow> dep_expr \<Rightarrow> int" where
  "expr_value check (E_call t j) = check t j"
| "expr_value check (E_not a) = (if expr_value check a = 0 then 1 else 0)"
| "expr_value check (E_and a b) =
     (if expr_value check a \<noteq> 0 \<and> expr_value check b \<noteq> 0 then 1 else 0)"
| "expr_value check (E_or a b) =
     (if expr_value check a \<noteq> 0 \<or> expr_value check b \<noteq> 0 then 1 else 0)"

text \<open>How many stack cells the evaluation of a condition uses.\<close>

fun cells :: "dep_expr \<Rightarrow> nat" where
  "cells (E_call t j) = 1"
| "cells (E_not a) = cells a"
| "cells (E_and a b) = max (cells a) (cells b + 1)"
| "cells (E_or a b) = max (cells a) (cells b + 1)"

fun calls :: "dep_expr \<Rightarrow> (dep_type \<times> int) set" where
  "calls (E_call t j) = {(t, j)}"
| "calls (E_not a) = calls a"
| "calls (E_and a b) = calls a \<union> calls b"
| "calls (E_or a b) = calls a \<union> calls b"

definition calls_ok :: "dep_resolve_fn option \<Rightarrow> dep_expr \<Rightarrow> bool" where
  "calls_ok r e \<longleftrightarrow> (\<forall>(t, j) \<in> calls e. t \<in> {DEP_DONE, DEP_EXIT, DEP_ENDED} \<and>
     (case r of None \<Rightarrow> True | Some f \<Rightarrow> f j))"

text \<open>
  The grammar, with the white space the parser skips. \<open>&&\<close> binds tighter than
  \<open>||\<close> and both associate to the left.
\<close>

definition spaces :: "string \<Rightarrow> bool" where
  "spaces w \<longleftrightarrow> (\<forall>c \<in> set w. isspace c)"

definition call_name :: "dep_type \<Rightarrow> string" where
  "call_name t = (case t of DEP_DONE \<Rightarrow> ''done'' | DEP_EXIT \<Rightarrow> ''exit'' | _ \<Rightarrow> ''ended'')"

inductive gr_expr :: "string \<Rightarrow> dep_expr \<Rightarrow> bool"
  and gr_term :: "string \<Rightarrow> dep_expr \<Rightarrow> bool"
  and gr_factor :: "string \<Rightarrow> dep_expr \<Rightarrow> bool"
where
  gr_expr_term: "gr_term s a \<Longrightarrow> gr_expr s a"
| gr_expr_or: "gr_expr s a \<Longrightarrow> spaces w \<Longrightarrow> gr_term t b \<Longrightarrow> gr_expr (s @ w @ ''||'' @ t) (E_or a b)"
| gr_term_factor: "gr_factor s a \<Longrightarrow> gr_term s a"
| gr_term_and: "gr_term s a \<Longrightarrow> spaces w \<Longrightarrow> gr_factor t b \<Longrightarrow> gr_term (s @ w @ ''&&'' @ t) (E_and a b)"
| gr_not: "spaces w \<Longrightarrow> gr_factor s a \<Longrightarrow> gr_factor (w @ ''!'' @ s) (E_not a)"
| gr_paren: "spaces w \<Longrightarrow> gr_expr s a \<Longrightarrow> spaces v \<Longrightarrow> gr_factor (w @ ''('' @ s @ v @ '')'') a"
| gr_call: "spaces w \<Longrightarrow> t \<in> {DEP_DONE, DEP_EXIT, DEP_ENDED} \<Longrightarrow> spaces w1 \<Longrightarrow> spaces w2 \<Longrightarrow>
    strtoll num = Some (j, er, []) \<Longrightarrow> spaces w3 \<Longrightarrow>
    gr_factor (w @ call_name t @ w1 @ ''('' @ w2 @ num @ w3 @ '')'') (E_call t j)"

text \<open>A printer for conditions, fully parenthesised.\<close>

fun dep_print :: "dep_expr \<Rightarrow> string" where
  "dep_print (E_call t j) = call_name t @ ''('' @ fmt_ld j @ '')''"
| "dep_print (E_not a) = ''!'' @ dep_print a"
| "dep_print (E_and a b) = ''('' @ dep_print a @ ''&&'' @ dep_print b @ '')''"
| "dep_print (E_or a b) = ''('' @ dep_print a @ ''||'' @ dep_print b @ '')''"

section \<open>Lemmas: the stack machine\<close>

lemma calls_ok_simps [simp]:
  "calls_ok r (E_call t j) \<longleftrightarrow>
     t \<in> {DEP_DONE, DEP_EXIT, DEP_ENDED} \<and> (case r of None \<Rightarrow> True | Some f \<Rightarrow> f j)"
  "calls_ok r (E_not a) = calls_ok r a"
  "calls_ok r (E_and a b) \<longleftrightarrow> calls_ok r a \<and> calls_ok r b"
  "calls_ok r (E_or a b) \<longleftrightarrow> calls_ok r a \<and> calls_ok r b"
  by (auto simp: calls_ok_def)

lemma cells_pos: "1 \<le> cells e"
  by (induction e) auto

lemma dep_push_step:
  "t \<in> {DEP_DONE, DEP_EXIT, DEP_ENDED} \<Longrightarrow>
   dep_step check \<lparr>dep_kind = t, dep_job_id = j\<rparr> st = dep_push (check t j) st"
  by (auto simp: dep_step_def)

text \<open>
  Running the postfix form of a condition pushes its value, if the cells it
  needs are free, and overruns the stack array otherwise.
\<close>

lemma postfix_run:
  assumes "calls_ok r e"
  shows "foldE (dep_step check) (postfix e) st =
    (if length st + cells e \<le> DEP_MAX_STACK then Inr (expr_value check e # st)
     else Inl Stack_overflow)"
  using assms
proof (induction e arbitrary: st)
  case (E_call t j)
  then have "dep_step check \<lparr>dep_kind = t, dep_job_id = j\<rparr> st = dep_push (check t j) st"
    using dep_push_step by simp
  then show ?case by (simp add: dep_push_def)
next
  case (E_not a)
  then show ?case using cells_pos [of a]
    by (auto simp: foldE_append dep_step_def dep_push_def)
next
  case (E_and a b)
  then show ?case using cells_pos [of a] cells_pos [of b]
    by (auto simp: foldE_append dep_step_def dep_push_def)
next
  case (E_or a b)
  then show ?case using cells_pos [of a] cells_pos [of b]
    by (auto simp: foldE_append dep_step_def dep_push_def)
qed

lemma dep_list_eval_postfix:
  "calls_ok r e \<Longrightarrow> dep_list_eval (postfix e) check =
     (if cells e \<le> DEP_MAX_STACK then Inr (expr_value check e) else Inl Stack_overflow)"
  by (simp add: dep_list_eval_def postfix_run)

section \<open>Lemmas: the parser ends\<close>

lemma dp_simps [simp]:
  "dp_p (dp_fail e dp) = dp_p dp" "dp_deps (dp_fail e dp) = dp_deps dp" "dp_error (dp_fail e dp) = e"
  "dp_p (dp_advance n dp) = drop n (dp_p dp)" "dp_deps (dp_advance n dp) = dp_deps dp"
  "dp_error (dp_advance n dp) = dp_error dp"
  "dp_p (skip_ws dp) = skip_spaces (dp_p dp)" "dp_deps (skip_ws dp) = dp_deps dp"
  "dp_error (skip_ws dp) = dp_error dp"
  "dp_p (emit t j dp) = dp_p dp" "dp_error (emit t j dp) = dp_error dp"
  by (simp_all add: dp_fail_def dp_advance_def skip_ws_def emit_def)

lemma looking_at_length: "looking_at w dp \<Longrightarrow> length w \<le> length (dp_p dp)"
  unfolding looking_at_def by (metis length_take min.cobounded1 nat_le_linear take_all_iff)

lemma looking_at_split: "looking_at w dp \<Longrightarrow> dp_p dp = w @ drop (length w) (dp_p dp)"
  unfolding looking_at_def by (metis append_take_drop_id)

lemma length_skip_le: "length s \<le> n \<Longrightarrow> length (skip_spaces s) \<le> n"
  using length_skip_spaces le_trans by blast

lemma skip_ws_split: "\<exists>w. spaces w \<and> s = w @ skip_spaces s"
  using skip_spaces_split [of s] by (simp add: spaces_def)

text \<open>
  A parsing function either fails somewhere in the input, or succeeds on a
  prefix of it.
\<close>

definition parse_failed :: "dep_parser \<Rightarrow> dep_parser \<Rightarrow> bool" where
  "parse_failed dp dp' \<longleftrightarrow> dp_error dp' \<in> {DEP_PARSE_SYNTAX, DEP_PARSE_UNKNOWN_JOB} \<and>
     length (dp_p dp') \<le> length (dp_p dp)"

definition resolves :: "dep_resolve_fn option \<Rightarrow> int \<Rightarrow> bool" where
  "resolves r j \<longleftrightarrow> (case r of None \<Rightarrow> True | Some f \<Rightarrow> f j)"

lemma parse_call_close_cases:
  obtains (fail) "parse_failed dp (parse_call_close r t j dp)"
  | (ok) w rest where "dp_p dp = w @ '')'' @ rest" "spaces w" "resolves r j"
      "parse_call_close r t j dp = emit t j (dp\<lparr>dp_p := rest\<rparr>)"
proof -
  obtain w where w: "spaces w" "dp_p dp = w @ skip_spaces (dp_p dp)" using skip_ws_split by blast
  define rest where "rest = drop 1 (skip_spaces (dp_p dp))"
  note len = length_skip_spaces [of "dp_p dp"]
  show thesis
  proof (cases "looking_at '')'' (skip_ws dp) \<and> resolves r j")
    case False
    then show thesis using len
      by (intro fail) (auto simp: parse_failed_def parse_call_close_def Let_def resolves_def
          intro: le_trans [OF diff_le_self] split: option.split)
  next
    case True
    then have "skip_spaces (dp_p dp) = '')'' @ rest"
      using looking_at_split [of "'')''" "skip_ws dp"] by (simp add: rest_def)
    moreover have "parse_call_close r t j dp = emit t j (dp\<lparr>dp_p := rest\<rparr>)"
      using True by (auto simp: parse_call_close_def Let_def resolves_def rest_def skip_ws_def
          dp_advance_def split: option.split)
    ultimately show thesis using ok w True by metis
  qed
qed

lemma parse_call_args_cases:
  obtains (fail) "parse_failed dp (parse_call_args r t dp)"
  | (ok) w1 w2 num j er w3 rest where
      "dp_p dp = w1 @ ''('' @ w2 @ num @ w3 @ '')'' @ rest"
      "spaces w1" "spaces w2" "spaces w3" "strtoll num = Some (j, er, [])" "resolves r j"
      "parse_call_args r t dp = emit t j (dp\<lparr>dp_p := rest\<rparr>)"
proof (cases "looking_at ''('' (skip_ws dp)")
  case False
  then show thesis using length_skip_spaces [of "dp_p dp"]
    by (intro fail) (simp add: parse_failed_def parse_call_args_def)
next
  case True
  obtain w1 where w1: "spaces w1" "dp_p dp = w1 @ skip_spaces (dp_p dp)" using skip_ws_split by blast
  define p2 where "p2 = drop 1 (skip_spaces (dp_p dp))"
  have p2: "skip_spaces (dp_p dp) = ''('' @ p2"
    using looking_at_split [OF True] by (simp add: p2_def)
  obtain w2 where w2: "spaces w2" "p2 = w2 @ skip_spaces p2" using skip_ws_split by blast
  have len: "length (skip_spaces p2) \<le> length (dp_p dp)"
    using length_skip_spaces [of p2] w1(2) p2 by (metis le_trans le_add2 length_append)
  show thesis
  proof (cases "strtoll (skip_spaces p2)")
    case None
    then show thesis using True len
      by (intro fail) (simp add: parse_failed_def parse_call_args_def Let_def p2_def)
  next
    case (Some x)
    obtain j er p3 where x: "x = (j, er, p3)" by (cases x)
    obtain num where num: "skip_spaces p2 = num @ p3" "strtoll num = Some (j, er, [])"
      using strtoll_split Some x by blast
    have e: "parse_call_args r t dp = parse_call_close r t j (dp\<lparr>dp_p := p3\<rparr>)"
      using True Some x by (simp add: parse_call_args_def Let_def p2_def skip_ws_def dp_advance_def)
    show thesis
    proof (cases rule: parse_call_close_cases [of "dp\<lparr>dp_p := p3\<rparr>" r t j])
      case fail
      then show thesis using that(1) len num(1) by (simp add: e parse_failed_def)
    next
      case (ok w3 rest)
      then show thesis using that(2) [of w1 w2 num w3 rest j er] w1 w2 p2 num e by simp
    qed
  qed
qed

definition call_parsed :: "dep_resolve_fn option \<Rightarrow> dep_parser \<Rightarrow> dep_parser \<Rightarrow> bool" where
  "call_parsed r dp dp' \<longleftrightarrow> (\<exists>s t j rest. dp_p dp = s @ rest \<and>
     (\<forall>w. spaces w \<longrightarrow> gr_factor (w @ s) (E_call t j)) \<and> calls_ok r (E_call t j) \<and>
     dp' = emit t j (dp\<lparr>dp_p := rest\<rparr>))"

lemma parse_named_call:
  assumes look: "looking_at (call_name t) dp" and t: "t \<in> {DEP_DONE, DEP_EXIT, DEP_ENDED}"
    and e: "dp' = parse_call_args r t (dp_advance (length (call_name t)) dp)"
  shows "parse_failed dp dp' \<or> call_parsed r dp dp'"
proof (cases rule: parse_call_args_cases [of "dp_advance (length (call_name t)) dp" r t])
  case fail
  then show ?thesis by (auto simp: parse_failed_def e)
next
  case (ok w1 w2 num j er w3 rest)
  let ?s = "call_name t @ w1 @ ''('' @ w2 @ num @ w3 @ '')''"
  have "dp_p dp = ?s @ rest" using looking_at_split [OF look] ok(1) by simp
  moreover have "\<forall>w. spaces w \<longrightarrow> gr_factor (w @ ?s) (E_call t j)"
    using gr_call [OF _ t ok(2,3,5,4)] by simp
  moreover have "dp' = emit t j (dp\<lparr>dp_p := rest\<rparr>)" using ok(7) e by (simp add: dp_advance_def)
  moreover have "calls_ok r (E_call t j)" using ok(6) t by (simp add: resolves_def)
  ultimately show ?thesis unfolding call_parsed_def by blast
qed

lemma parse_funccall_cases:
  "parse_failed dp (parse_funccall r dp) \<or> call_parsed r dp (parse_funccall r dp)"
  using parse_named_call [OF _ _ refl, of DEP_DONE dp r] parse_named_call [OF _ _ refl, of DEP_EXIT dp r]
    parse_named_call [OF _ _ refl, of DEP_ENDED dp r]
  by (simp add: parse_funccall_def call_name_def eval_nat_numeral)
    (simp add: parse_failed_def [of dp "dp_fail _ _"])

lemma parse_funccall_length: "length (dp_p (parse_funccall r dp)) \<le> length (dp_p dp)"
  using parse_funccall_cases [of dp r] by (auto simp: parse_failed_def call_parsed_def)

lemma parse_funccall_fuel:
  "dp_error dp \<noteq> DEP_OUT_OF_FUEL \<Longrightarrow> dp_error (parse_funccall r dp) \<noteq> DEP_OUT_OF_FUEL"
  using parse_funccall_cases [of dp r] by (auto simp: parse_failed_def call_parsed_def)

lemma parse_length:
  "length (dp_p (parse_expr r n dp)) \<le> length (dp_p dp)"
  "length (dp_p (parse_expr_loop r n dp)) \<le> length (dp_p dp)"
  "length (dp_p (parse_term r n dp)) \<le> length (dp_p dp)"
  "length (dp_p (parse_term_loop r n dp)) \<le> length (dp_p dp)"
  "length (dp_p (parse_factor r n dp)) \<le> length (dp_p dp)"
proof (induction r n dp and r n dp and r n dp and r n dp and r n dp
    rule: parse_expr_parse_expr_loop_parse_term_parse_term_loop_parse_factor.induct)
  case (2 r n dp)
  then show ?case using length_skip_spaces [of "dp_p (parse_term r n dp)"] by simp
next
  case (4 r n dp)
  then show ?case using length_skip_spaces [of "dp_p (parse_term r n (dp_advance 2 dp))"] by auto
next
  case (6 r n dp)
  then show ?case using length_skip_spaces [of "dp_p (parse_factor r n dp)"] by simp
next
  case (8 r n dp)
  then show ?case using length_skip_spaces [of "dp_p (parse_factor r n (dp_advance 2 dp))"] by auto
next
  case (10 r n dp)
  let ?d = "skip_ws dp"
  have d: "length (dp_p ?d) \<le> length (dp_p dp)" by (simp add: length_skip_spaces)
  have f: "length (dp_p (parse_funccall r ?d)) \<le> length (dp_p dp)"
    using parse_funccall_length [of r ?d] d by linarith
  show ?case using 10 d f length_skip_spaces [of "dp_p (parse_expr r n (dp_advance 1 ?d))"]
    by (simp add: Let_def) linarith
qed simp_all

text \<open>
  Three units of fuel per unread character, and a constant, are enough for each
  of the five functions.
\<close>

lemma parse_fuel:
  "3 * length (dp_p dp) + 3 \<le> n \<Longrightarrow> dp_error dp \<noteq> DEP_OUT_OF_FUEL \<Longrightarrow>
   dp_error (parse_expr r n dp) \<noteq> DEP_OUT_OF_FUEL"
  "3 * length (dp_p dp) + 1 \<le> n \<Longrightarrow> dp_error dp \<noteq> DEP_OUT_OF_FUEL \<Longrightarrow>
   dp_error (parse_expr_loop r n dp) \<noteq> DEP_OUT_OF_FUEL"
  "3 * length (dp_p dp) + 2 \<le> n \<Longrightarrow> dp_error dp \<noteq> DEP_OUT_OF_FUEL \<Longrightarrow>
   dp_error (parse_term r n dp) \<noteq> DEP_OUT_OF_FUEL"
  "3 * length (dp_p dp) + 1 \<le> n \<Longrightarrow> dp_error dp \<noteq> DEP_OUT_OF_FUEL \<Longrightarrow>
   dp_error (parse_term_loop r n dp) \<noteq> DEP_OUT_OF_FUEL"
  "3 * length (dp_p dp) + 1 \<le> n \<Longrightarrow> dp_error dp \<noteq> DEP_OUT_OF_FUEL \<Longrightarrow>
   dp_error (parse_factor r n dp) \<noteq> DEP_OUT_OF_FUEL"
proof (induction r n dp and r n dp and r n dp and r n dp and r n dp
    rule: parse_expr_parse_expr_loop_parse_term_parse_term_loop_parse_factor.induct)
  case (2 r n dp)
  then show ?case
    using parse_length(3) [of r n dp] length_skip_spaces [of "dp_p (parse_term r n dp)"] by simp
next
  case (4 r n dp)
  let ?d = "parse_term r n (dp_advance 2 dp)"
  have "3 * (length (dp_p dp) - 2) + 2 \<le> n \<and> 3 * length (skip_spaces (dp_p ?d)) + 1 \<le> n"
    if "looking_at ''||'' dp"
    using looking_at_length [OF that] "4.prems"(1) parse_length(3) [of r n "dp_advance 2 dp"]
      length_skip_spaces [of "dp_p ?d"] by simp linarith
  then show ?case using 4 by auto
next
  case (6 r n dp)
  then show ?case
    using parse_length(5) [of r n dp] length_skip_spaces [of "dp_p (parse_factor r n dp)"] by simp
next
  case (8 r n dp)
  let ?d = "parse_factor r n (dp_advance 2 dp)"
  have "3 * (length (dp_p dp) - 2) + 1 \<le> n \<and> 3 * length (skip_spaces (dp_p ?d)) + 1 \<le> n"
    if "looking_at ''&&'' dp"
    using looking_at_length [OF that] "8.prems"(1) parse_length(5) [of r n "dp_advance 2 dp"]
      length_skip_spaces [of "dp_p ?d"] by simp linarith
  then show ?case using 8 by auto
next
  case (10 r n dp)
  let ?d = "skip_ws dp"
  have d: "length (dp_p ?d) \<le> length (dp_p dp)" by (simp add: length_skip_spaces)
  have "1 \<le> length (dp_p ?d)" if "looking_at ''!'' ?d \<or> looking_at ''('' ?d"
    using that looking_at_length [of "''!''" ?d] looking_at_length [of "''(''" ?d] by auto
  then have l: "3 * length (drop 1 (dp_p ?d)) + 3 \<le> n" if "looking_at ''!'' ?d \<or> looking_at ''('' ?d"
    using that d "10.prems"(1) by (simp del: dp_simps)
  show ?case
  proof (cases "looking_at ''!'' ?d")
    case True
    then show ?thesis using 10 l by (simp add: Let_def)
  next
    case False
    then show ?thesis using 10 l parse_funccall_fuel [of ?d r]
      by (cases "looking_at ''('' ?d") (simp_all add: Let_def)
  qed
qed simp_all

section \<open>Lemmas: the parser accepts the grammar only\<close>

text \<open>
  \<open>parsed gr r dp dp'\<close>: from \<open>dp\<close> to \<open>dp'\<close> a string of the category \<open>gr\<close> was
  read, then perhaps white space, and the postfix form of its condition was
  emitted.
\<close>

definition parsed ::
  "(string \<Rightarrow> dep_expr \<Rightarrow> bool) \<Rightarrow> dep_resolve_fn option \<Rightarrow> string \<Rightarrow> job_dep list \<Rightarrow>
   dep_parser \<Rightarrow> bool" where
  "parsed gr r inp deps dp' \<longleftrightarrow> (\<exists>s w e. inp = s @ w @ dp_p dp' \<and> gr s e \<and> spaces w \<and>
     calls_ok r e \<and> dp_deps dp' = deps @ postfix e)"

lemma spaces_Nil [simp]: "spaces []" and spaces_append [simp]: "spaces (v @ w) \<longleftrightarrow> spaces v \<and> spaces w"
  by (auto simp: spaces_def)

lemma parsed_skip:
  assumes "parsed gr r inp deps dp'"
  shows "parsed gr r inp deps (skip_ws dp')"
proof -
  from assms obtain s w e where o: "inp = s @ w @ dp_p dp'" "gr s e" "spaces w" "calls_ok r e"
    "dp_deps dp' = deps @ postfix e" by (auto simp: parsed_def)
  obtain v where v: "spaces v" "dp_p dp' = v @ skip_spaces (dp_p dp')" using skip_ws_split by blast
  have "inp = s @ (w @ v) @ dp_p (skip_ws dp')" using o(1) v(2) by simp
  then show ?thesis unfolding parsed_def using o v(1) by (metis dp_simps(8) spaces_append)
qed

lemma parsed_weaken: "parsed gr r inp deps dp' \<Longrightarrow> (\<And>s e. gr s e \<Longrightarrow> gr' s e) \<Longrightarrow> parsed gr' r inp deps dp'"
  unfolding parsed_def by blast

lemma parsed_or:
  assumes "parsed gr_expr r inp deps dp" and "looking_at ''||'' dp"
    and t: "parsed gr_term r (drop 2 (dp_p dp)) (dp_deps dp) dp'" and "dp_error dp' = DEP_PARSE_OK"
  shows "parsed gr_expr r inp deps (emit DEP_OR 0 dp')"
proof -
  from assms(1) obtain s w a where a: "inp = s @ w @ dp_p dp" "gr_expr s a" "spaces w" "calls_ok r a"
    "dp_deps dp = deps @ postfix a" by (auto simp: parsed_def)
  from t obtain s' w' b where b: "drop 2 (dp_p dp) = s' @ w' @ dp_p dp'" "gr_term s' b" "spaces w'"
    "calls_ok r b" "dp_deps dp' = dp_deps dp @ postfix b" by (auto simp: parsed_def)
  have "inp = (s @ w @ ''||'' @ s') @ w' @ dp_p dp'"
    using a(1) b(1) looking_at_split [OF assms(2)] by (simp add: numeral_2_eq_2)
  moreover have "gr_expr (s @ w @ ''||'' @ s') (E_or a b)" by (rule gr_expr_or [OF a(2,3) b(2)])
  ultimately show ?thesis unfolding parsed_def using a b assms(4)
    by (intro exI [of _ "s @ w @ ''||'' @ s'"] exI [of _ w'] exI [of _ "E_or a b"])
      (simp add: emit_def)
qed

lemma parsed_and:
  assumes "parsed gr_term r inp deps dp" and "looking_at ''&&'' dp"
    and t: "parsed gr_factor r (drop 2 (dp_p dp)) (dp_deps dp) dp'" and "dp_error dp' = DEP_PARSE_OK"
  shows "parsed gr_term r inp deps (emit DEP_AND 0 dp')"
proof -
  from assms(1) obtain s w a where a: "inp = s @ w @ dp_p dp" "gr_term s a" "spaces w" "calls_ok r a"
    "dp_deps dp = deps @ postfix a" by (auto simp: parsed_def)
  from t obtain s' w' b where b: "drop 2 (dp_p dp) = s' @ w' @ dp_p dp'" "gr_factor s' b" "spaces w'"
    "calls_ok r b" "dp_deps dp' = dp_deps dp @ postfix b" by (auto simp: parsed_def)
  have "inp = (s @ w @ ''&&'' @ s') @ w' @ dp_p dp'"
    using a(1) b(1) looking_at_split [OF assms(2)] by (simp add: numeral_2_eq_2)
  moreover have "gr_term (s @ w @ ''&&'' @ s') (E_and a b)" by (rule gr_term_and [OF a(2,3) b(2)])
  ultimately show ?thesis unfolding parsed_def using a b assms(4)
    by (intro exI [of _ "s @ w @ ''&&'' @ s'"] exI [of _ w'] exI [of _ "E_and a b"])
      (simp add: emit_def)
qed

lemma parsed_not:
  assumes "looking_at ''!'' (skip_ws dp)"
    and "parsed gr_factor r (drop 1 (skip_spaces (dp_p dp))) deps dp'" and "dp_error dp' = DEP_PARSE_OK"
  shows "parsed gr_factor r (dp_p dp) deps (emit DEP_NOT 0 dp')"
proof -
  from assms(2) obtain s w a where a: "drop 1 (skip_spaces (dp_p dp)) = s @ w @ dp_p dp'"
    "gr_factor s a" "spaces w" "calls_ok r a" "dp_deps dp' = deps @ postfix a"
    by (auto simp: parsed_def)
  obtain v where v: "spaces v" "dp_p dp = v @ skip_spaces (dp_p dp)" using skip_ws_split by blast
  have "dp_p dp = (v @ ''!'' @ s) @ w @ dp_p dp'"
    using v(2) a(1) looking_at_split [OF assms(1)] by simp
  then show ?thesis unfolding parsed_def using a assms(3) gr_not [OF v(1) a(2)]
    by (intro exI [of _ "v @ ''!'' @ s"] exI [of _ w] exI [of _ "E_not a"]) (simp add: emit_def)
qed

lemma parsed_paren:
  assumes "looking_at ''('' (skip_ws dp)"
    and "parsed gr_expr r (drop 1 (skip_spaces (dp_p dp))) deps dp'" and "looking_at '')'' dp'"
  shows "parsed gr_factor r (dp_p dp) deps (dp_advance 1 dp')"
proof -
  from assms(2) obtain s w a where a: "drop 1 (skip_spaces (dp_p dp)) = s @ w @ dp_p dp'"
    "gr_expr s a" "spaces w" "calls_ok r a" "dp_deps dp' = deps @ postfix a"
    by (auto simp: parsed_def)
  obtain v where v: "spaces v" "dp_p dp = v @ skip_spaces (dp_p dp)" using skip_ws_split by blast
  have "dp_p dp = (v @ ''('' @ s @ w @ '')'') @ [] @ dp_p (dp_advance 1 dp')"
    using v(2) a(1) looking_at_split [OF assms(1)] looking_at_split [OF assms(3)] by simp
  then show ?thesis unfolding parsed_def using a gr_paren [OF v(1) a(2,3)]
    by (intro exI [of _ "v @ ''('' @ s @ w @ '')''"] exI [of _ "[]"] exI [of _ a]) simp
qed

lemma parsed_call:
  assumes "call_parsed r (skip_ws dp) dp'" and "dp_error dp = DEP_PARSE_OK"
  shows "parsed gr_factor r (dp_p dp) (dp_deps dp) dp'"
proof -
  from assms(1) obtain s t j rest where c: "skip_spaces (dp_p dp) = s @ rest"
    "\<forall>w. spaces w \<longrightarrow> gr_factor (w @ s) (E_call t j)" "calls_ok r (E_call t j)"
    "dp' = emit t j (skip_ws dp\<lparr>dp_p := rest\<rparr>)" by (auto simp: call_parsed_def)
  obtain v where v: "spaces v" "dp_p dp = v @ skip_spaces (dp_p dp)" using skip_ws_split by blast
  show ?thesis unfolding parsed_def using c v assms(2)
    by (intro exI [of _ "v @ s"] exI [of _ "[]"] exI [of _ "E_call t j"]) (simp add: emit_def skip_ws_def)
qed

lemma parse_sound:
  "dp_error (parse_expr r n dp) = DEP_PARSE_OK \<Longrightarrow>
   dp_error dp = DEP_PARSE_OK \<and> parsed gr_expr r (dp_p dp) (dp_deps dp) (parse_expr r n dp)"
  "dp_error (parse_expr_loop r n dp) = DEP_PARSE_OK \<Longrightarrow>
   dp_error dp = DEP_PARSE_OK \<and> (\<forall>inp deps. parsed gr_expr r inp deps dp \<longrightarrow>
     parsed gr_expr r inp deps (parse_expr_loop r n dp))"
  "dp_error (parse_term r n dp) = DEP_PARSE_OK \<Longrightarrow>
   dp_error dp = DEP_PARSE_OK \<and> parsed gr_term r (dp_p dp) (dp_deps dp) (parse_term r n dp)"
  "dp_error (parse_term_loop r n dp) = DEP_PARSE_OK \<Longrightarrow>
   dp_error dp = DEP_PARSE_OK \<and> (\<forall>inp deps. parsed gr_term r inp deps dp \<longrightarrow>
     parsed gr_term r inp deps (parse_term_loop r n dp))"
  "dp_error (parse_factor r n dp) = DEP_PARSE_OK \<Longrightarrow>
   dp_error dp = DEP_PARSE_OK \<and> parsed gr_factor r (dp_p dp) (dp_deps dp) (parse_factor r n dp)"
proof (induction r n dp and r n dp and r n dp and r n dp and r n dp
    rule: parse_expr_parse_expr_loop_parse_term_parse_term_loop_parse_factor.induct)
  case (2 r n dp)
  let ?t = "parse_term r n dp"
  have ok: "dp_error (parse_expr_loop r n (skip_ws ?t)) = DEP_PARSE_OK" using "2.prems" by simp
  note loop = "2.IH"(2) [OF ok]
  have "dp_error dp = DEP_PARSE_OK \<and> parsed gr_term r (dp_p dp) (dp_deps dp) ?t"
    using "2.IH"(1) loop by simp
  moreover have "parsed gr_expr r (dp_p dp) (dp_deps dp) (skip_ws ?t)"
    using calculation parsed_skip parsed_weaken gr_expr_term by blast
  ultimately show ?case using loop by simp
next
  case (4 r n dp)
  show ?case
  proof (cases "dp_error dp = DEP_PARSE_OK \<and> looking_at ''||'' dp")
    case True
    let ?t = "parse_term r n (dp_advance 2 dp)"
    have ok: "dp_error (parse_expr_loop r n (skip_ws (emit DEP_OR 0 ?t))) = DEP_PARSE_OK"
      using "4.prems" True by simp
    note loop = "4.IH"(2) [OF True ok]
    then have et: "dp_error ?t = DEP_PARSE_OK" by simp
    have t: "parsed gr_term r (drop 2 (dp_p dp)) (dp_deps dp) ?t" using "4.IH"(1) [OF True et] by simp
    show ?thesis using True loop parsed_skip [OF parsed_or [OF _ _ t et]] by simp
  next
    case False
    then show ?thesis using "4.prems" by auto
  qed
next
  case (6 r n dp)
  let ?t = "parse_factor r n dp"
  have ok: "dp_error (parse_term_loop r n (skip_ws ?t)) = DEP_PARSE_OK" using "6.prems" by simp
  note loop = "6.IH"(2) [OF ok]
  have "dp_error dp = DEP_PARSE_OK \<and> parsed gr_factor r (dp_p dp) (dp_deps dp) ?t"
    using "6.IH"(1) loop by simp
  moreover have "parsed gr_term r (dp_p dp) (dp_deps dp) (skip_ws ?t)"
    using calculation parsed_skip parsed_weaken gr_term_factor by blast
  ultimately show ?case using loop by simp
next
  case (8 r n dp)
  show ?case
  proof (cases "dp_error dp = DEP_PARSE_OK \<and> looking_at ''&&'' dp")
    case True
    let ?t = "parse_factor r n (dp_advance 2 dp)"
    have ok: "dp_error (parse_term_loop r n (skip_ws (emit DEP_AND 0 ?t))) = DEP_PARSE_OK"
      using "8.prems" True by simp
    note loop = "8.IH"(2) [OF True ok]
    then have et: "dp_error ?t = DEP_PARSE_OK" by simp
    have t: "parsed gr_factor r (drop 2 (dp_p dp)) (dp_deps dp) ?t" using "8.IH"(1) [OF True et] by simp
    show ?thesis using True loop parsed_skip [OF parsed_and [OF _ _ t et]] by simp
  next
    case False
    then show ?thesis using "8.prems" by auto
  qed
next
  case (10 r n dp)
  let ?d = "skip_ws dp"
  have e: "dp_error dp = DEP_PARSE_OK" using "10.prems" by (auto simp: Let_def split: if_splits)
  consider (not) "looking_at ''!'' ?d" | (paren) "\<not> looking_at ''!'' ?d" "looking_at ''('' ?d"
    | (call) "\<not> looking_at ''!'' ?d" "\<not> looking_at ''('' ?d" by blast
  then show ?case
  proof cases
    case not
    then have "dp_error (parse_factor r n (dp_advance 1 ?d)) = DEP_PARSE_OK"
      using "10.prems" e by (simp add: Let_def)
    then show ?thesis using "10.IH"(1) [OF refl _ not] not e parsed_not [OF not] by (simp add: Let_def)
  next
    case paren
    let ?x = "parse_expr r n (dp_advance 1 ?d)"
    have x: "dp_error ?x = DEP_PARSE_OK" "looking_at '')'' (skip_ws ?x)"
      using "10.prems" e paren by (auto simp: Let_def split: if_splits)
    have "parsed gr_expr r (drop 1 (skip_spaces (dp_p dp))) (dp_deps dp) (skip_ws ?x)"
      using "10.IH"(2) [OF refl _ paren x(1)] e by (simp add: parsed_skip)
    then show ?thesis using paren e x parsed_paren [OF paren(2) _ x(2)] by (simp add: Let_def)
  next
    case call
    then have "dp_error (parse_funccall r ?d) = DEP_PARSE_OK" using "10.prems" e by (simp add: Let_def)
    then have "call_parsed r ?d (parse_funccall r ?d)"
      using parse_funccall_cases [of ?d r] by (auto simp: parse_failed_def)
    then show ?thesis using parsed_call e call by (simp add: Let_def)
  qed
qed simp_all

section \<open>Lemmas: what the printer writes is parsed back\<close>

definition ids_in_range :: "dep_expr \<Rightarrow> bool" where
  "ids_in_range e \<longleftrightarrow> (\<forall>(t, j) \<in> calls e. in_s64 j)"

lemma ids_in_range_simps [simp]:
  "ids_in_range (E_call t j) = in_s64 j" "ids_in_range (E_not a) = ids_in_range a"
  "ids_in_range (E_and a b) \<longleftrightarrow> ids_in_range a \<and> ids_in_range b"
  "ids_in_range (E_or a b) \<longleftrightarrow> ids_in_range a \<and> ids_in_range b"
  by (auto simp: ids_in_range_def)

lemma skip_spaces_char [simp]: "\<not> isspace c \<Longrightarrow> skip_spaces (c # s) = c # s"
  by (simp add: skip_spaces_def)

lemma punct_not_space [simp]:
  "\<not> isspace CHR ''!''" "\<not> isspace CHR ''(''" "\<not> isspace CHR '')''" "\<not> isspace CHR ''|''"
  "\<not> isspace CHR ''&''" "\<not> isspace CHR ''d''" "\<not> isspace CHR ''e''"
  by (simp_all add: isspace_def)

lemma parse_funccall_print:
  assumes "calls_ok r (E_call t j)" "in_s64 j" "dp_error dp = DEP_PARSE_OK"
    and "dp_p dp = call_name t @ ''('' @ fmt_ld j @ '')'' @ rest"
  shows "parse_funccall r dp =
    dp\<lparr>dp_p := rest, dp_deps := dp_deps dp @ [\<lparr>dep_kind = t, dep_job_id = j\<rparr>]\<rparr>"
proof -
  have st: "strtoll (fmt_ld j @ '')'' @ rest) = Some (j, False, '')'' @ rest)"
    by (rule strtoll_fmt_ld) (use assms(2) in \<open>auto simp: isdigit_def\<close>)
  have r: "resolves r j" using assms(1) by (simp add: resolves_def)
  have "parse_call_args r t (dp_advance (length (call_name t)) dp) =
      dp\<lparr>dp_p := rest, dp_deps := dp_deps dp @ [\<lparr>dep_kind = t, dep_job_id = j\<rparr>]\<rparr>"
    using st r assms(3,4)
    by (auto simp: parse_call_args_def parse_call_close_def Let_def looking_at_def resolves_def
        emit_def skip_ws_def dp_advance_def split: option.splits)
  then show ?thesis using assms(1,4)
    by (auto simp: parse_funccall_def call_name_def looking_at_def eval_nat_numeral)
qed

lemma hd_dep_print: "\<exists>c s. dep_print e = c # s \<and> \<not> isspace c"
  by (induction e) (auto simp: call_name_def split: dep_type.split)

text \<open>One term, and the two binary operators, between the parentheses the printer writes.\<close>

lemma parse_term_single:
  assumes "parse_factor r n dp = e" "skip_ws e = e" "\<not> looking_at ''&&'' e" "0 < n"
  shows "parse_term r (Suc n) dp = e"
  using assms by (cases n) (simp_all only: parse_term.simps parse_term_loop.simps, simp_all)

lemma parse_term_and:
  assumes "parse_factor r (Suc n) dp = e1" "skip_ws e1 = e1" "looking_at ''&&'' e1"
    "dp_error e1 = DEP_PARSE_OK" "parse_factor r n (dp_advance 2 e1) = e2"
    "skip_ws (emit DEP_AND 0 e2) = e3" "\<not> looking_at ''&&'' e3" "0 < n"
  shows "parse_term r (Suc (Suc n)) dp = e3"
proof -
  obtain m where m: "n = Suc m" using assms(8) by (cases n) auto
  have "parse_term r (Suc (Suc n)) dp = parse_term_loop r (Suc n) e1"
    using assms(1,2) by (simp only: parse_term.simps)
  also have "\<dots> = parse_term_loop r n e3"
    using assms(3-6) by (simp only: parse_term_loop.simps) simp
  also have "\<dots> = e3" using assms(7) unfolding m by (simp only: parse_term_loop.simps) simp
  finally show ?thesis .
qed

lemma parse_expr_single:
  assumes "parse_term r n dp = e" "skip_ws e = e" "\<not> looking_at ''||'' e" "0 < n"
  shows "parse_expr r (Suc n) dp = e"
  using assms by (cases n) (simp_all only: parse_expr.simps parse_expr_loop.simps, simp_all)

lemma parse_expr_or:
  assumes "parse_term r (Suc n) dp = e1" "skip_ws e1 = e1" "looking_at ''||'' e1"
    "dp_error e1 = DEP_PARSE_OK" "parse_term r n (dp_advance 2 e1) = e2"
    "skip_ws (emit DEP_OR 0 e2) = e3" "\<not> looking_at ''||'' e3" "0 < n"
  shows "parse_expr r (Suc (Suc n)) dp = e3"
proof -
  obtain m where m: "n = Suc m" using assms(8) by (cases n) auto
  have "parse_expr r (Suc (Suc n)) dp = parse_expr_loop r (Suc n) e1"
    using assms(1,2) by (simp only: parse_expr.simps)
  also have "\<dots> = parse_expr_loop r n e3"
    using assms(3-6) by (simp only: parse_expr_loop.simps) simp
  also have "\<dots> = e3" using assms(7) unfolding m by (simp only: parse_expr_loop.simps) simp
  finally show ?thesis .
qed

lemma parse_factor_paren:
  assumes "dp_p dp = ''('' @ inner" "dp_error dp = DEP_PARSE_OK"
    "parse_expr r n (dp\<lparr>dp_p := inner\<rparr>) = e" "dp_p e = '')'' @ rest" "dp_error e = DEP_PARSE_OK"
  shows "parse_factor r (Suc n) dp = e\<lparr>dp_p := rest\<rparr>"
proof -
  have "skip_ws dp = dp" "\<not> looking_at ''!'' dp" "looking_at ''('' dp" "dp_advance 1 dp = dp\<lparr>dp_p := inner\<rparr>"
    "skip_ws e = e" "looking_at '')'' e" "dp_advance 1 e = e\<lparr>dp_p := rest\<rparr>"
    using assms(1,4) by (auto simp: skip_ws_def looking_at_def dp_advance_def)
  then show ?thesis using assms(2,3,5) by (simp only: parse_factor.simps Let_def) simp
qed

lemma parse_factor_print_and:
  assumes ok: "dp_error dp = DEP_PARSE_OK" and p: "dp_p dp = dep_print (E_and a b) @ rest" and m: "0 < m"
    and A: "parse_factor r (Suc m) (dp\<lparr>dp_p := dep_print a @ ''&&'' @ dep_print b @ '')'' @ rest\<rparr>) =
      dp\<lparr>dp_p := ''&&'' @ dep_print b @ '')'' @ rest, dp_deps := dp_deps dp @ postfix a\<rparr>"
    and B: "parse_factor r m (dp\<lparr>dp_p := dep_print b @ '')'' @ rest, dp_deps := dp_deps dp @ postfix a\<rparr>) =
      dp\<lparr>dp_p := '')'' @ rest, dp_deps := (dp_deps dp @ postfix a) @ postfix b\<rparr>"
  shows "parse_factor r (Suc (Suc (Suc (Suc m)))) dp =
    dp\<lparr>dp_p := rest, dp_deps := dp_deps dp @ postfix (E_and a b)\<rparr>"
proof -
  let ?inner = "dep_print a @ ''&&'' @ dep_print b @ '')'' @ rest"
  define e1 where "e1 = dp\<lparr>dp_p := ''&&'' @ dep_print b @ '')'' @ rest, dp_deps := dp_deps dp @ postfix a\<rparr>"
  define e2 where "e2 = dp\<lparr>dp_p := '')'' @ rest, dp_deps := (dp_deps dp @ postfix a) @ postfix b\<rparr>"
  define e3 where "e3 = dp\<lparr>dp_p := '')'' @ rest, dp_deps := dp_deps dp @ postfix (E_and a b)\<rparr>"
  have "dp_advance 2 e1 = dp\<lparr>dp_p := dep_print b @ '')'' @ rest, dp_deps := dp_deps dp @ postfix a\<rparr>"
    by (rule dep_parser.equality) (simp_all add: e1_def dp_advance_def)
  then have B': "parse_factor r m (dp_advance 2 e1) = e2" using B by (simp only: e2_def)
  have "parse_term r (Suc (Suc m)) (dp\<lparr>dp_p := ?inner\<rparr>) = e3"
    by (rule parse_term_and [OF A [folded e1_def] _ _ _ B'])
      (use ok m in \<open>auto simp: e1_def e2_def e3_def skip_ws_def looking_at_def emit_def\<close>)
  then have "parse_expr r (Suc (Suc (Suc m))) (dp\<lparr>dp_p := ?inner\<rparr>) = e3"
    by (rule parse_expr_single) (auto simp: e3_def skip_ws_def looking_at_def)
  from parse_factor_paren [OF _ ok this, of rest] show ?thesis using p ok by (simp add: e3_def)
qed

lemma parse_factor_print_or:
  assumes ok: "dp_error dp = DEP_PARSE_OK" and p: "dp_p dp = dep_print (E_or a b) @ rest" and m: "0 < m"
    and A: "parse_factor r (Suc m) (dp\<lparr>dp_p := dep_print a @ ''||'' @ dep_print b @ '')'' @ rest\<rparr>) =
      dp\<lparr>dp_p := ''||'' @ dep_print b @ '')'' @ rest, dp_deps := dp_deps dp @ postfix a\<rparr>"
    and B: "parse_factor r m (dp\<lparr>dp_p := dep_print b @ '')'' @ rest, dp_deps := dp_deps dp @ postfix a\<rparr>) =
      dp\<lparr>dp_p := '')'' @ rest, dp_deps := (dp_deps dp @ postfix a) @ postfix b\<rparr>"
  shows "parse_factor r (Suc (Suc (Suc (Suc m)))) dp =
    dp\<lparr>dp_p := rest, dp_deps := dp_deps dp @ postfix (E_or a b)\<rparr>"
proof -
  let ?inner = "dep_print a @ ''||'' @ dep_print b @ '')'' @ rest"
  define e1 where "e1 = dp\<lparr>dp_p := ''||'' @ dep_print b @ '')'' @ rest, dp_deps := dp_deps dp @ postfix a\<rparr>"
  define e2 where "e2 = dp\<lparr>dp_p := '')'' @ rest, dp_deps := (dp_deps dp @ postfix a) @ postfix b\<rparr>"
  define e3 where "e3 = dp\<lparr>dp_p := '')'' @ rest, dp_deps := dp_deps dp @ postfix (E_or a b)\<rparr>"
  have "dp_advance 2 e1 = dp\<lparr>dp_p := dep_print b @ '')'' @ rest, dp_deps := dp_deps dp @ postfix a\<rparr>"
    by (rule dep_parser.equality) (simp_all add: e1_def dp_advance_def)
  then have "parse_factor r m (dp_advance 2 e1) = e2" using B by (simp only: e2_def)
  then have B': "parse_term r (Suc m) (dp_advance 2 e1) = e2"
    by (rule parse_term_single) (use m in \<open>auto simp: e2_def skip_ws_def looking_at_def\<close>)
  have A': "parse_term r (Suc (Suc m)) (dp\<lparr>dp_p := ?inner\<rparr>) = e1"
    by (rule parse_term_single [OF A [folded e1_def]]) (auto simp: e1_def skip_ws_def looking_at_def)
  have "parse_expr r (Suc (Suc (Suc m))) (dp\<lparr>dp_p := ?inner\<rparr>) = e3"
    by (rule parse_expr_or [OF A' _ _ _ B'])
      (use ok m in \<open>auto simp: e1_def e2_def e3_def skip_ws_def looking_at_def emit_def\<close>)
  from parse_factor_paren [OF _ ok this, of rest] show ?thesis using p ok by (simp add: e3_def)
qed

lemma parse_factor_print:
  assumes "calls_ok r e" "ids_in_range e" "dp_error dp = DEP_PARSE_OK"
    and "dp_p dp = dep_print e @ rest" and "3 * length (dp_p dp) + 1 \<le> n"
  shows "parse_factor r n dp = dp\<lparr>dp_p := rest, dp_deps := dp_deps dp @ postfix e\<rparr>"
  using assms
proof (induction e arbitrary: n dp rest)
  case (E_call t j)
  obtain n' where n: "n = Suc n'" using E_call.prems(5) by (cases n) auto
  have "skip_ws dp = dp" using E_call.prems(1,4)
    by (auto simp: skip_ws_def call_name_def)
  moreover have "\<not> looking_at ''!'' dp" "\<not> looking_at ''('' dp"
    using E_call.prems(1,4) by (auto simp: looking_at_def call_name_def)
  ultimately show ?case
    using parse_funccall_print [of r t j dp rest] E_call.prems by (simp add: n Let_def)
next
  case (E_not a)
  obtain n' where n: "n = Suc n'" using E_not.prems(5) by (cases n) auto
  have "skip_ws dp = dp" "looking_at ''!'' dp" using E_not.prems(4)
    by (auto simp: skip_ws_def looking_at_def)
  moreover have "parse_factor r n' (dp_advance 1 dp) =
      (dp_advance 1 dp)\<lparr>dp_p := rest, dp_deps := dp_deps dp @ postfix a\<rparr>"
    using E_not.prems by (subst E_not.IH [of _ rest]) (auto simp: n)
  ultimately show ?case using E_not.prems(3) by (simp add: n Let_def emit_def dp_advance_def)
next
  case (E_and a b)
  obtain m where n: "n = Suc (Suc (Suc (Suc m)))" "3 * length (dep_print b @ '')'' @ rest) + 1 \<le> m"
    "3 * length (dep_print a @ ''&&'' @ dep_print b @ '')'' @ rest) + 1 \<le> Suc m"
    using E_and.prems(4,5) by (intro that [of "n - 4"]) simp_all
  let ?r1 = "''&&'' @ dep_print b @ '')'' @ rest" and ?r2 = "'')'' @ rest"
  let ?d1 = "dp\<lparr>dp_p := dep_print a @ ?r1\<rparr>"
  let ?d2 = "dp\<lparr>dp_p := dep_print b @ ?r2, dp_deps := dp_deps dp @ postfix a\<rparr>"
  have ok: "calls_ok r a" "calls_ok r b" "ids_in_range a" "ids_in_range b"
    "dp_error ?d1 = DEP_PARSE_OK" "dp_error ?d2 = DEP_PARSE_OK" "0 < m"
    using E_and.prems(1-3) n(2) by simp_all
  have A: "parse_factor r (Suc m) ?d1 = dp\<lparr>dp_p := ?r1, dp_deps := dp_deps dp @ postfix a\<rparr>"
    using E_and.IH(1) [OF ok(1,3,5), of ?r1 "Suc m"] n(3) by (simp del: parse_factor.simps)
  have B: "parse_factor r m ?d2 = dp\<lparr>dp_p := ?r2, dp_deps := (dp_deps dp @ postfix a) @ postfix b\<rparr>"
    using E_and.IH(2) [OF ok(2,4,6), of ?r2 m] n(2) by (simp del: parse_factor.simps)
  show ?case unfolding n(1) by (rule parse_factor_print_and [OF E_and.prems(3,4) ok(7) A B])
next
  case (E_or a b)
  obtain m where n: "n = Suc (Suc (Suc (Suc m)))" "3 * length (dep_print b @ '')'' @ rest) + 1 \<le> m"
    "3 * length (dep_print a @ ''||'' @ dep_print b @ '')'' @ rest) + 1 \<le> Suc m"
    using E_or.prems(4,5) by (intro that [of "n - 4"]) simp_all
  let ?r1 = "''||'' @ dep_print b @ '')'' @ rest" and ?r2 = "'')'' @ rest"
  let ?d1 = "dp\<lparr>dp_p := dep_print a @ ?r1\<rparr>"
  let ?d2 = "dp\<lparr>dp_p := dep_print b @ ?r2, dp_deps := dp_deps dp @ postfix a\<rparr>"
  have ok: "calls_ok r a" "calls_ok r b" "ids_in_range a" "ids_in_range b"
    "dp_error ?d1 = DEP_PARSE_OK" "dp_error ?d2 = DEP_PARSE_OK" "0 < m"
    using E_or.prems(1-3) n(2) by simp_all
  have A: "parse_factor r (Suc m) ?d1 = dp\<lparr>dp_p := ?r1, dp_deps := dp_deps dp @ postfix a\<rparr>"
    using E_or.IH(1) [OF ok(1,3,5), of ?r1 "Suc m"] n(3) by (simp del: parse_factor.simps)
  have B: "parse_factor r m ?d2 = dp\<lparr>dp_p := ?r2, dp_deps := (dp_deps dp @ postfix a) @ postfix b\<rparr>"
    using E_or.IH(2) [OF ok(2,4,6), of ?r2 m] n(2) by (simp del: parse_factor.simps)
  show ?case unfolding n(1) by (rule parse_factor_print_or [OF E_or.prems(3,4) ok(7) A B])
qed

lemma dep_parse_print:
  assumes "calls_ok r e" "ids_in_range e"
  shows "dep_parse (dep_print e) r = (DEP_PARSE_OK, postfix e)"
proof -
  let ?n = "3 * length (dep_print e) + 1"
  let ?dp = "\<lparr>dp_p = dep_print e, dp_deps = [], dp_error = DEP_PARSE_OK\<rparr>"
  let ?e = "\<lparr>dp_p = [], dp_deps = postfix e, dp_error = DEP_PARSE_OK\<rparr>"
  have "parse_factor r ?n ?dp = ?e" using parse_factor_print [OF assms, of ?dp "[]" ?n] by simp
  then have "parse_term r (Suc ?n) ?dp = ?e"
    by (rule parse_term_single) (auto simp: skip_ws_def looking_at_def skip_spaces_def)
  then have x: "parse_expr r (Suc (Suc ?n)) ?dp = ?e"
    by (rule parse_expr_single) (auto simp: skip_ws_def looking_at_def skip_spaces_def)
  have n: "3 * length (dep_print e) + 3 = Suc (Suc ?n)" by simp
  show ?thesis unfolding dep_parse_def n x by (simp add: Let_def skip_ws_def skip_spaces_def)
qed

section \<open>Properties\<close>

text \<open>
  C24. The parser always returns a verdict: three units of fuel per character are
  enough for every input string, so the recursion of the C functions ends; and
  on any error the caller's list is left empty.
\<close>

theorem dep_parse_terminates:
  "fst (dep_parse str r) \<noteq> DEP_OUT_OF_FUEL \<and>
   (fst (dep_parse str r) = DEP_PARSE_OK \<or> snd (dep_parse str r) = [])"
  using parse_fuel(1) [of "\<lparr>dp_p = str, dp_deps = [], dp_error = DEP_PARSE_OK\<rparr>" "3 * length str + 3" r]
  by (simp add: dep_parse_def Let_def)

text \<open>
  C22. Soundness of the parser and of the evaluation. A string the parser accepts
  belongs to the documented grammar (so \<open>&&\<close> binds tighter than \<open>||\<close>), every job
  it names is known to the resolver, and evaluating the emitted postfix list
  computes exactly the value of that condition whenever it needs at most sixteen
  stack cells; a condition that needs more overruns the array.
\<close>

theorem dep_parse_eval_sound:
  assumes "dep_parse str r = (DEP_PARSE_OK, deps)"
  shows "\<exists>s w e. str = s @ w \<and> spaces w \<and> gr_expr s e \<and> calls_ok r e \<and> deps = postfix e \<and>
    dep_list_eval deps check =
      (if cells e \<le> DEP_MAX_STACK then Inr (expr_value check e) else Inl Stack_overflow)"
proof -
  let ?dp = "\<lparr>dp_p = str, dp_deps = [], dp_error = DEP_PARSE_OK\<rparr>"
  let ?x = "parse_expr r (3 * length str + 3) ?dp"
  have ok: "dp_error ?x = DEP_PARSE_OK" "skip_spaces (dp_p ?x) = []" "deps = dp_deps ?x"
    using assms by (auto simp: dep_parse_def Let_def split: if_splits)
  from parse_sound(1) [OF ok(1)] have "parsed gr_expr r str [] (skip_ws ?x)"
    by (simp add: parsed_skip)
  then obtain s w e where "str = s @ w" "gr_expr s e" "spaces w" "calls_ok r e" "deps = postfix e"
    using ok by (auto simp: parsed_def)
  then show ?thesis using dep_list_eval_postfix by blast
qed

definition sample_cond :: dep_expr where
  "sample_cond = E_or (E_call DEP_DONE 1) (E_and (E_call DEP_EXIT 2) (E_not (E_call DEP_ENDED 3)))"

theorem dep_parse_eval_sound_witness:
  "\<exists>e. snd (dep_parse (dep_print sample_cond) None) = postfix e \<and> calls_ok None e"
  using dep_parse_eval_sound [of "dep_print sample_cond" None "postfix sample_cond" "\<lambda>_ _. 1"]
    dep_parse_print [of None sample_cond]
  by (auto simp: sample_cond_def in_s64_def)

text \<open>
  C23. Round trip: every condition, printed, is accepted by the parser and comes
  back as its own postfix form, for calls on known jobs.
\<close>

theorem dep_print_parse_roundtrip:
  assumes "calls_ok r e" and "ids_in_range e"
  shows "dep_parse (dep_print e) r = (DEP_PARSE_OK, postfix e)"
  using assms by (rule dep_parse_print)

theorem dep_print_parse_roundtrip_witness:
  "dep_parse ''(done(1)&&!exit(2))'' (Some (\<lambda>j. j < 3)) =
   (DEP_PARSE_OK, postfix (E_and (E_call DEP_DONE 1) (E_not (E_call DEP_EXIT 2))))"
  using dep_print_parse_roundtrip [of "Some (\<lambda>j. j < 3)"
      "E_and (E_call DEP_DONE 1) (E_not (E_call DEP_EXIT 2))"]
  by (simp add: in_s64_def call_name_def fmt_ld_def fmt_nat.simps digit_char_lits)

text \<open>
  C32. The parser does not bound the depth that the evaluation can hold: a
  conjunction nested seventeen deep to the right is accepted, and evaluating it
  writes past the sixteen cells of the stack array.
\<close>

fun nested_cond :: "nat \<Rightarrow> dep_expr" where
  "nested_cond 0 = E_call DEP_DONE 1"
| "nested_cond (Suc n) = E_and (E_call DEP_DONE 1) (nested_cond n)"

theorem dep_eval_overflow:
  "let (st, deps) = dep_parse (dep_print (nested_cond 16)) None in
   st = DEP_PARSE_OK \<and> dep_list_eval deps check = Inl Stack_overflow"
proof -
  have ok: "calls_ok None (nested_cond n)" "ids_in_range (nested_cond n)" "cells (nested_cond n) = n + 1" for n
    by (induction n) (auto simp: in_s64_def)
  show ?thesis using dep_parse_print [OF ok(1,2), of 16] dep_list_eval_postfix [OF ok(1), of 16]
    by (simp add: ok(3) DEP_MAX_STACK_def)
qed

end
