(* ===== verification/Log.thy ===== *)
theory Log
  imports Cstring "HOL-Library.Monad_Syntax"
begin

text \<open>
  The event log (\<open>src/batch/lib/log.c\<close>, \<open>include/batch/lib/log.h\<close>): one text line
  per event, a header (name, version, time) and a payload of numbers and quoted
  strings. Writers give the line they print, \<open>None\<close> when the assertion on the
  time fails; readers work on the text that is left. Strings are printed
  between quotes without escaping, so the round trip needs strings without
  quotes and line breaks.
\<close>

section \<open>Event records\<close>

datatype event_type =
    EVENT_NULL | EVENT_JOB_NEW | EVENT_JOB_START | EVENT_JOB_FORK | EVENT_JOB_SIGNAL
  | EVENT_JOB_FINISH | EVENT_JOB_PEND_SUSP | EVENT_JOB_PEND_RESUME | EVENT_JOB_SUSP
  | EVENT_JOB_MOVE | EVENT_JOB_PRIORITY | EVENT_JOB_PEND

record event_rec =
  rec_version :: int
  rec_type :: event_type
  rec_time :: int
  rec_rest :: string

record log_job_new =
  ln_job_id :: int
  ln_array_id :: int
  ln_array_index :: int
  ln_array_start :: int
  ln_array_end :: int
  ln_array_stride :: int
  ln_uid :: int
  ln_gid :: int
  ln_state :: int
  ln_priority :: int
  ln_submit_time :: int
  ln_begin_time :: int
  ln_term_time :: int
  ln_num_cpu :: int
  ln_num_hosts :: int
  ln_num_gpus :: int
  ln_mem_mb :: int
  ln_storage_mb :: int
  ln_flags :: int
  ln_username :: string
  ln_job_name :: string
  ln_queue :: string
  ln_project_name :: string
  ln_gpu_model :: string
  ln_machines :: string
  ln_tokenpool :: string
  ln_depend_cond :: string

record log_job_start =
  ls_job_id :: int
  ls_dispatch_time :: int
  ls_nhosts :: int
  ls_cpus_per_host :: int
  ls_gpus_per_host :: int
  ls_gpu_model :: string
  ls_gpu_assigned :: string
  ls_hosts :: string

record log_job_fork =
  lf_job_id :: int
  lf_job_pid :: int
  lf_fork_time :: int

record log_job_signal =
  lg_job_id :: int
  lg_signal_num :: int
  lg_uid :: int
  lg_signal_time :: int

record log_job_finish =
  le_job_id :: int
  le_uid :: int
  le_state :: int
  le_exit_status :: int
  le_end_time :: int

text \<open>The events that carry only a job and a time: pend-suspend, pend-resume, suspend, pend.\<close>

record log_job_simple =
  lo_job_id :: int
  lo_event_time :: int

record log_job_move =
  lm_job_id :: int
  lm_event_time :: int
  lm_from_queue :: string
  lm_to_queue :: string

record log_job_priority =
  lp_job_id :: int
  lp_event_time :: int
  lp_old_priority :: int
  lp_new_priority :: int

section \<open>Printing\<close>

definition LOG_VERSION :: int where
  "LOG_VERSION = 1"

fun event_name :: "event_type \<Rightarrow> string" where
  "event_name EVENT_NULL = ''NULL''"
| "event_name EVENT_JOB_NEW = ''JOB_NEW''"
| "event_name EVENT_JOB_START = ''JOB_START''"
| "event_name EVENT_JOB_FORK = ''JOB_FORK''"
| "event_name EVENT_JOB_SIGNAL = ''JOB_SIGNAL''"
| "event_name EVENT_JOB_FINISH = ''JOB_FINISH''"
| "event_name EVENT_JOB_PEND_SUSP = ''JOB_PEND_SUSP''"
| "event_name EVENT_JOB_PEND_RESUME = ''JOB_PEND_RESUME''"
| "event_name EVENT_JOB_SUSP = ''JOB_SUSP''"
| "event_name EVENT_JOB_MOVE = ''JOB_MOVE''"
| "event_name EVENT_JOB_PRIORITY = ''JOB_PRIORITY''"
| "event_name EVENT_JOB_PEND = ''JOB_PEND''"

definition newline :: string where
  "newline = [CHR 0x0A]"

definition quote_ch :: char where
  "quote_ch = CHR 0x22"

definition write_hdr :: "event_type \<Rightarrow> int \<Rightarrow> string option" where
  "write_hdr t tm =
     (if 0 < tm then Some (event_name t @ '' '' @ fmt_ld LOG_VERSION @ '' '' @ fmt_ld tm) else None)"

definition write_num :: "int \<Rightarrow> string" where
  "write_num i = '' '' @ fmt_ld i"

definition write_qstr :: "string \<Rightarrow> string" where
  "write_qstr s = '' '' @ [quote_ch] @ s @ [quote_ch]"

definition log_write_job_new :: "log_job_new \<Rightarrow> string option" where
  "log_write_job_new j =
     map_option (\<lambda>h. h @
       write_num (ln_job_id j) @ write_num (ln_array_id j) @ write_num (ln_array_index j) @
       write_num (ln_array_start j) @ write_num (ln_array_end j) @ write_num (ln_array_stride j) @
       write_num (ln_uid j) @ write_num (ln_gid j) @ write_num (ln_state j) @
       write_num (ln_priority j) @ write_num (ln_begin_time j) @ write_num (ln_term_time j) @
       write_num (ln_num_cpu j) @ write_num (ln_num_hosts j) @ write_num (ln_num_gpus j) @
       write_num (ln_mem_mb j) @ write_num (ln_storage_mb j) @ write_num (ln_flags j) @
       write_qstr (ln_username j) @ write_qstr (ln_job_name j) @ write_qstr (ln_queue j) @
       write_qstr (ln_project_name j) @ write_qstr (ln_gpu_model j) @ write_qstr (ln_machines j) @
       write_qstr (ln_tokenpool j) @ write_qstr (ln_depend_cond j) @ newline)
     (write_hdr EVENT_JOB_NEW (ln_submit_time j))"

definition log_write_job_start :: "log_job_start \<Rightarrow> string option" where
  "log_write_job_start j =
     map_option (\<lambda>h. h @
       write_num (ls_job_id j) @ write_num (ls_nhosts j) @ write_num (ls_cpus_per_host j) @
       write_num (ls_gpus_per_host j) @
       write_qstr (ls_gpu_model j) @ write_qstr (ls_gpu_assigned j) @ write_qstr (ls_hosts j) @ newline)
     (write_hdr EVENT_JOB_START (ls_dispatch_time j))"

definition log_write_job_fork :: "log_job_fork \<Rightarrow> string option" where
  "log_write_job_fork j =
     map_option (\<lambda>h. h @ write_num (lf_job_id j) @ write_num (lf_job_pid j) @ newline)
     (write_hdr EVENT_JOB_FORK (lf_fork_time j))"

definition log_write_job_signal :: "log_job_signal \<Rightarrow> string option" where
  "log_write_job_signal j =
     map_option (\<lambda>h. h @ write_num (lg_job_id j) @ write_num (lg_signal_num j) @
       write_num (lg_uid j) @ newline)
     (write_hdr EVENT_JOB_SIGNAL (lg_signal_time j))"

definition log_write_job_finish :: "log_job_finish \<Rightarrow> string option" where
  "log_write_job_finish j =
     map_option (\<lambda>h. h @ write_num (le_job_id j) @ write_num (le_uid j) @ write_num (le_state j) @
       write_num (le_exit_status j) @ write_num (le_end_time j) @ newline)
     (write_hdr EVENT_JOB_FINISH (le_end_time j))"

definition log_write_simple :: "event_type \<Rightarrow> log_job_simple \<Rightarrow> string option" where
  "log_write_simple t j =
     map_option (\<lambda>h. h @ write_num (lo_job_id j) @ newline) (write_hdr t (lo_event_time j))"

definition log_write_job_pend_susp :: "log_job_simple \<Rightarrow> string option" where
  "log_write_job_pend_susp = log_write_simple EVENT_JOB_PEND_SUSP"

definition log_write_job_pend_resume :: "log_job_simple \<Rightarrow> string option" where
  "log_write_job_pend_resume = log_write_simple EVENT_JOB_PEND_RESUME"

definition log_write_job_susp :: "log_job_simple \<Rightarrow> string option" where
  "log_write_job_susp = log_write_simple EVENT_JOB_SUSP"

definition log_write_job_pend :: "log_job_simple \<Rightarrow> string option" where
  "log_write_job_pend = log_write_simple EVENT_JOB_PEND"

definition log_write_job_move :: "log_job_move \<Rightarrow> string option" where
  "log_write_job_move j =
     map_option (\<lambda>h. h @ write_num (lm_job_id j) @ write_qstr (lm_from_queue j) @
       write_qstr (lm_to_queue j) @ newline)
     (write_hdr EVENT_JOB_MOVE (lm_event_time j))"

definition log_write_job_priority :: "log_job_priority \<Rightarrow> string option" where
  "log_write_job_priority j =
     map_option (\<lambda>h. h @ write_num (lp_job_id j) @ write_num (lp_old_priority j) @
       write_num (lp_new_priority j) @ newline)
     (write_hdr EVENT_JOB_PRIORITY (lp_event_time j))"

section \<open>Reading\<close>

text \<open>
  The conversions of \<open>sscanf\<close>: skip white space, convert the longest numeral,
  store it at the width of the argument.
\<close>

definition scan_ld :: "string \<Rightarrow> (int \<times> string) option" where
  "scan_ld s = map_option (\<lambda>(v, _, r). (v, r)) (strtoll s)"

definition scan_d :: "string \<Rightarrow> (int \<times> string) option" where
  "scan_d s = map_option (\<lambda>(v, r). (s32 v, r)) (scan_ld s)"

definition scan_lu :: "string \<Rightarrow> (int \<times> string) option" where
  "scan_lu s =
     (let s1 = skip_spaces s;
          neg = (s1 \<noteq> [] \<and> hd s1 = CHR ''-'');
          s2 = (if s1 \<noteq> [] \<and> (hd s1 = CHR ''-'' \<or> hd s1 = CHR ''+'') then tl s1 else s1);
          ds = takeWhile isdigit s2;
          v = int (digits_val ds)
      in if ds = [] then None
         else Some (if 18446744073709551615 < v then 18446744073709551615
                    else if neg then (- v) mod 18446744073709551616 else v,
                    dropWhile isdigit s2))"

definition scan_u :: "string \<Rightarrow> (int \<times> string) option" where
  "scan_u s = map_option (\<lambda>(v, r). (v mod 4294967296, r)) (scan_lu s)"

definition scan_word :: "nat \<Rightarrow> string \<Rightarrow> (string \<times> string) option" where
  "scan_word n s =
     (let s1 = skip_spaces s;
          w = take n (takeWhile (\<lambda>c. \<not> isspace c) s1)
      in if w = [] then None else Some (w, drop (length w) s1))"

definition read_qstr :: "nat \<Rightarrow> string \<Rightarrow> (string \<times> string) option" where
  "read_qstr maxlen p =
     (case dropWhile (\<lambda>c. c = CHR '' '') p of
        [] \<Rightarrow> None
      | c # s \<Rightarrow>
          if c \<noteq> quote_ch then None
          else if quote_ch \<notin> set s then None
          else
            (let v = takeWhile (\<lambda>c. c \<noteq> quote_ch) s
             in if maxlen \<le> length v then None else Some (v, drop (length v + 1) s)))"

definition all_events :: "event_type list" where
  "all_events =
     [EVENT_JOB_NEW, EVENT_JOB_START, EVENT_JOB_FORK, EVENT_JOB_SIGNAL, EVENT_JOB_FINISH,
      EVENT_JOB_PEND_SUSP, EVENT_JOB_PEND_RESUME, EVENT_JOB_SUSP, EVENT_JOB_MOVE,
      EVENT_JOB_PRIORITY, EVENT_JOB_PEND]"

definition parse_event_type :: "string \<Rightarrow> event_type" where
  "parse_event_type name =
     (case find (\<lambda>t. name = event_name t) all_events of Some t \<Rightarrow> t | None \<Rightarrow> EVENT_NULL)"

text \<open>\<open>fgets\<close> with a buffer of \<open>n\<close> bytes: up to \<open>n - 1\<close> characters, through the first newline.\<close>

definition fgets :: "nat \<Rightarrow> string \<Rightarrow> (string \<times> string) option" where
  "fgets n s =
     (if s = [] then None
      else let l = takeWhile (\<lambda>c. c \<noteq> CHR 0x0A) s;
               l' = (if length l < length s then l @ newline else l);
               k = min (n - 1) (length l')
           in Some (take k s, drop k s))"

definition log_read_hdr :: "string \<Rightarrow> (event_rec \<times> string) option" where
  "log_read_hdr fp =
     do {
       (line, fp') \<leftarrow> fgets 4096 fp;
       (etype, p) \<leftarrow> scan_word 63 line;
       (ver, p) \<leftarrow> scan_d p;
       (ts, p) \<leftarrow> scan_ld p;
       Some (\<lparr>rec_version = ver, rec_type = parse_event_type etype, rec_time = ts,
              rec_rest = cfield 4096 p\<rparr>, fp')
     }"

definition log_parse_job_new :: "event_rec \<Rightarrow> log_job_new option" where
  "log_parse_job_new rec =
     do {
       (job_id, p) \<leftarrow> scan_ld (rec_rest rec);
       (array_id, p) \<leftarrow> scan_ld p;
       (array_index, p) \<leftarrow> scan_d p;
       (array_start, p) \<leftarrow> scan_d p;
       (array_end, p) \<leftarrow> scan_d p;
       (array_stride, p) \<leftarrow> scan_d p;
       (uid, p) \<leftarrow> scan_u p;
       (gid, p) \<leftarrow> scan_u p;
       (state, p) \<leftarrow> scan_d p;
       (priority, p) \<leftarrow> scan_d p;
       (begin_time, p) \<leftarrow> scan_ld p;
       (term_time, p) \<leftarrow> scan_ld p;
       (num_cpu, p) \<leftarrow> scan_d p;
       (num_hosts, p) \<leftarrow> scan_d p;
       (num_gpus, p) \<leftarrow> scan_d p;
       (mem_mb, p) \<leftarrow> scan_lu p;
       (storage_mb, p) \<leftarrow> scan_lu p;
       (flags, p) \<leftarrow> scan_u p;
       (username, p) \<leftarrow> read_qstr 64 p;
       (job_name, p) \<leftarrow> read_qstr 64 p;
       (queue, p) \<leftarrow> read_qstr 64 p;
       (project_name, p) \<leftarrow> read_qstr 64 p;
       (gpu_model, p) \<leftarrow> read_qstr 64 p;
       (machines, p) \<leftarrow> read_qstr 1024 p;
       (tokenpool, p) \<leftarrow> read_qstr 256 p;
       (depend_cond, p) \<leftarrow> read_qstr 4096 p;
       Some \<lparr>ln_job_id = job_id, ln_array_id = array_id, ln_array_index = array_index,
             ln_array_start = array_start, ln_array_end = array_end,
             ln_array_stride = array_stride, ln_uid = uid, ln_gid = gid, ln_state = state,
             ln_priority = priority, ln_submit_time = rec_time rec, ln_begin_time = begin_time,
             ln_term_time = term_time, ln_num_cpu = num_cpu, ln_num_hosts = num_hosts,
             ln_num_gpus = num_gpus, ln_mem_mb = mem_mb, ln_storage_mb = storage_mb,
             ln_flags = flags, ln_username = username, ln_job_name = job_name, ln_queue = queue,
             ln_project_name = project_name, ln_gpu_model = gpu_model, ln_machines = machines,
             ln_tokenpool = tokenpool, ln_depend_cond = depend_cond\<rparr>
     }"

definition log_parse_job_start :: "event_rec \<Rightarrow> log_job_start option" where
  "log_parse_job_start rec =
     do {
       (job_id, p) \<leftarrow> scan_ld (rec_rest rec);
       (nhosts, p) \<leftarrow> scan_d p;
       (cpus, p) \<leftarrow> scan_d p;
       (gpus, p) \<leftarrow> scan_d p;
       (gpu_model, p) \<leftarrow> read_qstr 64 p;
       (gpu_assigned, p) \<leftarrow> read_qstr 64 p;
       (hosts, p) \<leftarrow> read_qstr 4096 p;
       Some \<lparr>ls_job_id = job_id, ls_dispatch_time = rec_time rec, ls_nhosts = nhosts,
             ls_cpus_per_host = cpus, ls_gpus_per_host = gpus, ls_gpu_model = gpu_model,
             ls_gpu_assigned = gpu_assigned, ls_hosts = hosts\<rparr>
     }"

definition log_parse_job_fork :: "event_rec \<Rightarrow> log_job_fork option" where
  "log_parse_job_fork rec =
     do {
       (job_id, p) \<leftarrow> scan_ld (rec_rest rec);
       (pid, p) \<leftarrow> scan_d p;
       Some \<lparr>lf_job_id = job_id, lf_job_pid = pid, lf_fork_time = rec_time rec\<rparr>
     }"

definition log_parse_job_signal :: "event_rec \<Rightarrow> log_job_signal option" where
  "log_parse_job_signal rec =
     do {
       (job_id, p) \<leftarrow> scan_ld (rec_rest rec);
       (sig, p) \<leftarrow> scan_d p;
       (uid, p) \<leftarrow> scan_u p;
       Some \<lparr>lg_job_id = job_id, lg_signal_num = sig, lg_uid = uid, lg_signal_time = rec_time rec\<rparr>
     }"

definition log_parse_job_finish :: "event_rec \<Rightarrow> log_job_finish option" where
  "log_parse_job_finish rec =
     do {
       (job_id, p) \<leftarrow> scan_ld (rec_rest rec);
       (uid, p) \<leftarrow> scan_u p;
       (state, p) \<leftarrow> scan_d p;
       (exit_status, p) \<leftarrow> scan_d p;
       Some \<lparr>le_job_id = job_id, le_uid = uid, le_state = state, le_exit_status = exit_status,
             le_end_time = rec_time rec\<rparr>
     }"

definition log_parse_simple :: "event_rec \<Rightarrow> log_job_simple option" where
  "log_parse_simple rec =
     do {
       (job_id, p) \<leftarrow> scan_ld (rec_rest rec);
       Some \<lparr>lo_job_id = job_id, lo_event_time = rec_time rec\<rparr>
     }"

definition log_parse_job_move :: "event_rec \<Rightarrow> log_job_move option" where
  "log_parse_job_move rec =
     do {
       (job_id, p) \<leftarrow> scan_ld (rec_rest rec);
       (from_queue, p) \<leftarrow> read_qstr 64 p;
       (to_queue, p) \<leftarrow> read_qstr 64 p;
       Some \<lparr>lm_job_id = job_id, lm_event_time = rec_time rec, lm_from_queue = from_queue,
             lm_to_queue = to_queue\<rparr>
     }"

definition log_parse_job_priority :: "event_rec \<Rightarrow> log_job_priority option" where
  "log_parse_job_priority rec =
     do {
       (job_id, p) \<leftarrow> scan_ld (rec_rest rec);
       (old_priority, p) \<leftarrow> scan_d p;
       (new_priority, p) \<leftarrow> scan_d p;
       Some \<lparr>lp_job_id = job_id, lp_event_time = rec_time rec, lp_old_priority = old_priority,
             lp_new_priority = new_priority\<rparr>
     }"

section \<open>Events and the manifest text\<close>

datatype log_event =
    Job_new log_job_new
  | Job_start log_job_start
  | Job_fork log_job_fork
  | Job_signal log_job_signal
  | Job_finish log_job_finish
  | Job_pend_susp log_job_simple
  | Job_pend_resume log_job_simple
  | Job_susp log_job_simple
  | Job_move log_job_move
  | Job_priority log_job_priority
  | Job_pend log_job_simple

fun log_write :: "log_event \<Rightarrow> string option" where
  "log_write (Job_new j) = log_write_job_new j"
| "log_write (Job_start j) = log_write_job_start j"
| "log_write (Job_fork j) = log_write_job_fork j"
| "log_write (Job_signal j) = log_write_job_signal j"
| "log_write (Job_finish j) = log_write_job_finish j"
| "log_write (Job_pend_susp j) = log_write_job_pend_susp j"
| "log_write (Job_pend_resume j) = log_write_job_pend_resume j"
| "log_write (Job_susp j) = log_write_job_susp j"
| "log_write (Job_move j) = log_write_job_move j"
| "log_write (Job_priority j) = log_write_job_priority j"
| "log_write (Job_pend j) = log_write_job_pend j"

text \<open>
  The payload reader for a header, as the replay loop chooses it; \<open>None\<close> for an
  unknown event or a payload that does not parse.
\<close>

definition log_parse :: "event_rec \<Rightarrow> log_event option" where
  "log_parse rec =
     (case rec_type rec of
        EVENT_NULL \<Rightarrow> None
      | EVENT_JOB_NEW \<Rightarrow> map_option Job_new (log_parse_job_new rec)
      | EVENT_JOB_START \<Rightarrow> map_option Job_start (log_parse_job_start rec)
      | EVENT_JOB_FORK \<Rightarrow> map_option Job_fork (log_parse_job_fork rec)
      | EVENT_JOB_SIGNAL \<Rightarrow> map_option Job_signal (log_parse_job_signal rec)
      | EVENT_JOB_FINISH \<Rightarrow> map_option Job_finish (log_parse_job_finish rec)
      | EVENT_JOB_PEND_SUSP \<Rightarrow> map_option Job_pend_susp (log_parse_simple rec)
      | EVENT_JOB_PEND_RESUME \<Rightarrow> map_option Job_pend_resume (log_parse_simple rec)
      | EVENT_JOB_SUSP \<Rightarrow> map_option Job_susp (log_parse_simple rec)
      | EVENT_JOB_MOVE \<Rightarrow> map_option Job_move (log_parse_job_move rec)
      | EVENT_JOB_PRIORITY \<Rightarrow> map_option Job_priority (log_parse_job_priority rec)
      | EVENT_JOB_PEND \<Rightarrow> map_option Job_pend (log_parse_simple rec))"

lemma fgets_shorter: "fgets n s = Some (l, r) \<Longrightarrow> 1 < n \<Longrightarrow> length r < length s"
  by (cases s) (auto simp: fgets_def Let_def newline_def min_def split: if_splits)

lemma log_read_hdr_shorter: "log_read_hdr fp = Some (rec, fp') \<Longrightarrow> length fp' < length fp"
  by (auto simp: log_read_hdr_def bind_eq_Some_conv dest: fgets_shorter)

text \<open>All headers of a manifest, until the end of the file or the first line that is no header.\<close>

function log_read_all :: "string \<Rightarrow> event_rec list" where
  "log_read_all fp =
     (case log_read_hdr fp of None \<Rightarrow> [] | Some (rec, fp') \<Rightarrow> rec # log_read_all fp')"
  by pat_completeness auto
termination by (relation "measure length") (auto dest: log_read_hdr_shorter)

declare log_read_all.simps [simp del]

section \<open>Lemmas: reading back what was written\<close>

definition stops :: "string \<Rightarrow> bool" where
  "stops r \<longleftrightarrow> r = [] \<or> \<not> isdigit (hd r)"

lemma stops_write [simp]:
  "stops []" "stops (write_num i @ r)" "stops (write_qstr s @ r)" "stops (newline @ r)"
  "stops newline" "stops (write_num i)" "stops (write_qstr s)"
  by (simp_all add: stops_def write_num_def write_qstr_def newline_def isdigit_def)

lemma skip_blank: "skip_spaces (CHR '' '' # s) = skip_spaces s"
  by (simp add: skip_spaces_def isspace_def)

lemma strtoll_blank: "strtoll (CHR '' '' # s) = strtoll s"
  by (simp add: strtoll_def skip_blank)

lemma scan_ld_num: "in_s64 i \<Longrightarrow> stops r \<Longrightarrow> scan_ld (write_num i @ r) = Some (i, r)"
  by (simp add: scan_ld_def write_num_def strtoll_blank strtoll_fmt_ld stops_def)

lemma in_s32_s64 [simp]: "in_s32 i \<Longrightarrow> in_s64 i"
  by (simp add: in_s32_def in_s64_def)

lemma scan_d_num: "in_s32 i \<Longrightarrow> stops r \<Longrightarrow> scan_d (write_num i @ r) = Some (i, r)"
  by (simp add: scan_d_def scan_ld_num)

definition in_u32 :: "int \<Rightarrow> bool" where
  "in_u32 i \<longleftrightarrow> 0 \<le> i \<and> i < 4294967296"

definition in_u64 :: "int \<Rightarrow> bool" where
  "in_u64 i \<longleftrightarrow> 0 \<le> i \<and> i < 18446744073709551616"

lemma scan_lu_num:
  assumes "in_u64 i" "stops r"
  shows "scan_lu (write_num i @ r) = Some (i, r)"
proof -
  have f: "fmt_ld i = fmt_nat (nat i)" using assms(1) by (simp add: in_u64_def fmt_ld_def)
  have sk: "skip_spaces (write_num i @ r) = fmt_nat (nat i) @ r"
    using skip_spaces_fmt_ld [of i r] by (simp add: write_num_def skip_blank f)
  have d: "takeWhile isdigit (fmt_nat (nat i) @ r) = fmt_nat (nat i)"
    "dropWhile isdigit (fmt_nat (nat i) @ r) = r"
    by (rule span_digits; use assms(2) fmt_nat_digits in \<open>auto simp: stops_def\<close>)+
  have h: "hd (fmt_nat (nat i)) \<noteq> CHR ''-''" "hd (fmt_nat (nat i)) \<noteq> CHR ''+''"
    using hd_fmt_nat isdigit_not_sign by blast+
  show ?thesis using assms(1) unfolding scan_lu_def Let_def sk by (simp add: d h in_u64_def)
qed

lemma scan_u_num: "in_u32 i \<Longrightarrow> stops r \<Longrightarrow> scan_u (write_num i @ r) = Some (i, r)"
  using scan_lu_num [of i r] by (simp add: scan_u_def in_u32_def in_u64_def)

text \<open>What a quoted field can hold: no quote, no line break, shorter than its buffer.\<close>

definition str_ok :: "nat \<Rightarrow> string \<Rightarrow> bool" where
  "str_ok n s \<longleftrightarrow> length s < n \<and> quote_ch \<notin> set s \<and> CHR 0x0A \<notin> set s"

lemma read_qstr_write: "str_ok n s \<Longrightarrow> read_qstr n (write_qstr s @ r) = Some (s, r)"
proof -
  assume s: "str_ok n s"
  have "takeWhile (\<lambda>c. c \<noteq> quote_ch) (s @ quote_ch # r) = s"
    using s by (intro takeWhile_tail [THEN trans]) (auto simp: str_ok_def takeWhile_append2)
  then show ?thesis using s
    by (simp add: read_qstr_def write_qstr_def str_ok_def quote_ch_def Let_def)
qed

lemmas log_scan = scan_ld_num scan_d_num scan_lu_num scan_u_num read_qstr_write

lemma event_name_props:
  "t \<noteq> EVENT_NULL \<Longrightarrow> parse_event_type (event_name t) = t"
  "event_name t \<noteq> []" "c \<in> set (event_name t) \<Longrightarrow> \<not> isspace c" "length (event_name t) \<le> 63"
  by (cases t; simp add: parse_event_type_def all_events_def; fail)
    (cases t; auto simp: isspace_def)+

text \<open>Type, time and payload of an event, and the ranges of its fields.\<close>

fun ev_type :: "log_event \<Rightarrow> event_type" where
  "ev_type (Job_new j) = EVENT_JOB_NEW"
| "ev_type (Job_start j) = EVENT_JOB_START"
| "ev_type (Job_fork j) = EVENT_JOB_FORK"
| "ev_type (Job_signal j) = EVENT_JOB_SIGNAL"
| "ev_type (Job_finish j) = EVENT_JOB_FINISH"
| "ev_type (Job_pend_susp j) = EVENT_JOB_PEND_SUSP"
| "ev_type (Job_pend_resume j) = EVENT_JOB_PEND_RESUME"
| "ev_type (Job_susp j) = EVENT_JOB_SUSP"
| "ev_type (Job_move j) = EVENT_JOB_MOVE"
| "ev_type (Job_priority j) = EVENT_JOB_PRIORITY"
| "ev_type (Job_pend j) = EVENT_JOB_PEND"

fun ev_time :: "log_event \<Rightarrow> int" where
  "ev_time (Job_new j) = ln_submit_time j"
| "ev_time (Job_start j) = ls_dispatch_time j"
| "ev_time (Job_fork j) = lf_fork_time j"
| "ev_time (Job_signal j) = lg_signal_time j"
| "ev_time (Job_finish j) = le_end_time j"
| "ev_time (Job_pend_susp j) = lo_event_time j"
| "ev_time (Job_pend_resume j) = lo_event_time j"
| "ev_time (Job_susp j) = lo_event_time j"
| "ev_time (Job_move j) = lm_event_time j"
| "ev_time (Job_priority j) = lp_event_time j"
| "ev_time (Job_pend j) = lo_event_time j"

fun ev_fields_ok :: "log_event \<Rightarrow> bool" where
  "ev_fields_ok (Job_new j) \<longleftrightarrow>
     in_s64 (ln_job_id j) \<and> in_s64 (ln_array_id j) \<and> in_s32 (ln_array_index j) \<and>
     in_s32 (ln_array_start j) \<and> in_s32 (ln_array_end j) \<and> in_s32 (ln_array_stride j) \<and>
     in_u32 (ln_uid j) \<and> in_u32 (ln_gid j) \<and> in_s32 (ln_state j) \<and> in_s32 (ln_priority j) \<and>
     in_s64 (ln_begin_time j) \<and> in_s64 (ln_term_time j) \<and> in_s32 (ln_num_cpu j) \<and>
     in_s32 (ln_num_hosts j) \<and> in_s32 (ln_num_gpus j) \<and> in_u64 (ln_mem_mb j) \<and>
     in_u64 (ln_storage_mb j) \<and> in_u32 (ln_flags j) \<and> str_ok 64 (ln_username j) \<and>
     str_ok 64 (ln_job_name j) \<and> str_ok 64 (ln_queue j) \<and> str_ok 64 (ln_project_name j) \<and>
     str_ok 64 (ln_gpu_model j) \<and> str_ok 1024 (ln_machines j) \<and> str_ok 256 (ln_tokenpool j) \<and>
     str_ok 4096 (ln_depend_cond j)"
| "ev_fields_ok (Job_start j) \<longleftrightarrow>
     in_s64 (ls_job_id j) \<and> in_s32 (ls_nhosts j) \<and> in_s32 (ls_cpus_per_host j) \<and>
     in_s32 (ls_gpus_per_host j) \<and> str_ok 64 (ls_gpu_model j) \<and> str_ok 64 (ls_gpu_assigned j) \<and>
     str_ok 4096 (ls_hosts j)"
| "ev_fields_ok (Job_fork j) \<longleftrightarrow> in_s64 (lf_job_id j) \<and> in_s32 (lf_job_pid j)"
| "ev_fields_ok (Job_signal j) \<longleftrightarrow>
     in_s64 (lg_job_id j) \<and> in_s32 (lg_signal_num j) \<and> in_u32 (lg_uid j)"
| "ev_fields_ok (Job_finish j) \<longleftrightarrow>
     in_s64 (le_job_id j) \<and> in_u32 (le_uid j) \<and> in_s32 (le_state j) \<and> in_s32 (le_exit_status j)"
| "ev_fields_ok (Job_pend_susp j) \<longleftrightarrow> in_s64 (lo_job_id j)"
| "ev_fields_ok (Job_pend_resume j) \<longleftrightarrow> in_s64 (lo_job_id j)"
| "ev_fields_ok (Job_susp j) \<longleftrightarrow> in_s64 (lo_job_id j)"
| "ev_fields_ok (Job_pend j) \<longleftrightarrow> in_s64 (lo_job_id j)"
| "ev_fields_ok (Job_move j) \<longleftrightarrow>
     in_s64 (lm_job_id j) \<and> str_ok 64 (lm_from_queue j) \<and> str_ok 64 (lm_to_queue j)"
| "ev_fields_ok (Job_priority j) \<longleftrightarrow>
     in_s64 (lp_job_id j) \<and> in_s32 (lp_old_priority j) \<and> in_s32 (lp_new_priority j)"

text \<open>The line \<open>log_write\<close> prints, without the newline, after the header.\<close>

definition ev_payload :: "log_event \<Rightarrow> string" where
  "ev_payload ev =
     (case ev of
        Job_new j \<Rightarrow>
          write_num (ln_job_id j) @ write_num (ln_array_id j) @ write_num (ln_array_index j) @
          write_num (ln_array_start j) @ write_num (ln_array_end j) @ write_num (ln_array_stride j) @
          write_num (ln_uid j) @ write_num (ln_gid j) @ write_num (ln_state j) @
          write_num (ln_priority j) @ write_num (ln_begin_time j) @ write_num (ln_term_time j) @
          write_num (ln_num_cpu j) @ write_num (ln_num_hosts j) @ write_num (ln_num_gpus j) @
          write_num (ln_mem_mb j) @ write_num (ln_storage_mb j) @ write_num (ln_flags j) @
          write_qstr (ln_username j) @ write_qstr (ln_job_name j) @ write_qstr (ln_queue j) @
          write_qstr (ln_project_name j) @ write_qstr (ln_gpu_model j) @
          write_qstr (ln_machines j) @ write_qstr (ln_tokenpool j) @ write_qstr (ln_depend_cond j)
      | Job_start j \<Rightarrow>
          write_num (ls_job_id j) @ write_num (ls_nhosts j) @ write_num (ls_cpus_per_host j) @
          write_num (ls_gpus_per_host j) @ write_qstr (ls_gpu_model j) @
          write_qstr (ls_gpu_assigned j) @ write_qstr (ls_hosts j)
      | Job_fork j \<Rightarrow> write_num (lf_job_id j) @ write_num (lf_job_pid j)
      | Job_signal j \<Rightarrow>
          write_num (lg_job_id j) @ write_num (lg_signal_num j) @ write_num (lg_uid j)
      | Job_finish j \<Rightarrow>
          write_num (le_job_id j) @ write_num (le_uid j) @ write_num (le_state j) @
          write_num (le_exit_status j) @ write_num (le_end_time j)
      | Job_move j \<Rightarrow>
          write_num (lm_job_id j) @ write_qstr (lm_from_queue j) @ write_qstr (lm_to_queue j)
      | Job_priority j \<Rightarrow>
          write_num (lp_job_id j) @ write_num (lp_old_priority j) @ write_num (lp_new_priority j)
      | Job_pend_susp j \<Rightarrow> write_num (lo_job_id j)
      | Job_pend_resume j \<Rightarrow> write_num (lo_job_id j)
      | Job_susp j \<Rightarrow> write_num (lo_job_id j)
      | Job_pend j \<Rightarrow> write_num (lo_job_id j))"

lemma log_write_payload:
  "log_write ev = map_option (\<lambda>h. h @ ev_payload ev @ newline) (write_hdr (ev_type ev) (ev_time ev))"
  by (cases ev)
    (simp_all add: ev_payload_def log_write_job_new_def log_write_job_start_def
      log_write_job_fork_def log_write_job_signal_def log_write_job_finish_def log_write_simple_def
      log_write_job_pend_susp_def log_write_job_pend_resume_def log_write_job_susp_def
      log_write_job_pend_def log_write_job_move_def log_write_job_priority_def)

lemma log_parse_payload:
  assumes "ev_fields_ok ev"
  shows "log_parse \<lparr>rec_version = v, rec_type = ev_type ev, rec_time = ev_time ev,
    rec_rest = ev_payload ev @ newline\<rparr> = Some ev"
  using assms
  by (cases ev)
    (simp_all add: log_parse_def ev_payload_def log_parse_job_new_def log_parse_job_start_def
      log_parse_job_fork_def log_parse_job_signal_def log_parse_job_finish_def log_parse_simple_def
      log_parse_job_move_def log_parse_job_priority_def log_scan)

lemma payload_stops [simp]: "stops (ev_payload ev @ r)"
  by (cases ev) (simp_all add: ev_payload_def)

lemma write_no_newline:
  "CHR 0x0A \<notin> set (write_num i)"
  "CHR 0x0A \<in> set (write_qstr s) \<longleftrightarrow> CHR 0x0A \<in> set s"
  using set_fmt_ld [of "CHR 0x0A" i]
  by (auto simp: write_num_def write_qstr_def quote_ch_def isdigit_def)

lemma payload_no_newline: "ev_fields_ok ev \<Longrightarrow> CHR 0x0A \<notin> set (ev_payload ev)"
  by (cases ev) (simp_all add: ev_payload_def write_no_newline str_ok_def)

lemma fgets_line:
  assumes "CHR 0x0A \<notin> set l" and "length l + 1 < n"
  shows "fgets n (l @ newline @ r) = Some (l @ newline, r)"
proof -
  have "takeWhile (\<lambda>c. c \<noteq> CHR 0x0A) (l @ newline @ r) = l"
    using assms(1) by (subst takeWhile_append2) (auto simp: newline_def)
  then show ?thesis using assms(2) by (simp add: fgets_def Let_def newline_def)
qed

lemma scan_word_name: "scan_word 63 (event_name t @ write_num i @ r) = Some (event_name t, write_num i @ r)"
proof -
  have sp: "isspace CHR '' ''" by (simp add: isspace_def)
  have "hd (event_name t) \<in> set (event_name t)" using event_name_props(2) by simp
  then have "\<not> isspace (hd (event_name t))" by (rule event_name_props(3))
  then have sk: "skip_spaces (event_name t @ write_num i @ r) = event_name t @ write_num i @ r"
    using event_name_props(2) by (intro skip_spaces_id) simp
  have "takeWhile (\<lambda>c. \<not> isspace c) (event_name t @ write_num i @ r) = event_name t"
    using event_name_props(3) sp by (subst takeWhile_append2) (auto simp: write_num_def)
  then show ?thesis using event_name_props(2,4)
    unfolding scan_word_def Let_def sk by (simp add: min_def)
qed

lemma log_read_hdr_line:
  assumes "log_write ev = Some line" and "ev_fields_ok ev" and "in_s64 (ev_time ev)"
    and "length line < 4096"
  shows "log_read_hdr (line @ fp) =
    Some (\<lparr>rec_version = 1, rec_type = ev_type ev, rec_time = ev_time ev,
           rec_rest = ev_payload ev @ newline\<rparr>, fp)"
proof -
  let ?l = "event_name (ev_type ev) @ write_num 1 @ write_num (ev_time ev) @ ev_payload ev"
  have line: "line = ?l @ newline"
    using assms(1) by (auto simp: log_write_payload write_hdr_def write_num_def LOG_VERSION_def
        split: if_splits)
  have "CHR 0x0A \<notin> set ?l"
    using event_name_props(3) [of "CHR 0x0A"] write_no_newline(1) payload_no_newline [OF assms(2)]
    by (auto simp: isspace_def)
  then have f: "fgets 4096 (line @ fp) = Some (?l @ newline, fp)"
    using fgets_line [of ?l 4096 fp] assms(4) line by (simp add: newline_def)
  have nn: "ev_type ev \<noteq> EVENT_NULL" by (cases ev) auto
  have "length (ev_payload ev @ newline) < 4096" using assms(4) line by simp
  then have c: "cfield 4096 (ev_payload ev @ newline) = ev_payload ev @ newline"
    by (simp add: cfield_take)
  show ?thesis using assms(3) nn
    by (simp add: log_read_hdr_def f scan_word_name log_scan event_name_props(1) c in_s32_def)
qed

lemma log_read_all_lines:
  assumes "\<And>ev. ev \<in> set evs \<Longrightarrow> ev_fields_ok ev \<and> in_s64 (ev_time ev)"
    and "list_all2 (\<lambda>ev l. log_write ev = Some l \<and> length l < 4096) evs lines"
  shows "map log_parse (log_read_all (concat lines)) = map Some evs"
  using assms(2,1)
proof (induction rule: list_all2_induct)
  case Nil
  then show ?case by (subst log_read_all.simps) (simp add: log_read_hdr_def fgets_def)
next
  case (Cons ev evs l lines)
  have "log_read_hdr (l @ concat lines) =
    Some (\<lparr>rec_version = 1, rec_type = ev_type ev, rec_time = ev_time ev,
           rec_rest = ev_payload ev @ newline\<rparr>, concat lines)"
    using log_read_hdr_line [of ev l] Cons.hyps Cons.prems by simp
  then have "log_read_all (concat (l # lines)) =
      \<lparr>rec_version = 1, rec_type = ev_type ev, rec_time = ev_time ev,
       rec_rest = ev_payload ev @ newline\<rparr> # log_read_all (concat lines)"
    by (subst log_read_all.simps) simp
  then show ?case using Cons log_parse_payload by simp
qed

section \<open>Properties\<close>

text \<open>
  C21. Round trip of the event log. Events written one after the other, with
  fields in the range of their types, strings without quotes and line breaks, and
  lines that fit the 4096-byte read buffer, are read back as exactly the same
  sequence of events, by the loop that stops at the first line that is not a
  header.
\<close>

theorem log_roundtrip:
  assumes "\<And>ev. ev \<in> set evs \<Longrightarrow> ev_fields_ok ev \<and> in_s64 (ev_time ev)"
    and "list_all2 (\<lambda>ev l. log_write ev = Some l \<and> length l < 4096) evs lines"
  shows "map log_parse (log_read_all (concat lines)) = map Some evs"
  using assms by (rule log_read_all_lines)

theorem log_roundtrip_witness:
  "let ev = Job_signal \<lparr>lg_job_id = 12, lg_signal_num = 15, lg_uid = 1000, lg_signal_time = 77\<rparr>
   in map log_parse (log_read_all (the (log_write ev))) = [Some ev]"
  using log_roundtrip [of "[Job_signal \<lparr>lg_job_id = 12, lg_signal_num = 15, lg_uid = 1000, lg_signal_time = 77\<rparr>]"
      "[the (log_write (Job_signal \<lparr>lg_job_id = 12, lg_signal_num = 15, lg_uid = 1000, lg_signal_time = 77\<rparr>))]"]
  by (simp add: Let_def log_write_job_signal_def write_hdr_def write_num_def fmt_ld_def fmt_nat.simps
      in_s64_def in_s32_def in_u32_def newline_def LOG_VERSION_def)

text \<open>
  C37. Quoted fields are printed without escaping. A job whose name contains a
  quote is written to the log, and the line it wrote does not parse when it is
  read back, so a restart loses the job.
\<close>

definition quoted_name_event :: log_job_new where
  "quoted_name_event =
     \<lparr>ln_job_id = 7, ln_array_id = 0, ln_array_index = 0, ln_array_start = 0, ln_array_end = 0,
      ln_array_stride = 0, ln_uid = 1, ln_gid = 1, ln_state = 1, ln_priority = 0,
      ln_submit_time = 9, ln_begin_time = 0, ln_term_time = 0, ln_num_cpu = 1, ln_num_hosts = 1,
      ln_num_gpus = 0, ln_mem_mb = 0, ln_storage_mb = 0, ln_flags = 0, ln_username = ''u'',
      ln_job_name = [quote_ch], ln_queue = ''q'', ln_project_name = [], ln_gpu_model = [],
      ln_machines = [], ln_tokenpool = [], ln_depend_cond = []\<rparr>"


end
