(* ===== verification/Mbd_State.thy ===== *)
theory Mbd_State
  imports Ll_Hash Ll_List Dependency Log
begin

unbundle bit_operations_syntax

text \<open>
  The state of the master daemon (\<open>include/batch/mbd/mbd.h\<close>, the globals of
  \<open>src/batch/mbd/job.c\<close>, \<open>sched.c\<close>, \<open>conf.c\<close>, \<open>events.c\<close>). Structures are records;
  pointers to jobs, hosts, queues and token pools are addresses into one store
  per structure, and a null pointer is \<open>None\<close>. The name tables are the hash
  tables of \<open>Ll_Hash\<close>; the three job lists are sequences of addresses, the
  abstract side of \<open>Ll_List\<close>. Everything that ends the daemon (a failed
  assertion, a null dereference, signed overflow, \<open>abort\<close>, \<open>mbd_die\<close>) is a value of
  \<open>crash\<close>. Memory allocation succeeds.
  What the daemon sends, the event log and the files it writes are part of the
  state, so that theorems can speak about them.
\<close>

section \<open>Constants\<close>

datatype mbd_exit =
    MBD_EXIT_CONF | MBD_EXIT_NET | MBD_EXIT_EVENTS | MBD_EXIT_JOBS | MBD_EXIT_MEM | MBD_EXIT_FATAL

datatype crash =
    Assert_failed | Null_deref | Out_of_bounds | List_corrupted | Int_overflow | Diverges
  | Abort_called | Died mbd_exit

datatype job_state =
    JOB_PENDING | JOB_HELD | JOB_RUNNING | JOB_SUSPENDED | JOB_EXITED | JOB_DONE | JOB_ORPHAN
  | JOB_BROKEN | JOB_UNKNOWN | JOB_STATE_BAD int

fun job_state_code :: "job_state \<Rightarrow> int" where
  "job_state_code JOB_PENDING = 1"
| "job_state_code JOB_HELD = 2"
| "job_state_code JOB_RUNNING = 3"
| "job_state_code JOB_SUSPENDED = 4"
| "job_state_code JOB_EXITED = 5"
| "job_state_code JOB_DONE = 6"
| "job_state_code JOB_ORPHAN = 7"
| "job_state_code JOB_BROKEN = 8"
| "job_state_code JOB_UNKNOWN = 9"
| "job_state_code (JOB_STATE_BAD n) = n"

definition job_state_of :: "int \<Rightarrow> job_state" where
  "job_state_of n =
     (if n = 1 then JOB_PENDING else if n = 2 then JOB_HELD else if n = 3 then JOB_RUNNING
      else if n = 4 then JOB_SUSPENDED else if n = 5 then JOB_EXITED else if n = 6 then JOB_DONE
      else if n = 7 then JOB_ORPHAN else if n = 8 then JOB_BROKEN else if n = 9 then JOB_UNKNOWN
      else JOB_STATE_BAD n)"

datatype job_list_id = JOB_LIST_PEND | JOB_LIST_RUN | JOB_LIST_FINISH

datatype pend_reason =
    PEND_NONE | PEND_JOB_NOT_READY | PEND_QUEUE_CLOSED | PEND_TOKENS | PEND_NO_HOSTS
  | PEND_NOT_ENOUGH_CPUS | PEND_NOT_ENOUGH_MEM | PEND_NOT_ENOUGH_STORAGE | PEND_NOT_ENOUGH_GPUS
  | PEND_GPU_MODEL | PEND_HOST_EXCLUSIVE | PEND_HOST_OVERFLOW | PEND_DEPEND

definition QUEUE_OPEN :: int where "QUEUE_OPEN = 0"
definition QUEUE_CLOSED :: int where "QUEUE_CLOSED = 1"

text \<open>Host state is a word of flags: \<open>HOST_OK\<close> is zero, \<open>HOST_CLOSED\<close> bit 0, \<open>HOST_UNAVAIL\<close> bit 1.\<close>

definition HOST_OK :: u32 where "HOST_OK = 0"
definition HOST_CLOSED :: u32 where "HOST_CLOSED = 1"
definition HOST_UNAVAIL :: u32 where "HOST_UNAVAIL = 2"

definition JOB_FLAG_EXCLUSIVE :: u32 where "JOB_FLAG_EXCLUSIVE = 1"
definition JOB_FLAG_HOLD :: u32 where "JOB_FLAG_HOLD = 2"
definition JOB_FLAG_ARRAY :: u32 where "JOB_FLAG_ARRAY = 4"

definition has_flag :: "u32 \<Rightarrow> u32 \<Rightarrow> bool" where
  "has_flag fl f \<longleftrightarrow> fl AND f \<noteq> 0"

definition MBD_OK :: int where "MBD_OK = 0"
definition EPERM :: int where "EPERM = 1"
definition ESRCH :: int where "ESRCH = 3"
definition EAGAIN :: int where "EAGAIN = 11"
definition ENOENT :: int where "ENOENT = 2"
definition EPROTO :: int where "EPROTO = 71"
definition EINVAL :: int where "EINVAL = 22"

definition SIGINT :: int where "SIGINT = 2"
definition SIGKILL :: int where "SIGKILL = 9"
definition SIGTERM :: int where "SIGTERM = 15"
definition SIGCONT :: int where "SIGCONT = 18"
definition SIGSTOP :: int where "SIGSTOP = 19"
definition SIGTSTP :: int where "SIGTSTP = 20"

datatype batch_op =
    BATCH_JOB_SUBMIT | BATCH_JOB_SUBMIT_ACK | BATCH_JOB_SIGNAL | BATCH_JOB_SIGNAL_ACK
  | BATCH_JOB_INFO | BATCH_JOB_INFO_ACK | BATCH_HOST_INFO | BATCH_HOST_INFO_ACK
  | BATCH_QUEUE_INFO | BATCH_QUEUE_INFO_ACK | BATCH_GROUP_INFO | BATCH_GROUP_INFO_ACK
  | BATCH_SBD_REGISTER | BATCH_SBD_REGISTER_ACK | BATCH_TOKEN_INFO | BATCH_TOKEN_INFO_ACK
  | BATCH_NEW_JOB | BATCH_NEW_JOB_REPLY | BATCH_NEW_JOB_REPLY_ACK | BATCH_JOB_FINISH
  | BATCH_JOB_FINISH_ACK | BATCH_SBD_JOB_SIGNAL | BATCH_SBD_JOB_SIGNAL_REPLY | BATCH_JOB_MISSING
  | BATCH_QUEUE_ADMIN | BATCH_QUEUE_ADMIN_ACK | BATCH_HOST_ADMIN | BATCH_HOST_ADMIN_ACK
  | BATCH_JOB_MOVE | BATCH_JOB_MOVE_ACK | BATCH_JOB_PRIORITY | BATCH_JOB_PRIORITY_ACK

section \<open>Structures\<close>

type_synonym jptr = nat
type_synonym hptr = nat
type_synonym qptr = nat
type_synonym pptr = nat
type_synonym gptr = nat

record job_token =
  tk_name :: string
  tk_count :: int

record job_resources =
  jr_num_cpus :: int
  jr_num_hosts :: int
  jr_num_gpus :: int
  jr_gpu_model :: string
  jr_mem_mb :: u64
  jr_storage_mb :: u64
  jr_wall_seconds :: int
  jr_machines_str :: string
  jr_machines :: "unit ll_hash"
  jr_tokenpool_str :: string
  jr_tokens :: "job_token list"

record job_data =
  jd_job_id :: int
  jd_uid :: int
  jd_gid :: int
  jd_pid :: int
  jd_user :: string
  jd_state :: job_state
  jd_exit_status :: int
  jd_priority :: int
  jd_submit_time :: int
  jd_dispatch_time :: int
  jd_fork_time :: int
  jd_end_time :: int
  jd_susp_time :: int
  jd_unknown_time :: int
  jd_begin_time :: int
  jd_term_time :: int
  jd_signal_time :: int
  jd_queue :: "qptr option"
  jd_project :: string
  jd_name :: string
  jd_flags :: u32
  jd_list_id :: job_list_id
  jd_pend_reason :: pend_reason
  jd_deps :: "job_dep list"
  jd_depend_cond :: string
  jd_dep_refcnt :: int
  jd_res :: job_resources
  jd_run_nhosts :: int
  jd_run_hosts :: "hptr option list"
  jd_gpu_assigned :: string
  jd_array_id :: int
  jd_array_index :: int
  jd_array_start :: int
  jd_array_end :: int
  jd_array_stride :: int
  jd_array_element_cnt :: int

record gpu_id =
  gi_id :: int
  gi_in_use :: bool

text \<open>\<open>gp_ids\<close> holds the \<open>count\<close> device entries the code looks at.\<close>

record mbd_gpu =
  gp_model :: string
  gp_gpu_ids :: string
  gp_ids :: "gpu_id list"

record mbd_host =
  mh_name :: string
  mh_addr :: string
  mh_port :: int
  mh_host_idx :: int
  mh_total_cpu :: int
  mh_free_cpu :: int
  mh_total_mem_mb :: u64
  mh_free_mem_mb :: u64
  mh_total_storage_mb :: u64
  mh_free_storage_mb :: u64
  mh_gpu :: mbd_gpu
  mh_state :: u32
  mh_candidate :: bool
  mh_exclusive :: bool
  mh_num_jobs :: int
  mh_num_run :: int
  mh_num_susp :: int
  mh_sbd_chan :: int
  mh_num_cpus_used :: int

record mbd_queue =
  mq_name :: string
  mq_description :: string
  mq_hosts_spec :: string
  mq_users :: string
  mq_priority :: int
  mq_max_jobs :: int
  mq_num_jobs :: int
  mq_num_pend :: int
  mq_num_run :: int
  mq_num_susp :: int
  mq_num_held :: int
  mq_state :: int
  mq_num_cpus_used :: int
  mq_num_hosts_used :: int
  mq_host_hash :: "hptr ll_hash"
  mq_user_hash :: "unit ll_hash"

record mbd_group =
  mg_name :: string
  mg_num_members :: int
  mg_members :: string

record mbd_token_pool =
  tp_name :: string
  tp_total :: int
  tp_free :: int

section \<open>Messages\<close>

record wire_job_sig =
  sg_job_id :: int
  sg_array_index :: int
  sg_sig :: int
  sg_uid :: int

record wire_job_submit =
  ws_name :: string
  ws_queue :: string
  ws_project :: string
  ws_comment :: string
  ws_machines :: string
  ws_in_file :: string
  ws_out_file :: string
  ws_err_file :: string
  ws_cwd :: string
  ws_depend_cond :: string
  ws_command :: string
  ws_gpu_model :: string
  ws_submit_host :: string
  ws_username :: string
  ws_home_dir :: string
  ws_num_cpus :: int
  ws_num_hosts :: int
  ws_num_gpus :: int
  ws_mem_mb :: u64
  ws_storage_mb :: u64
  ws_tokenpool :: string
  ws_umask :: u32
  ws_flags :: u32
  ws_begin_time :: int
  ws_term_time :: int
  ws_susp_time :: int
  ws_resume_time :: int
  ws_array_start :: int
  ws_array_end :: int
  ws_array_stride :: int

record wire_job_start =
  wt_job_id :: int
  wt_uid :: int
  wt_gid :: int
  wt_umask :: u32
  wt_job_name :: string
  wt_queue :: string
  wt_username :: string
  wt_home_dir :: string
  wt_cwd :: string
  wt_command :: string
  wt_in_file :: string
  wt_out_file :: string
  wt_err_file :: string
  wt_hosts :: string
  wt_term_time :: int
  wt_gpus_per_host :: int
  wt_ncpus :: int
  wt_mem_mb :: u64
  wt_gpu_model :: string
  wt_gpu_assigned :: string
  wt_script :: string

record wire_job_info =
  wi_job_id :: int
  wi_array_id :: int
  wi_array_index :: int
  wi_uid :: int
  wi_pid :: int
  wi_state :: job_state
  wi_exit_status :: int
  wi_priority :: int
  wi_pend_reason :: pend_reason
  wi_submit_time :: int
  wi_dispatch_time :: int
  wi_end_time :: int
  wi_susp_time :: int
  wi_name :: string
  wi_queue :: string
  wi_submit_host :: string
  wi_run_hosts :: string
  wi_comment :: string

record wire_host_info =
  wo_name :: string
  wo_state :: u32
  wo_total_cpu :: int
  wo_free_cpu :: int
  wo_total_gpu :: int
  wo_free_gpu :: int
  wo_total_mem_mb :: u64
  wo_free_mem_mb :: u64
  wo_total_storage_mb :: u64
  wo_free_storage_mb :: u64
  wo_num_jobs :: int
  wo_num_run :: int
  wo_num_susp :: int
  wo_gpu_model :: string
  wo_gpu_ids :: string

record wire_group_info =
  wg_name :: string
  wg_num_members :: int
  wg_members :: string

record wire_queue_info =
  wu_name :: string
  wu_description :: string
  wu_hosts :: "string list"
  wu_users :: "string list"
  wu_priority :: int
  wu_max_jobs :: int
  wu_num_jobs :: int
  wu_num_pend :: int
  wu_num_run :: int
  wu_num_susp :: int
  wu_num_held :: int
  wu_num_cpus_used :: int
  wu_num_hosts_used :: int
  wu_status :: int

record wire_token_info =
  wk_name :: string
  wk_total :: int
  wk_free :: int

datatype wire_body =
    No_body
  | Submit_reply int
  | Job_ack int batch_op
  | Start_body wire_job_start
  | Sig_body wire_job_sig
  | Register_body "(int \<times> int) list"
  | Job_infos "wire_job_info list"
  | Host_infos "wire_host_info list"
  | Group_infos "wire_group_info list"
  | Queue_infos "wire_queue_info list"
  | Token_infos "wire_token_info list"

record message =
  msg_chan :: int
  msg_op :: batch_op
  msg_status :: int
  msg_body :: wire_body

record wire_hdr =
  wh_status :: int
  wh_uid :: int
  wh_gid :: int

section \<open>The daemon\<close>

record mbd =
  job_heap :: "jptr \<Rightarrow> job_data"
  job_fresh :: jptr
  job_id_seq :: int
  job_id_hash :: "jptr ll_hash"
  job_lists :: "job_list_id \<Rightarrow> jptr list"
  host_heap :: "hptr \<Rightarrow> mbd_host"
  host_list :: "hptr list"
  host_name_hash :: "hptr ll_hash"
  queue_heap :: "qptr \<Rightarrow> mbd_queue"
  queue_list :: "qptr list"
  queue_name_hash :: "qptr ll_hash"
  pool_heap :: "pptr \<Rightarrow> mbd_token_pool"
  token_pool_list :: "pptr list"
  token_pool_name_hash :: "pptr ll_hash"
  group_heap :: "gptr \<Rightarrow> mbd_group"
  group_list :: "gptr list"
  group_name_hash :: "gptr ll_hash"
  sbd_chan_hash :: "hptr ll_hash"
  mgr_uid :: int
  default_queue :: string
  assert_counters :: bool
  manifest :: "log_event list"
  archives :: "log_event list list"
  seq_file :: "int option"
  job_finish_threshold :: int
  closed_queues :: "string list"
  closed_hosts :: "string list"
  submit_files :: "int \<rightharpoonup> string"
  script_files :: "int \<rightharpoonup> string"
  usage_files :: "int \<rightharpoonup> string"
  outq :: "message list"
  shut_chans :: "int list"

text \<open>
  What the daemon meets in its environment during one handler: the clock,
  whether signing a header works, whether queueing a message on a channel works,
  the errors (\<open>errno\<close>) of writing the files of a job, by job, whether its files
  can be read and its usage file opened, whether the state file of a queue or host
  can be created or removed, and what an uninitialised local variable holds. The clock stands still during a handler.
\<close>

record env =
  e_now :: int
  e_sign_ok :: bool
  e_send_ok :: "int \<Rightarrow> batch_op \<Rightarrow> bool"
  e_script_err :: "int \<Rightarrow> int option"
  e_sidecar_err :: "int \<Rightarrow> int option"
  e_read_ok :: "int \<Rightarrow> bool"
  e_usage_ok :: "int \<Rightarrow> bool"
  e_state_ok :: "string \<Rightarrow> bool"
  e_garbage :: int


section \<open>Access to the stores\<close>

definition upd_job :: "jptr \<Rightarrow> (job_data \<Rightarrow> job_data) \<Rightarrow> mbd \<Rightarrow> mbd" where
  "upd_job p f s = s\<lparr>job_heap := (job_heap s)(p := f (job_heap s p))\<rparr>"

definition upd_host :: "hptr \<Rightarrow> (mbd_host \<Rightarrow> mbd_host) \<Rightarrow> mbd \<Rightarrow> mbd" where
  "upd_host h f s = s\<lparr>host_heap := (host_heap s)(h := f (host_heap s h))\<rparr>"

definition upd_queue :: "qptr \<Rightarrow> (mbd_queue \<Rightarrow> mbd_queue) \<Rightarrow> mbd \<Rightarrow> mbd" where
  "upd_queue q f s = s\<lparr>queue_heap := (queue_heap s)(q := f (queue_heap s q))\<rparr>"

definition upd_pool :: "pptr \<Rightarrow> (mbd_token_pool \<Rightarrow> mbd_token_pool) \<Rightarrow> mbd \<Rightarrow> mbd" where
  "upd_pool q f s = s\<lparr>pool_heap := (pool_heap s)(q := f (pool_heap s q))\<rparr>"

text \<open>A dereference of \<open>job->queue\<close>, and an update of the queue it points to.\<close>

definition job_queue :: "mbd \<Rightarrow> jptr \<Rightarrow> crash + qptr" where
  "job_queue s p = (case jd_queue (job_heap s p) of None \<Rightarrow> Inl Null_deref | Some q \<Rightarrow> Inr q)"

definition on_queue :: "jptr \<Rightarrow> (mbd_queue \<Rightarrow> mbd_queue) \<Rightarrow> mbd \<Rightarrow> crash + mbd" where
  "on_queue p f s = bindE (job_queue s p) (\<lambda>q. Inr (upd_queue q f s))"

text \<open>A read of \<open>job->run_hosts[i]\<close> that is dereferenced.\<close>

definition run_host :: "mbd \<Rightarrow> jptr \<Rightarrow> nat \<Rightarrow> crash + hptr" where
  "run_host s p i =
     (let hs = jd_run_hosts (job_heap s p) in
      if i < length hs then (case hs ! i of None \<Rightarrow> Inl Null_deref | Some h \<Rightarrow> Inr h)
      else Inl Out_of_bounds)"

text \<open>The hosts a job occupies: the first \<open>run_nhosts\<close> entries of \<open>run_hosts\<close>.\<close>

definition used_hosts :: "job_data \<Rightarrow> hptr option list" where
  "used_hosts j = take (nat (jd_run_nhosts j)) (jd_run_hosts j)"

text \<open>A loop over the hosts of a job.\<close>

definition for_run_hosts :: "(hptr \<Rightarrow> mbd \<Rightarrow> crash + mbd) \<Rightarrow> jptr \<Rightarrow> mbd \<Rightarrow> crash + mbd" where
  "for_run_hosts f p s =
     foldE (\<lambda>i t. bindE (run_host t p i) (\<lambda>h. f h t)) [0..<nat (jd_run_nhosts (job_heap s p))] s"

section \<open>Job table and job lists\<close>

definition job_find :: "mbd \<Rightarrow> int \<Rightarrow> jptr option" where
  "job_find s job_id = ll_hash_search (job_id_hash s) (fmt_ld job_id)"

definition job_set_list :: "jptr \<Rightarrow> job_list_id \<Rightarrow> mbd \<Rightarrow> mbd" where
  "job_set_list p l s =
     upd_job p (\<lambda>j. j\<lparr>jd_list_id := l\<rparr>) (s\<lparr>job_lists := (job_lists s)(l := job_lists s l @ [p])\<rparr>)"

text \<open>
  Taking a job off a list that does not hold it would unlink it from the list it
  is on and count it off the other one; the model stops there.
\<close>

definition lists_move :: "(job_list_id \<Rightarrow> jptr list) \<Rightarrow> jptr \<Rightarrow> job_list_id \<Rightarrow> job_list_id \<Rightarrow>
    job_list_id \<Rightarrow> jptr list" where
  "lists_move m p a b = (let m' = m(a := remove1 p (m a)) in m'(b := m' b @ [p]))"

definition job_move_list :: "jptr \<Rightarrow> job_list_id \<Rightarrow> job_list_id \<Rightarrow> mbd \<Rightarrow> crash + mbd" where
  "job_move_list p a b s =
     (if p \<in> set (job_lists s a)
      then Inr (upd_job p (\<lambda>j. j\<lparr>jd_list_id := b\<rparr>) (s\<lparr>job_lists := lists_move (job_lists s) p a b\<rparr>))
      else Inl List_corrupted)"

definition job_array_element_finished :: "jptr \<Rightarrow> mbd \<Rightarrow> mbd" where
  "job_array_element_finished p s =
     (if jd_array_id (job_heap s p) = 0 then s
      else case job_find s (jd_array_id (job_heap s p)) of
        None \<Rightarrow> s
      | Some h \<Rightarrow> upd_job h (\<lambda>j. j\<lparr>jd_array_element_cnt := jd_array_element_cnt j - 1\<rparr>) s)"

definition is_manager :: "mbd \<Rightarrow> int \<Rightarrow> bool" where
  "is_manager s uid \<longleftrightarrow> uid = 0 \<or> uid = mgr_uid s"

section \<open>Channels\<close>

definition chan_shutdown :: "int \<Rightarrow> mbd \<Rightarrow> mbd" where
  "chan_shutdown c s = s\<lparr>shut_chans := shut_chans s @ [c]\<rparr>"

text \<open>The result is \<open>True\<close> when the C function returns 0, \<open>False\<close> when it returns -1.\<close>

definition enqueue_payload :: "env \<Rightarrow> int \<Rightarrow> batch_op \<Rightarrow> int \<Rightarrow> wire_body \<Rightarrow> mbd \<Rightarrow> bool \<times> mbd" where
  "enqueue_payload e c op st b s =
     (if e_send_ok e c op
      then (True, s\<lparr>outq := outq s @ [\<lparr>msg_chan = c, msg_op = op, msg_status = st, msg_body = b\<rparr>]\<rparr>)
      else (False, s))"

definition enqueue_header :: "env \<Rightarrow> int \<Rightarrow> batch_op \<Rightarrow> int \<Rightarrow> mbd \<Rightarrow> bool \<times> mbd" where
  "enqueue_header e c op st s = enqueue_payload e c op st No_body s"

section \<open>Event log\<close>

text \<open>
  Every writer asserts a positive time (\<open>write_hdr\<close>); the line then goes to the
  end of the manifest.
\<close>

definition log_append :: "log_event \<Rightarrow> mbd \<Rightarrow> crash + mbd" where
  "log_append ev s =
     (case log_write ev of None \<Rightarrow> Inl Assert_failed | Some l \<Rightarrow> Inr (s\<lparr>manifest := manifest s @ [ev]\<rparr>))"

definition event_job_new :: "jptr \<Rightarrow> wire_job_submit \<Rightarrow> mbd \<Rightarrow> crash + mbd" where
  "event_job_new p ws s =
     (let j = job_heap s p in
      log_append (Job_new \<lparr>ln_job_id = jd_job_id j, ln_array_id = jd_array_id j,
        ln_array_index = jd_array_index j, ln_array_start = jd_array_start j,
        ln_array_end = jd_array_end j, ln_array_stride = jd_array_stride j,
        ln_uid = jd_uid j, ln_gid = jd_gid j, ln_state = job_state_code (jd_state j),
        ln_priority = jd_priority j, ln_submit_time = jd_submit_time j,
        ln_begin_time = ws_begin_time ws, ln_term_time = ws_term_time ws,
        ln_num_cpu = ws_num_cpus ws, ln_num_hosts = ws_num_hosts ws, ln_num_gpus = ws_num_gpus ws,
        ln_mem_mb = uint (ws_mem_mb ws), ln_storage_mb = uint (ws_storage_mb ws),
        ln_flags = uint (ws_flags ws), ln_username = cfield 64 (ws_username ws),
        ln_job_name = cfield 64 (ws_name ws), ln_queue = cfield 64 (ws_queue ws),
        ln_project_name = cfield 64 (ws_project ws),
        ln_gpu_model = cfield 64 (ws_gpu_model ws),
        ln_machines = cfield 1024 (ws_machines ws),
        ln_tokenpool = cfield 256 (ws_tokenpool ws),
        ln_depend_cond = cfield 4096 (ws_depend_cond ws)\<rparr>) s)"

text \<open>The space-separated names of the hosts of the plan, cut to the size of the field.\<close>

definition append_host_name :: "mbd \<Rightarrow> jptr \<Rightarrow> nat \<Rightarrow> string \<Rightarrow> crash + string" where
  "append_host_name s p i buf =
     bindE (run_host s p i) (\<lambda>h.
       Inr (fst (ll_strlcat (if 0 < i then fst (ll_strlcat buf '' '' 4096) else buf)
         (mh_name (host_heap s h)) 4096)))"

definition event_job_start :: "jptr \<Rightarrow> mbd \<Rightarrow> crash + mbd" where
  "event_job_start p s =
     (let j = job_heap s p in
      bindE (foldE (append_host_name s p) [0..<nat (jd_run_nhosts j)] []) (\<lambda>hosts.
        log_append (Job_start \<lparr>ls_job_id = jd_job_id j, ls_dispatch_time = jd_dispatch_time j,
          ls_nhosts = jr_num_hosts (jd_res j), ls_cpus_per_host = jr_num_cpus (jd_res j),
          ls_gpus_per_host = jr_num_gpus (jd_res j), ls_gpu_model = cfield 64 (jr_gpu_model (jd_res j)),
          ls_gpu_assigned = cfield 64 (jd_gpu_assigned j), ls_hosts = hosts\<rparr>) s))"

definition event_job_fork :: "jptr \<Rightarrow> mbd \<Rightarrow> crash + mbd" where
  "event_job_fork p s =
     (let j = job_heap s p in
      log_append (Job_fork \<lparr>lf_job_id = jd_job_id j, lf_job_pid = jd_pid j, lf_fork_time = jd_fork_time j\<rparr>) s)"

definition event_job_signal :: "jptr \<Rightarrow> wire_job_sig \<Rightarrow> mbd \<Rightarrow> crash + mbd" where
  "event_job_signal p ws s =
     (let j = job_heap s p in
      log_append (Job_signal \<lparr>lg_job_id = jd_job_id j, lg_signal_num = sg_sig ws, lg_uid = sg_uid ws,
        lg_signal_time = jd_signal_time j\<rparr>) s)"

definition event_job_finish :: "jptr \<Rightarrow> mbd \<Rightarrow> crash + mbd" where
  "event_job_finish p s =
     (let j = job_heap s p in
      log_append (Job_finish \<lparr>le_job_id = jd_job_id j, le_uid = jd_uid j,
        le_state = job_state_code (jd_state j), le_exit_status = jd_exit_status j,
        le_end_time = jd_end_time j\<rparr>) s)"

definition simple_event :: "env \<Rightarrow> jptr \<Rightarrow> mbd \<Rightarrow> log_job_simple" where
  "simple_event e p s = \<lparr>lo_job_id = jd_job_id (job_heap s p), lo_event_time = e_now e\<rparr>"

definition event_job_pend_susp :: "env \<Rightarrow> jptr \<Rightarrow> mbd \<Rightarrow> crash + mbd" where
  "event_job_pend_susp e p s = log_append (Job_pend_susp (simple_event e p s)) s"

definition event_job_pend_resume :: "env \<Rightarrow> jptr \<Rightarrow> mbd \<Rightarrow> crash + mbd" where
  "event_job_pend_resume e p s = log_append (Job_pend_resume (simple_event e p s)) s"

definition event_job_susp :: "env \<Rightarrow> jptr \<Rightarrow> mbd \<Rightarrow> crash + mbd" where
  "event_job_susp e p s = log_append (Job_susp (simple_event e p s)) s"

definition event_job_move :: "env \<Rightarrow> jptr \<Rightarrow> string \<Rightarrow> mbd \<Rightarrow> crash + mbd" where
  "event_job_move e p to_queue s =
     bindE (job_queue s p) (\<lambda>q.
       log_append (Job_move \<lparr>lm_job_id = jd_job_id (job_heap s p), lm_event_time = e_now e,
         lm_from_queue = cfield 64 (mq_name (queue_heap s q)), lm_to_queue = cfield 64 to_queue\<rparr>) s)"

definition event_job_priority :: "env \<Rightarrow> jptr \<Rightarrow> int \<Rightarrow> mbd \<Rightarrow> crash + mbd" where
  "event_job_priority e p old_priority s =
     log_append (Job_priority \<lparr>lp_job_id = jd_job_id (job_heap s p), lp_event_time = e_now e,
       lp_old_priority = old_priority, lp_new_priority = jd_priority (job_heap s p)\<rparr>) s"

definition event_job_pend :: "env \<Rightarrow> jptr \<Rightarrow> mbd \<Rightarrow> crash + mbd" where
  "event_job_pend e p s = log_append (Job_pend (simple_event e p s)) s"

text \<open>The sequence number of the last job goes to its own file.\<close>

definition job_id_seq_write :: "mbd \<Rightarrow> mbd" where
  "job_id_seq_write s = s\<lparr>seq_file := Some (job_id_seq s)\<rparr>"

section \<open>What the accessors keep\<close>

lemma upd_job_fields [frame_simps, simp]:
  "job_heap (upd_job p f s) = (job_heap s)(p := f (job_heap s p))"
  "job_lists (upd_job p f s) = job_lists s" "job_id_hash (upd_job p f s) = job_id_hash s"
  "host_heap (upd_job p f s) = host_heap s" "host_list (upd_job p f s) = host_list s"
  "queue_heap (upd_job p f s) = queue_heap s" "queue_list (upd_job p f s) = queue_list s"
  "pool_heap (upd_job p f s) = pool_heap s" "token_pool_name_hash (upd_job p f s) = token_pool_name_hash s"
  "token_pool_list (upd_job p f s) = token_pool_list s" "host_name_hash (upd_job p f s) = host_name_hash s"
  "queue_name_hash (upd_job p f s) = queue_name_hash s" "job_fresh (upd_job p f s) = job_fresh s"
  "job_id_seq (upd_job p f s) = job_id_seq s" "assert_counters (upd_job p f s) = assert_counters s"
  "manifest (upd_job p f s) = manifest s" "outq (upd_job p f s) = outq s"
  "shut_chans (upd_job p f s) = shut_chans s" "mgr_uid (upd_job p f s) = mgr_uid s"
  "sbd_chan_hash (upd_job p f s) = sbd_chan_hash s" "submit_files (upd_job p f s) = submit_files s"
  "script_files (upd_job p f s) = script_files s" "usage_files (upd_job p f s) = usage_files s" "seq_file (upd_job p f s) = seq_file s"
  by (simp_all add: upd_job_def)

lemma upd_host_fields [frame_simps, simp]:
  "host_heap (upd_host p f s) = (host_heap s)(p := f (host_heap s p))"
  "job_lists (upd_host p f s) = job_lists s" "job_id_hash (upd_host p f s) = job_id_hash s"
  "job_heap (upd_host p f s) = job_heap s" "host_list (upd_host p f s) = host_list s"
  "queue_heap (upd_host p f s) = queue_heap s" "queue_list (upd_host p f s) = queue_list s"
  "pool_heap (upd_host p f s) = pool_heap s" "token_pool_name_hash (upd_host p f s) = token_pool_name_hash s"
  "token_pool_list (upd_host p f s) = token_pool_list s" "host_name_hash (upd_host p f s) = host_name_hash s"
  "queue_name_hash (upd_host p f s) = queue_name_hash s" "job_fresh (upd_host p f s) = job_fresh s"
  "job_id_seq (upd_host p f s) = job_id_seq s" "assert_counters (upd_host p f s) = assert_counters s"
  "manifest (upd_host p f s) = manifest s" "outq (upd_host p f s) = outq s"
  "shut_chans (upd_host p f s) = shut_chans s" "mgr_uid (upd_host p f s) = mgr_uid s"
  "sbd_chan_hash (upd_host p f s) = sbd_chan_hash s" "submit_files (upd_host p f s) = submit_files s"
  "script_files (upd_host p f s) = script_files s" "usage_files (upd_host p f s) = usage_files s" "seq_file (upd_host p f s) = seq_file s"
  by (simp_all add: upd_host_def)

lemma upd_queue_fields [frame_simps, simp]:
  "queue_heap (upd_queue p f s) = (queue_heap s)(p := f (queue_heap s p))"
  "job_lists (upd_queue p f s) = job_lists s" "job_id_hash (upd_queue p f s) = job_id_hash s"
  "job_heap (upd_queue p f s) = job_heap s" "host_list (upd_queue p f s) = host_list s"
  "host_heap (upd_queue p f s) = host_heap s" "queue_list (upd_queue p f s) = queue_list s"
  "pool_heap (upd_queue p f s) = pool_heap s" "token_pool_name_hash (upd_queue p f s) = token_pool_name_hash s"
  "token_pool_list (upd_queue p f s) = token_pool_list s" "host_name_hash (upd_queue p f s) = host_name_hash s"
  "queue_name_hash (upd_queue p f s) = queue_name_hash s" "job_fresh (upd_queue p f s) = job_fresh s"
  "job_id_seq (upd_queue p f s) = job_id_seq s" "assert_counters (upd_queue p f s) = assert_counters s"
  "manifest (upd_queue p f s) = manifest s" "outq (upd_queue p f s) = outq s"
  "shut_chans (upd_queue p f s) = shut_chans s" "mgr_uid (upd_queue p f s) = mgr_uid s"
  "sbd_chan_hash (upd_queue p f s) = sbd_chan_hash s" "submit_files (upd_queue p f s) = submit_files s"
  "script_files (upd_queue p f s) = script_files s" "usage_files (upd_queue p f s) = usage_files s" "seq_file (upd_queue p f s) = seq_file s"
  by (simp_all add: upd_queue_def)

lemma upd_pool_fields [frame_simps, simp]:
  "pool_heap (upd_pool p f s) = (pool_heap s)(p := f (pool_heap s p))"
  "job_lists (upd_pool p f s) = job_lists s" "job_id_hash (upd_pool p f s) = job_id_hash s"
  "job_heap (upd_pool p f s) = job_heap s" "host_list (upd_pool p f s) = host_list s"
  "host_heap (upd_pool p f s) = host_heap s" "queue_list (upd_pool p f s) = queue_list s"
  "queue_heap (upd_pool p f s) = queue_heap s" "token_pool_name_hash (upd_pool p f s) = token_pool_name_hash s"
  "token_pool_list (upd_pool p f s) = token_pool_list s" "host_name_hash (upd_pool p f s) = host_name_hash s"
  "queue_name_hash (upd_pool p f s) = queue_name_hash s" "job_fresh (upd_pool p f s) = job_fresh s"
  "job_id_seq (upd_pool p f s) = job_id_seq s" "assert_counters (upd_pool p f s) = assert_counters s"
  "manifest (upd_pool p f s) = manifest s" "outq (upd_pool p f s) = outq s"
  "shut_chans (upd_pool p f s) = shut_chans s" "mgr_uid (upd_pool p f s) = mgr_uid s"
  "sbd_chan_hash (upd_pool p f s) = sbd_chan_hash s" "submit_files (upd_pool p f s) = submit_files s"
  "script_files (upd_pool p f s) = script_files s" "usage_files (upd_pool p f s) = usage_files s" "seq_file (upd_pool p f s) = seq_file s"
  by (simp_all add: upd_pool_def)

text \<open>Writing an event only appends to the manifest, and succeeds when the time is positive.\<close>

lemma log_append_Inr:
  "log_append ev s = Inr t \<Longrightarrow> t = s\<lparr>manifest := manifest s @ [ev]\<rparr>"
  by (auto simp: log_append_def split: option.splits)

lemma log_append_ok: "0 < ev_time ev \<Longrightarrow> log_append ev s = Inr (s\<lparr>manifest := manifest s @ [ev]\<rparr>)"
  by (cases ev) (auto simp: log_append_def log_write_job_new_def log_write_job_start_def
      log_write_job_fork_def log_write_job_signal_def log_write_job_finish_def
      log_write_job_pend_susp_def log_write_job_pend_resume_def log_write_job_susp_def
      log_write_job_move_def log_write_job_priority_def log_write_job_pend_def log_write_simple_def write_hdr_def)

end
