(* ===== verification/Mbd_Resources.thy ===== *)
theory Mbd_Resources
  imports Mbd_State
begin

text \<open>
  What a job takes and gives back: devices (\<open>gpu_ids_*\<close>), the shares of its hosts
  (\<open>host_update_resources\<close> of \<open>sched.c\<close>, \<open>reset_host_resources\<close> of \<open>job.c\<close>), tokens
  (\<open>token_alloc\<close>, \<open>token_pool_release\<close>), the references to the jobs it depends on,
  and the cross check of all counters (\<open>mbd_assert_counters\<close>).
\<close>

section \<open>Devices\<close>

definition gpu_ids_count_free :: "mbd_gpu \<Rightarrow> int" where
  "gpu_ids_count_free g = int (length (filter (\<lambda>d. \<not> gi_in_use d) (gp_ids g)))"

definition mark_gpu :: "bool \<Rightarrow> gpu_id \<Rightarrow> gpu_id" where
  "mark_gpu b d = d\<lparr>gi_in_use := b\<rparr>"

text \<open>
  Both loops look at the first \<open>num_gpus\<close> devices and count the ones they change;
  the assertion after the loop wants all of them changed.
\<close>

definition gpu_ids_mark_free :: "mbd_gpu \<Rightarrow> int \<Rightarrow> crash + mbd_gpu" where
  "gpu_ids_mark_free g num_gpus =
     (let n = nat num_gpus; ids = gp_ids g;
          freed = int (length (filter gi_in_use (take n ids))) in
      bindE (assertE Assert_failed (num_gpus \<le> int (length ids))) (\<lambda>_.
      bindE (assertE Assert_failed (freed = num_gpus)) (\<lambda>_.
        Inr (g\<lparr>gp_ids := map (mark_gpu False) (take n ids) @ drop n ids\<rparr>))))"

definition gpu_ids_mark_inuse :: "mbd_gpu \<Rightarrow> int \<Rightarrow> crash + mbd_gpu" where
  "gpu_ids_mark_inuse g num_gpus =
     (let n = nat num_gpus; ids = gp_ids g;
          marked = int (length (filter (\<lambda>d. \<not> gi_in_use d) (take n ids))) in
      bindE (assertE Assert_failed (num_gpus \<le> int (length ids))) (\<lambda>_.
      bindE (assertE Assert_failed (marked = num_gpus)) (\<lambda>_.
        Inr (g\<lparr>gp_ids := map (mark_gpu True) (take n ids) @ drop n ids\<rparr>))))"

section \<open>Hosts\<close>

text \<open>One iteration of \<open>reset_host_resources\<close>.\<close>

definition release_host :: "job_data \<Rightarrow> mbd_host \<Rightarrow> mbd_host" where
  "release_host j h =
     h\<lparr>mh_free_cpu := mh_free_cpu h + jr_num_cpus (jd_res j),
       mh_free_mem_mb := mh_free_mem_mb h + jr_mem_mb (jd_res j),
       mh_free_storage_mb := mh_free_storage_mb h + jr_storage_mb (jd_res j),
       mh_num_jobs := mh_num_jobs h - 1,
       mh_num_cpus_used := mh_num_cpus_used h - jr_num_cpus (jd_res j),
       mh_num_run := (if jd_state j = JOB_RUNNING then mh_num_run h - 1 else mh_num_run h),
       mh_num_susp := (if jd_state j = JOB_SUSPENDED then mh_num_susp h - 1 else mh_num_susp h),
       mh_exclusive := (if has_flag (jd_flags j) JOB_FLAG_EXCLUSIVE then False else mh_exclusive h)\<rparr>"

definition release_gpus :: "job_data \<Rightarrow> mbd_host \<Rightarrow> crash + mbd_host" where
  "release_gpus j h =
     (if 0 < jr_num_gpus (jd_res j)
      then bindE (gpu_ids_mark_free (mh_gpu h) (jr_num_gpus (jd_res j))) (\<lambda>g. Inr (h\<lparr>mh_gpu := g\<rparr>))
      else Inr h)"

definition reset_host_resources :: "jptr \<Rightarrow> mbd \<Rightarrow> crash + mbd" where
  "reset_host_resources p s =
     for_run_hosts (\<lambda>h t.
       bindE (release_gpus (job_heap t p) (release_host (job_heap t p) (host_heap t h)))
         (\<lambda>h'. Inr (upd_host h (\<lambda>_. h') t))) p s"

definition charge_host :: "job_data \<Rightarrow> mbd_host \<Rightarrow> mbd_host" where
  "charge_host j h =
     (let free_cpu = mh_free_cpu h - jr_num_cpus (jd_res j) in
      h\<lparr>mh_free_cpu := free_cpu,
        mh_free_mem_mb := mh_free_mem_mb h - jr_mem_mb (jd_res j),
        mh_free_storage_mb := mh_free_storage_mb h - jr_storage_mb (jd_res j),
        mh_num_jobs := mh_num_jobs h + 1,
        mh_num_run := mh_num_run h + 1,
        mh_num_cpus_used := mh_num_cpus_used h + jr_num_cpus (jd_res j),
        mh_candidate := (if free_cpu \<le> 0 then False else mh_candidate h),
        mh_exclusive := (if has_flag (jd_flags j) JOB_FLAG_EXCLUSIVE then True else mh_exclusive h)\<rparr>)"

definition host_update_resources :: "jptr \<Rightarrow> mbd \<Rightarrow> crash + mbd" where
  "host_update_resources p s =
     for_run_hosts (\<lambda>h t. Inr (upd_host h (charge_host (job_heap t p)) t)) p s"

section \<open>Tokens\<close>

text \<open>The loop that \<open>token_alloc\<close> and \<open>token_pool_release\<close> share: a pool that is gone is skipped.\<close>

definition token_adjust :: "int \<Rightarrow> job_token \<Rightarrow> mbd \<Rightarrow> mbd" where
  "token_adjust sign t s =
     (case ll_hash_search (token_pool_name_hash s) (tk_name t) of
        None \<Rightarrow> s
      | Some q \<Rightarrow> upd_pool q (\<lambda>tp. tp\<lparr>tp_free := tp_free tp + sign * tk_count t\<rparr>) s)"

definition token_alloc :: "jptr \<Rightarrow> mbd \<Rightarrow> mbd" where
  "token_alloc p s = fold (token_adjust (- 1)) (jr_tokens (jd_res (job_heap s p))) s"

definition token_pool_release :: "jptr \<Rightarrow> mbd \<Rightarrow> mbd" where
  "token_pool_release p s = fold (token_adjust 1) (jr_tokens (jd_res (job_heap s p))) s"

definition tokens_available :: "jptr \<Rightarrow> mbd \<Rightarrow> bool" where
  "tokens_available p s \<longleftrightarrow>
     list_all (\<lambda>t. case ll_hash_search (token_pool_name_hash s) (tk_name t) of
        None \<Rightarrow> False
      | Some q \<Rightarrow> \<not> tp_free (pool_heap s q) < tk_count t) (jr_tokens (jd_res (job_heap s p)))"

section \<open>References between jobs\<close>

definition dep_refcnt_step :: "int \<Rightarrow> job_dep \<Rightarrow> mbd \<Rightarrow> mbd" where
  "dep_refcnt_step delta d s =
     (if dep_kind d \<noteq> DEP_DONE \<and> dep_kind d \<noteq> DEP_EXIT \<and> dep_kind d \<noteq> DEP_ENDED then s
      else case job_find s (dep_job_id d) of
        None \<Rightarrow> s
      | Some p \<Rightarrow> upd_job p (\<lambda>j. j\<lparr>jd_dep_refcnt := jd_dep_refcnt j + delta\<rparr>) s)"

definition job_deps_refcnt :: "jptr \<Rightarrow> int \<Rightarrow> mbd \<Rightarrow> mbd" where
  "job_deps_refcnt p delta s = fold (dep_refcnt_step delta) (jd_deps (job_heap s p)) s"

definition job_deps_hold :: "jptr \<Rightarrow> mbd \<Rightarrow> mbd" where
  "job_deps_hold p s = job_deps_refcnt p 1 s"

definition job_deps_release :: "jptr \<Rightarrow> mbd \<Rightarrow> mbd" where
  "job_deps_release p s = job_deps_refcnt p (- 1) s"

section \<open>The cross check of the counters\<close>

definition job_uses_host :: "job_data \<Rightarrow> hptr \<Rightarrow> bool" where
  "job_uses_host j h \<longleftrightarrow> Some h \<in> set (used_hosts j)"

text \<open>What the host loop finds for one host, before it compares.\<close>

definition host_states_ok :: "mbd \<Rightarrow> hptr \<Rightarrow> bool" where
  "host_states_ok s h \<longleftrightarrow>
     list_all (\<lambda>p. job_uses_host (job_heap s p) h \<longrightarrow>
       jd_state (job_heap s p) \<in> {JOB_SUSPENDED, JOB_RUNNING, JOB_ORPHAN}) (job_lists s JOB_LIST_RUN)"

definition host_sum :: "mbd \<Rightarrow> hptr \<Rightarrow> (job_data \<Rightarrow> int) \<Rightarrow> int" where
  "host_sum s h f =
     tally (\<lambda>p. if job_uses_host (job_heap s p) h then f (job_heap s p) else 0) (job_lists s JOB_LIST_RUN)"

definition assert_host_counters :: "mbd \<Rightarrow> hptr \<Rightarrow> bool" where
  "assert_host_counters s h \<longleftrightarrow>
     (let x = host_heap s h in
      0 \<le> mh_free_cpu x \<and> host_states_ok s h \<and>
      mh_num_jobs x = host_sum s h (\<lambda>j. 1) \<and>
      mh_num_run x = host_sum s h (\<lambda>j. of_bool (jd_state j = JOB_RUNNING)) \<and>
      mh_num_susp x = host_sum s h (\<lambda>j. of_bool (jd_state j = JOB_SUSPENDED)) \<and>
      mh_num_cpus_used x = host_sum s h (\<lambda>j. jr_num_cpus (jd_res j)))"

definition queue_sum :: "mbd \<Rightarrow> qptr \<Rightarrow> job_list_id \<Rightarrow> (job_data \<Rightarrow> int) \<Rightarrow> int" where
  "queue_sum s q l f =
     tally (\<lambda>p. if jd_queue (job_heap s p) = Some q then f (job_heap s p) else 0) (job_lists s l)"

definition queue_states_ok :: "mbd \<Rightarrow> qptr \<Rightarrow> bool" where
  "queue_states_ok s q \<longleftrightarrow>
     list_all (\<lambda>p. jd_queue (job_heap s p) = Some q \<longrightarrow>
       jd_state (job_heap s p) \<in> {JOB_HELD, JOB_PENDING, JOB_BROKEN, JOB_ORPHAN}) (job_lists s JOB_LIST_PEND) \<and>
     list_all (\<lambda>p. jd_queue (job_heap s p) = Some q \<longrightarrow>
       jd_state (job_heap s p) \<in> {JOB_SUSPENDED, JOB_RUNNING}) (job_lists s JOB_LIST_RUN)"

definition assert_queue_counters :: "mbd \<Rightarrow> qptr \<Rightarrow> bool" where
  "assert_queue_counters s q \<longleftrightarrow>
     (let x = queue_heap s q in
      queue_states_ok s q \<and>
      mq_num_jobs x = queue_sum s q JOB_LIST_PEND (\<lambda>j. 1) + queue_sum s q JOB_LIST_RUN (\<lambda>j. 1) \<and>
      mq_num_pend x = queue_sum s q JOB_LIST_PEND
        (\<lambda>j. of_bool (jd_state j \<in> {JOB_PENDING, JOB_BROKEN, JOB_ORPHAN})) \<and>
      mq_num_run x = queue_sum s q JOB_LIST_RUN (\<lambda>j. of_bool (jd_state j = JOB_RUNNING)) \<and>
      mq_num_susp x = queue_sum s q JOB_LIST_RUN (\<lambda>j. of_bool (jd_state j = JOB_SUSPENDED)) \<and>
      mq_num_held x = queue_sum s q JOB_LIST_PEND (\<lambda>j. of_bool (jd_state j = JOB_HELD)) \<and>
      mq_num_cpus_used x =
        queue_sum s q JOB_LIST_RUN (\<lambda>j. jr_num_cpus (jd_res j) * jd_run_nhosts j) \<and>
      mq_num_hosts_used x = queue_sum s q JOB_LIST_RUN (\<lambda>j. jd_run_nhosts j))"

definition mbd_assert_counters :: "mbd \<Rightarrow> crash + mbd" where
  "mbd_assert_counters s =
     (if \<not> assert_counters s then Inr s
      else if list_all (assert_host_counters s) (host_list s) \<and> list_all (assert_queue_counters s) (queue_list s)
      then Inr s else Inl Assert_failed)"

section \<open>Loops over the hosts of a job\<close>

definition run_hosts_are :: "job_data \<Rightarrow> hptr list \<Rightarrow> bool" where
  "run_hosts_are j hs \<longleftrightarrow>
     jd_run_nhosts j = int (length hs) \<and> length hs \<le> length (jd_run_hosts j) \<and>
     take (length hs) (jd_run_hosts j) = map Some hs"

lemma run_hosts_are_used: "run_hosts_are j hs \<Longrightarrow> used_hosts j = map Some hs"
  by (simp add: run_hosts_are_def used_hosts_def)

lemma run_hosts_are_uses: "run_hosts_are j hs \<Longrightarrow> job_uses_host j h \<longleftrightarrow> h \<in> set hs"
  by (auto simp: job_uses_host_def run_hosts_are_used)

lemma run_host_nth:
  "run_hosts_are (job_heap s p) hs \<Longrightarrow> i < length hs \<Longrightarrow> run_host s p i = Inr (hs ! i)"
proof -
  assume a: "run_hosts_are (job_heap s p) hs" "i < length hs"
  then have "jd_run_hosts (job_heap s p) ! i = Some (hs ! i)"
    by (metis nth_map nth_take run_hosts_are_def)
  with a show ?thesis by (simp add: run_host_def run_hosts_are_def Let_def)
qed

lemma for_run_hosts_aux:
  assumes "\<And>h t t'. f h t = Inr t' \<Longrightarrow> job_heap t' = job_heap t"
    and "run_hosts_are (job_heap s p) hs" and "k \<le> length hs"
  shows "foldE (\<lambda>i t. bindE (run_host t p i) (\<lambda>h. f h t)) [k..<length hs] s = foldE f (drop k hs) s"
  using assms(2,3)
proof (induction "length hs - k" arbitrary: k s)
  case 0
  then show ?case by simp
next
  case (Suc n)
  then have k: "k < length hs" by simp
  have d: "drop k hs = hs ! k # drop (Suc k) hs" using k by (simp add: Cons_nth_drop_Suc)
  have u: "[k..<length hs] = k # [Suc k..<length hs]" using k by (rule upt_conv_Cons)
  show ?case
  proof (cases "f (hs ! k) s")
    case (Inl e)
    then show ?thesis by (simp add: d u run_host_nth [OF Suc.prems(1) k])
  next
    case (Inr t)
    have "run_hosts_are (job_heap t p) hs" using assms(1) [OF Inr] Suc.prems(1) by simp
    with Suc.hyps k have "foldE (\<lambda>i t. bindE (run_host t p i) (\<lambda>h. f h t)) [Suc k..<length hs] t =
        foldE f (drop (Suc k) hs) t" by simp
    with Inr show ?thesis by (simp add: d u run_host_nth [OF Suc.prems(1) k])
  qed
qed

lemma for_run_hosts_fold:
  assumes "\<And>h t t'. f h t = Inr t' \<Longrightarrow> job_heap t' = job_heap t" and "run_hosts_are (job_heap s p) hs"
  shows "for_run_hosts f p s = foldE f hs s"
  using for_run_hosts_aux [OF assms, where k = 0] assms(2) by (simp add: for_run_hosts_def run_hosts_are_def)

definition host_loop :: "(job_data \<Rightarrow> mbd_host \<Rightarrow> crash + mbd_host) \<Rightarrow> jptr \<Rightarrow> hptr \<Rightarrow> mbd \<Rightarrow> crash + mbd" where
  "host_loop g p h t = bindE (g (job_heap t p) (host_heap t h)) (\<lambda>h'. Inr (upd_host h (\<lambda>_. h') t))"

lemma host_loop_Inr:
  "host_loop g p h t = Inr t' \<longleftrightarrow> (\<exists>x. g (job_heap t p) (host_heap t h) = Inr x \<and> t' = upd_host h (\<lambda>_. x) t)"
  by (auto simp: host_loop_def bindE_Inr_iff)

lemma host_loop_job_heap: "host_loop g p h t = Inr t' \<Longrightarrow> job_heap t' = job_heap t"
  by (auto simp: host_loop_Inr)

lemma host_loop_result:
  assumes "foldE (host_loop g p) hs s = Inr t" and "distinct hs"
  shows "t = s\<lparr>host_heap := host_heap t\<rparr> \<and> (\<forall>h. h \<notin> set hs \<longrightarrow> host_heap t h = host_heap s h) \<and>
    (\<forall>h \<in> set hs. g (job_heap s p) (host_heap s h) = Inr (host_heap t h))"
  using assms
proof (induction hs arbitrary: s)
  case Nil
  then show ?case by simp
next
  case (Cons h hs)
  from Cons.prems(1) obtain h' where g: "g (job_heap s p) (host_heap s h) = Inr h'"
    and f: "foldE (host_loop g p) hs (upd_host h (\<lambda>_. h') s) = Inr t"
    by (auto simp: host_loop_Inr bindE_Inr_iff)
  from Cons.IH [OF f] Cons.prems(2)
  have ih: "t = upd_host h (\<lambda>_. h') s\<lparr>host_heap := host_heap t\<rparr>"
    and o: "\<forall>x. x \<notin> set hs \<longrightarrow> host_heap t x = ((host_heap s)(h := h')) x"
    and i: "\<forall>x \<in> set hs. g (job_heap s p) (((host_heap s)(h := h')) x) = Inr (host_heap t x)" by auto
  have h: "h \<notin> set hs" using Cons.prems(2) by simp
  have "t = s\<lparr>host_heap := host_heap t\<rparr>" using ih by (simp add: upd_host_def)
  moreover have "\<forall>x. x \<notin> set (h # hs) \<longrightarrow> host_heap t x = host_heap s x" using o by auto
  moreover have "host_heap t h = h'" using o h by simp
  then have "\<forall>x \<in> set (h # hs). g (job_heap s p) (host_heap s x) = Inr (host_heap t x)"
    using i h g by (auto split: if_splits)
  ultimately show ?case by blast
qed

lemma host_loop_total:
  assumes "\<forall>h \<in> set hs. \<exists>x. g (job_heap s p) (host_heap s h) = Inr x" and "distinct hs"
  shows "\<exists>t. foldE (host_loop g p) hs s = Inr t"
  using assms
proof (induction hs arbitrary: s)
  case Nil
  then show ?case by simp
next
  case (Cons h hs)
  then obtain x where x: "g (job_heap s p) (host_heap s h) = Inr x" by auto
  have "\<forall>k \<in> set hs. \<exists>y. g (job_heap (upd_host h (\<lambda>_. x) s) p) (host_heap (upd_host h (\<lambda>_. x) s) k) = Inr y"
    using Cons.prems by auto
  then obtain t where "foldE (host_loop g p) hs (upd_host h (\<lambda>_. x) s) = Inr t"
    using Cons.IH Cons.prems(2) by fastforce
  moreover have "host_loop g p h s = Inr (upd_host h (\<lambda>_. x) s)" using x by (simp add: host_loop_Inr)
  ultimately show ?case by simp
qed

lemma reset_host_resources_loop:
  assumes "run_hosts_are (job_heap s p) hs"
  shows "reset_host_resources p s = foldE (host_loop (\<lambda>j h. release_gpus j (release_host j h)) p) hs s"
proof -
  have "reset_host_resources p s = for_run_hosts (host_loop (\<lambda>j h. release_gpus j (release_host j h)) p) p s"
    by (simp add: reset_host_resources_def host_loop_def [abs_def])
  then show ?thesis using for_run_hosts_fold [OF host_loop_job_heap assms] by simp
qed

lemma host_update_resources_loop:
  assumes "run_hosts_are (job_heap s p) hs"
  shows "host_update_resources p s = foldE (host_loop (\<lambda>j h. Inr (charge_host j h)) p) hs s"
proof -
  have "upd_host h (charge_host j) t = upd_host h (\<lambda>_. charge_host j (host_heap t h)) t" for h j t
    by (simp add: upd_host_def)
  then have "host_update_resources p s = for_run_hosts (host_loop (\<lambda>j h. Inr (charge_host j h)) p) p s"
    by (simp add: host_update_resources_def host_loop_def [abs_def])
  then show ?thesis using for_run_hosts_fold [OF host_loop_job_heap assms] by simp
qed

lemma release_gpus_Inr: "release_gpus j h = Inr h' \<Longrightarrow> h' = h\<lparr>mh_gpu := mh_gpu h'\<rparr>"
  by (auto simp: release_gpus_def bindE_Inr_iff split: if_splits)

section \<open>Tokens and references\<close>

definition token_weight :: "pptr ll_hash \<Rightarrow> pptr \<Rightarrow> job_token list \<Rightarrow> int" where
  "token_weight ht q ts = tally (\<lambda>t. if ll_hash_search ht (tk_name t) = Some q then tk_count t else 0) ts"

lemma token_adjust_fields:
  "token_adjust sg t s = s\<lparr>pool_heap := pool_heap (token_adjust sg t s)\<rparr>"
  "tp_free (pool_heap (token_adjust sg t s) q) =
     tp_free (pool_heap s q) + (if ll_hash_search (token_pool_name_hash s) (tk_name t) = Some q
       then sg * tk_count t else 0)"
  "tp_total (pool_heap (token_adjust sg t s) q) = tp_total (pool_heap s q)"
  by (auto simp: token_adjust_def upd_pool_def split: option.splits)

lemma fold_token_adjust:
  "fold (token_adjust sg) ts s = s\<lparr>pool_heap := pool_heap (fold (token_adjust sg) ts s)\<rparr> \<and>
   tp_free (pool_heap (fold (token_adjust sg) ts s) q) =
     tp_free (pool_heap s q) + sg * token_weight (token_pool_name_hash s) q ts \<and>
   tp_total (pool_heap (fold (token_adjust sg) ts s) q) = tp_total (pool_heap s q)"
proof (induction ts arbitrary: s)
  case Nil
  then show ?case by (simp add: token_weight_def)
next
  case (Cons t ts)
  let ?u = "token_adjust sg t s"
  have u: "?u = s\<lparr>pool_heap := pool_heap ?u\<rparr>" by (rule token_adjust_fields)
  have k: "token_pool_name_hash ?u = token_pool_name_hash s" by (subst u) simp
  note ih = Cons.IH [of ?u]
  have "fold (token_adjust sg) ts ?u = s\<lparr>pool_heap := pool_heap (fold (token_adjust sg) ts ?u)\<rparr>"
    by (subst ih [THEN conjunct1], subst u) simp
  then show ?case
    using ih by (simp add: k token_adjust_fields(2,3) token_weight_def algebra_simps)
qed

lemma token_alloc_result:
  obtains ph where "token_alloc p s = s\<lparr>pool_heap := ph\<rparr>"
    and "\<And>q. tp_free (ph q) = tp_free (pool_heap s q) -
      token_weight (token_pool_name_hash s) q (jr_tokens (jd_res (job_heap s p)))"
    and "\<And>q. tp_total (ph q) = tp_total (pool_heap s q)"
  using fold_token_adjust [of "- 1" "jr_tokens (jd_res (job_heap s p))" s]
  by (force simp: token_alloc_def)

lemma token_pool_release_result:
  obtains ph where "token_pool_release p s = s\<lparr>pool_heap := ph\<rparr>"
    and "\<And>q. tp_free (ph q) = tp_free (pool_heap s q) +
      token_weight (token_pool_name_hash s) q (jr_tokens (jd_res (job_heap s p)))"
    and "\<And>q. tp_total (ph q) = tp_total (pool_heap s q)"
  using fold_token_adjust [of 1 "jr_tokens (jd_res (job_heap s p))" s]
  by (force simp: token_pool_release_def)

text \<open>Two records of a job that differ at most in the counts kept for other jobs.\<close>

definition minor :: "job_data \<Rightarrow> job_data \<Rightarrow> bool" where
  "minor j j' \<longleftrightarrow> (\<exists>n m. j' = j\<lparr>jd_dep_refcnt := n, jd_array_element_cnt := m\<rparr>)"

lemma minor_refl [simp]: "minor j j"
  unfolding minor_def by (rule exI [of _ "jd_dep_refcnt j"], rule exI [of _ "jd_array_element_cnt j"]) simp

lemma minor_trans: "minor j k \<Longrightarrow> minor k l \<Longrightarrow> minor j l"
  by (auto simp: minor_def) blast

lemma minor_refcnt [simp]: "minor j (j\<lparr>jd_dep_refcnt := n\<rparr>)"
  unfolding minor_def by (rule exI [of _ n], rule exI [of _ "jd_array_element_cnt j"]) simp

lemma minor_elements [simp]: "minor j (j\<lparr>jd_array_element_cnt := n\<rparr>)"
  unfolding minor_def by (rule exI [of _ "jd_dep_refcnt j"], rule exI [of _ n]) simp

definition minor_step :: "mbd \<Rightarrow> mbd \<Rightarrow> bool" where
  "minor_step s t \<longleftrightarrow> t = s\<lparr>job_heap := job_heap t\<rparr> \<and> (\<forall>p. minor (job_heap s p) (job_heap t p))"

lemma minor_step_refl [simp]: "minor_step s s"
  by (simp add: minor_step_def)

lemma minor_step_trans: "minor_step s t \<Longrightarrow> minor_step t u \<Longrightarrow> minor_step s u"
proof -
  assume a: "minor_step s t" "minor_step t u"
  then have "\<And>p. minor (job_heap s p) (job_heap u p)" by (metis minor_step_def minor_trans)
  moreover from a have "u = s\<lparr>job_heap := job_heap u\<rparr>"
    unfolding minor_step_def by (metis (no_types, lifting) mbd.update_convs(1) mbd.surjective mbd.select_convs(1))
  ultimately show "minor_step s u" by (simp add: minor_step_def)
qed

lemma minor_upd_job: "(\<And>j. minor j (f j)) \<Longrightarrow> minor_step s (upd_job p f s)"
  by (simp add: minor_step_def upd_job_def)

lemma job_array_element_finished_minor: "minor_step s (job_array_element_finished p s)"
  by (auto simp: job_array_element_finished_def intro: minor_upd_job split: option.splits)

lemma dep_refcnt_step_minor: "minor_step s (dep_refcnt_step delta d s)"
  by (auto simp: dep_refcnt_step_def intro: minor_upd_job split: option.splits)

lemma job_deps_refcnt_minor: "minor_step s (job_deps_refcnt p delta s)"
proof -
  have "minor_step s (fold (dep_refcnt_step delta) ds s)" for ds
    by (induction ds arbitrary: s) (auto intro: minor_step_trans dep_refcnt_step_minor)
  then show ?thesis by (simp add: job_deps_refcnt_def)
qed

end
