(* ===== verification/Mbd_Inv.thy ===== *)
theory Mbd_Inv
  imports Mbd_Resources
begin

text \<open>
  The invariant of the master daemon. Every counter of a queue, a host or a token
  pool is the sum of what the jobs contribute to it; a job is on the list its
  \<open>list_id\<close> names, in a state that fits, with the hosts and the queue it needs; the
  job table holds exactly the jobs of the three lists. The theory gives the one
  lemma the handlers use: a step that changes one job and the counters by the
  difference of its contributions keeps the invariant.
\<close>

section \<open>Contributions of a job\<close>

datatype qctr = Q_jobs | Q_pend | Q_held | Q_run | Q_susp | Q_cpus | Q_hosts

fun q_ctr :: "qctr \<Rightarrow> mbd_queue \<Rightarrow> int" where
  "q_ctr Q_jobs x = mq_num_jobs x"
| "q_ctr Q_pend x = mq_num_pend x"
| "q_ctr Q_held x = mq_num_held x"
| "q_ctr Q_run x = mq_num_run x"
| "q_ctr Q_susp x = mq_num_susp x"
| "q_ctr Q_cpus x = mq_num_cpus_used x"
| "q_ctr Q_hosts x = mq_num_hosts_used x"

fun q_share :: "qctr \<Rightarrow> job_data \<Rightarrow> int" where
  "q_share Q_jobs j = of_bool (jd_list_id j \<noteq> JOB_LIST_FINISH)"
| "q_share Q_pend j = of_bool (jd_list_id j = JOB_LIST_PEND \<and> jd_state j = JOB_PENDING)"
| "q_share Q_held j = of_bool (jd_list_id j = JOB_LIST_PEND \<and> jd_state j = JOB_HELD)"
| "q_share Q_run j = of_bool (jd_list_id j = JOB_LIST_RUN \<and> jd_state j = JOB_RUNNING)"
| "q_share Q_susp j = of_bool (jd_list_id j = JOB_LIST_RUN \<and> jd_state j = JOB_SUSPENDED)"
| "q_share Q_cpus j =
     (if jd_list_id j = JOB_LIST_RUN then jr_num_cpus (jd_res j) * jd_run_nhosts j else 0)"
| "q_share Q_hosts j = (if jd_list_id j = JOB_LIST_RUN then jd_run_nhosts j else 0)"

definition q_weight :: "qctr \<Rightarrow> qptr \<Rightarrow> job_data \<Rightarrow> int" where
  "q_weight c q j = (if jd_queue j = Some q then q_share c j else 0)"

text \<open>
  For hosts the free amounts are counted as well, as the part of the total that
  is taken.
\<close>

datatype hctr = H_jobs | H_run | H_susp | H_cpus | H_taken | H_mem | H_storage | H_excl

fun h_ctr :: "hctr \<Rightarrow> mbd_host \<Rightarrow> int" where
  "h_ctr H_jobs x = mh_num_jobs x"
| "h_ctr H_run x = mh_num_run x"
| "h_ctr H_susp x = mh_num_susp x"
| "h_ctr H_cpus x = mh_num_cpus_used x"
| "h_ctr H_taken x = mh_total_cpu x - mh_free_cpu x"
| "h_ctr H_mem x = uint (mh_total_mem_mb x) - uint (mh_free_mem_mb x)"
| "h_ctr H_storage x = uint (mh_total_storage_mb x) - uint (mh_free_storage_mb x)"
| "h_ctr H_excl x = of_bool (mh_exclusive x)"

fun h_share :: "hctr \<Rightarrow> job_data \<Rightarrow> int" where
  "h_share H_jobs j = 1"
| "h_share H_run j = of_bool (jd_state j = JOB_RUNNING)"
| "h_share H_susp j = of_bool (jd_state j = JOB_SUSPENDED)"
| "h_share H_cpus j = jr_num_cpus (jd_res j)"
| "h_share H_taken j = jr_num_cpus (jd_res j)"
| "h_share H_mem j = uint (jr_mem_mb (jd_res j))"
| "h_share H_storage j = uint (jr_storage_mb (jd_res j))"
| "h_share H_excl j = of_bool (has_flag (jd_flags j) JOB_FLAG_EXCLUSIVE)"

definition h_weight :: "hctr \<Rightarrow> hptr \<Rightarrow> job_data \<Rightarrow> int" where
  "h_weight c h j = (if jd_list_id j = JOB_LIST_RUN \<and> job_uses_host j h then h_share c j else 0)"

definition t_weight :: "pptr ll_hash \<Rightarrow> pptr \<Rightarrow> job_data \<Rightarrow> int" where
  "t_weight ht q j =
     (if jd_list_id j = JOB_LIST_RUN then token_weight ht q (jr_tokens (jd_res j)) else 0)"

section \<open>The invariant\<close>

definition all_jobs :: "mbd \<Rightarrow> jptr list" where
  "all_jobs s = job_lists s JOB_LIST_PEND @ job_lists s JOB_LIST_RUN @ job_lists s JOB_LIST_FINISH"

definition load :: "mbd \<Rightarrow> (job_data \<Rightarrow> int) \<Rightarrow> int" where
  "load s w = tally (\<lambda>p. w (job_heap s p)) (all_jobs s)"

definition lists_ok :: "mbd \<Rightarrow> bool" where
  "lists_ok s \<longleftrightarrow> distinct (all_jobs s) \<and>
     (\<forall>l p. p \<in> set (job_lists s l) \<longrightarrow> jd_list_id (job_heap s p) = l \<and> p < job_fresh s)"

definition table_agrees :: "mbd \<Rightarrow> bool" where
  "table_agrees s \<longleftrightarrow> ll_hash_wf (job_id_hash s) \<and>
     (\<forall>k. ll_hash_contains (job_id_hash s) k \<longrightarrow> ll_hash_search (job_id_hash s) k \<noteq> None) \<and>
     (\<forall>i p. job_find s i = Some p \<longleftrightarrow> p \<in> set (all_jobs s) \<and> jd_job_id (job_heap s p) = i) \<and>
     (\<forall>p \<in> set (all_jobs s). 0 < jd_job_id (job_heap s p) \<and> jd_job_id (job_heap s p) \<le> job_id_seq s) \<and>
     0 \<le> job_id_seq s"

fun state_fits :: "job_list_id \<Rightarrow> job_state \<Rightarrow> bool" where
  "state_fits JOB_LIST_PEND st = (st = JOB_PENDING \<or> st = JOB_HELD)"
| "state_fits JOB_LIST_RUN st = (st = JOB_RUNNING \<or> st = JOB_SUSPENDED)"
| "state_fits JOB_LIST_FINISH st = (st = JOB_DONE \<or> st = JOB_EXITED)"

definition job_ok :: "qptr list \<Rightarrow> hptr list \<Rightarrow> job_data \<Rightarrow> bool" where
  "job_ok ql hl j \<longleftrightarrow>
     state_fits (jd_list_id j) (jd_state j) \<and>
     (\<exists>q \<in> set ql. jd_queue j = Some q) \<and>
     (\<exists>hs. run_hosts_are j hs \<and> distinct hs \<and> set hs \<subseteq> set hl \<and> (jd_list_id j = JOB_LIST_RUN \<longrightarrow> hs \<noteq> [])) \<and>
     (jd_run_nhosts j = 0 \<or> jd_run_nhosts j = jr_num_hosts (jd_res j)) \<and>
     (jd_dispatch_time j \<noteq> 0 \<longrightarrow> jd_run_nhosts j \<noteq> 0) \<and>
     0 \<le> jr_num_cpus (jd_res j) \<and> 1 \<le> jr_num_hosts (jd_res j) \<and>
     length (jd_run_hosts j) = nat (jr_num_hosts (jd_res j)) \<and>
     ll_hash_wf (jr_machines (jd_res j)) \<and>
     (0 < ll_hash_count (jr_machines (jd_res j)) \<longrightarrow>
       jr_num_hosts (jd_res j) = int (ll_hash_count (jr_machines (jd_res j))))"

definition host_ok :: "mbd_host \<Rightarrow> bool" where
  "host_ok x \<longleftrightarrow> 0 \<le> mh_free_cpu x \<and> (mh_exclusive x \<longrightarrow> mh_num_jobs x = 1)"

definition counters_ok :: "mbd \<Rightarrow> bool" where
  "counters_ok s \<longleftrightarrow>
     (\<forall>q \<in> set (queue_list s). \<forall>c. q_ctr c (queue_heap s q) = load s (q_weight c q)) \<and>
     (\<forall>h \<in> set (host_list s). \<forall>c. h_ctr c (host_heap s h) = load s (h_weight c h)) \<and>
     (\<forall>q \<in> set (token_pool_list s). tp_total (pool_heap s q) - tp_free (pool_heap s q) =
       load s (t_weight (token_pool_name_hash s) q))"

definition names_ok :: "mbd \<Rightarrow> bool" where
  "names_ok s \<longleftrightarrow> ll_hash_wf (queue_name_hash s) \<and>
     (\<forall>k q. ll_hash_search (queue_name_hash s) k = Some q \<longrightarrow> q \<in> set (queue_list s)) \<and>
     (\<forall>q \<in> set (queue_list s). \<forall>k h. ll_hash_search (mq_host_hash (queue_heap s q)) k = Some h \<longrightarrow>
       h \<in> set (host_list s) \<and> mh_name (host_heap s h) = k) \<and>
     distinct (host_list s) \<and> distinct (map (\<lambda>h. mh_name (host_heap s h)) (host_list s))"

definition mbd_inv :: "mbd \<Rightarrow> bool" where
  "mbd_inv s \<longleftrightarrow> lists_ok s \<and> table_agrees s \<and> names_ok s \<and>
     (\<forall>p \<in> set (all_jobs s). job_ok (queue_list s) (host_list s) (job_heap s p)) \<and>
     (\<forall>h \<in> set (host_list s). host_ok (host_heap s h)) \<and> counters_ok s"

section \<open>Sums over the jobs\<close>

text \<open>Two records of a job that agree on everything the invariant looks at.\<close>

definition same_load :: "job_data \<Rightarrow> job_data \<Rightarrow> bool" where
  "same_load j j' \<longleftrightarrow> jd_job_id j' = jd_job_id j \<and> jd_list_id j' = jd_list_id j \<and> jd_state j' = jd_state j \<and>
     jd_queue j' = jd_queue j \<and> jd_flags j' = jd_flags j \<and> jd_res j' = jd_res j \<and>
     jd_run_nhosts j' = jd_run_nhosts j \<and> jd_run_hosts j' = jd_run_hosts j \<and>
     jd_dispatch_time j' = jd_dispatch_time j"

lemma same_load_refl [simp]: "same_load j j"
  by (simp add: same_load_def)

lemma same_load_trans: "same_load j k \<Longrightarrow> same_load k l \<Longrightarrow> same_load j l"
  by (simp add: same_load_def)

lemma same_load_weights:
  assumes "same_load j j'"
  shows "q_weight c q j' = q_weight c q j" "h_weight d h j' = h_weight d h j"
    "t_weight ht tq j' = t_weight ht tq j" "job_ok ql hl j' = job_ok ql hl j"
    "jd_list_id j' = jd_list_id j" "jd_job_id j' = jd_job_id j"
proof -
  note e = assms [unfolded same_load_def]
  show "q_weight c q j' = q_weight c q j" by (cases c) (simp_all add: e q_weight_def)
  show "h_weight d h j' = h_weight d h j"
    by (cases d) (simp_all add: e h_weight_def job_uses_host_def used_hosts_def)
  show "t_weight ht tq j' = t_weight ht tq j" by (simp add: e t_weight_def)
  show "job_ok ql hl j' = job_ok ql hl j" by (simp add: e job_ok_def run_hosts_are_def)
  show "jd_list_id j' = jd_list_id j" "jd_job_id j' = jd_job_id j" by (simp_all add: e)
qed

lemma minor_same_load: "minor j j' \<Longrightarrow> same_load j j'"
  by (auto simp: minor_def same_load_def)

lemmas minor_weights = same_load_weights [OF minor_same_load]

lemma load_change:
  assumes "distinct (all_jobs s)" and "p \<in> set (all_jobs s)" and "mset (all_jobs t) = mset (all_jobs s)"
    and "\<And>x. x \<in> set (all_jobs s) \<Longrightarrow> x \<noteq> p \<Longrightarrow> w (job_heap t x) = w (job_heap s x)"
  shows "load t w = load s w + (w (job_heap t p) - w (job_heap s p))"
proof -
  have "load t w = tally (\<lambda>p. w (job_heap t p)) (all_jobs s)"
    unfolding load_def using assms(3) by (rule tally_mset)
  also have "\<dots> = load s w + (w (job_heap t p) - w (job_heap s p))"
    unfolding load_def by (rule tally_change) (use assms in auto)
  finally show ?thesis .
qed

lemma load_ge:
  assumes "p \<in> set (all_jobs s)" and "\<And>x. x \<in> set (all_jobs s) \<Longrightarrow> 0 \<le> w (job_heap s x)"
  shows "w (job_heap s p) \<le> load s w"
proof -
  have "0 \<le> tally (\<lambda>x. w (job_heap s x)) (remove1 p (all_jobs s))"
    by (rule tally_nonneg) (use assms(2) notin_set_remove1 in fast)
  then show ?thesis using assms(1) by (simp add: load_def tally_remove1)
qed

lemma load_ge2:
  assumes "distinct (all_jobs s)" and "p \<in> set (all_jobs s)" and "p' \<in> set (all_jobs s)" and "p \<noteq> p'"
    and "\<And>x. x \<in> set (all_jobs s) \<Longrightarrow> 0 \<le> w (job_heap s x)"
  shows "w (job_heap s p) + w (job_heap s p') \<le> load s w"
proof -
  have "0 \<le> tally (\<lambda>x. w (job_heap s x)) (remove1 p' (remove1 p (all_jobs s)))"
    by (rule tally_nonneg) (meson assms(5) notin_set_remove1)
  moreover have "p' \<in> set (remove1 p (all_jobs s))" using assms(3,4) by simp
  ultimately show ?thesis using assms(2) by (simp add: load_def tally_remove1)
qed

lemma h_weight_nonneg: "0 \<le> jr_num_cpus (jd_res j) \<Longrightarrow> 0 \<le> h_weight c h j"
  by (cases c) (simp_all add: h_weight_def)

section \<open>Moves between the lists\<close>

lemma all_jobs_set: "p \<in> set (all_jobs s) \<longleftrightarrow> (\<exists>l. p \<in> set (job_lists s l))"
proof -
  have "(\<exists>l. P l) \<longleftrightarrow> P JOB_LIST_PEND \<or> P JOB_LIST_RUN \<or> P JOB_LIST_FINISH" for P
    by (metis job_list_id.exhaust)
  then show ?thesis by (simp add: all_jobs_def)
qed

lemma lists_move_mset:
  assumes "p \<in> set (job_lists s a)" and "job_lists t = lists_move (job_lists s) p a b"
  shows "mset (all_jobs t) = mset (all_jobs s)"
  using assms by (cases a; cases b) (auto simp: all_jobs_def lists_move_def Let_def)

lemma lists_move_mem:
  assumes "distinct (all_jobs s)" and "p \<in> set (job_lists s a)"
  shows "x \<in> set (lists_move (job_lists s) p a b l) \<longleftrightarrow> (if x = p then l = b else x \<in> set (job_lists s l))"
  using assms by (cases a; cases b; cases l) (auto simp: all_jobs_def lists_move_def Let_def)

section \<open>The invariant implies the cross check\<close>

lemma load_run:
  assumes "lists_ok s" and "\<And>j. jd_list_id j \<noteq> JOB_LIST_RUN \<Longrightarrow> w j = 0"
  shows "load s w = tally (\<lambda>p. w (job_heap s p)) (job_lists s JOB_LIST_RUN)"
proof -
  have "tally (\<lambda>p. w (job_heap s p)) (job_lists s l) = 0" if "l \<noteq> JOB_LIST_RUN" for l
    by (rule tally_zero) (use assms that in \<open>auto simp: lists_ok_def\<close>)
  then show ?thesis by (simp add: load_def all_jobs_def)
qed

lemma load_two:
  assumes "lists_ok s" and "\<And>j. jd_list_id j = JOB_LIST_FINISH \<Longrightarrow> w j = 0"
  shows "load s w = tally (\<lambda>p. w (job_heap s p)) (job_lists s JOB_LIST_PEND) +
    tally (\<lambda>p. w (job_heap s p)) (job_lists s JOB_LIST_RUN)"
proof -
  have "tally (\<lambda>p. w (job_heap s p)) (job_lists s JOB_LIST_FINISH) = 0"
    by (rule tally_zero) (use assms in \<open>auto simp: lists_ok_def\<close>)
  then show ?thesis by (simp add: load_def all_jobs_def)
qed


lemma load_host_sum:
  assumes "lists_ok s"
  shows "load s (h_weight c h) = host_sum s h (h_share c)"
proof -
  have "load s (h_weight c h) = tally (\<lambda>p. h_weight c h (job_heap s p)) (job_lists s JOB_LIST_RUN)"
    by (rule load_run [OF assms]) (simp add: h_weight_def)
  also have "\<dots> = host_sum s h (h_share c)"
    unfolding host_sum_def by (rule tally_cong) (use assms in \<open>auto simp: lists_ok_def h_weight_def\<close>)
  finally show ?thesis .
qed

lemma inv_host_counters:
  assumes "mbd_inv s" and "h \<in> set (host_list s)"
  shows "assert_host_counters s h"
proof -
  have l: "lists_ok s" using assms by (simp add: mbd_inv_def)
  have c: "h_ctr c (host_heap s h) = load s (h_weight c h)" for c
    using assms by (simp add: mbd_inv_def counters_ok_def)
  note w = load_host_sum [OF l]
  have s: "p \<in> set (job_lists s JOB_LIST_RUN) \<Longrightarrow> state_fits JOB_LIST_RUN (jd_state (job_heap s p))" for p
    using assms(1) l all_jobs_set by (fastforce simp: mbd_inv_def job_ok_def lists_ok_def)
  have "host_states_ok s h" using s by (auto simp: host_states_ok_def list_all_iff)
  moreover have "0 \<le> mh_free_cpu (host_heap s h)" using assms by (simp add: mbd_inv_def host_ok_def)
  ultimately show ?thesis
    using c [of H_jobs] c [of H_run] c [of H_susp] c [of H_cpus]
    by (simp add: assert_host_counters_def Let_def w host_sum_def cong: if_cong)
qed

lemma queue_load:
  assumes "lists_ok s"
    and "\<And>j. jd_list_id j = JOB_LIST_FINISH \<Longrightarrow> q_share c j = 0"
    and "\<And>p. p \<in> set (job_lists s JOB_LIST_PEND) \<Longrightarrow> q_share c (job_heap s p) = f (job_heap s p)"
    and "\<And>p. p \<in> set (job_lists s JOB_LIST_RUN) \<Longrightarrow> q_share c (job_heap s p) = g (job_heap s p)"
  shows "load s (q_weight c q) = queue_sum s q JOB_LIST_PEND f + queue_sum s q JOB_LIST_RUN g"
proof -
  have "load s (q_weight c q) = tally (\<lambda>p. q_weight c q (job_heap s p)) (job_lists s JOB_LIST_PEND) +
      tally (\<lambda>p. q_weight c q (job_heap s p)) (job_lists s JOB_LIST_RUN)"
    by (rule load_two [OF assms(1)]) (simp add: q_weight_def assms(2))
  moreover have "tally (\<lambda>p. q_weight c q (job_heap s p)) (job_lists s JOB_LIST_PEND) =
      queue_sum s q JOB_LIST_PEND f"
    unfolding queue_sum_def by (rule tally_cong) (simp add: q_weight_def assms(3))
  moreover have "tally (\<lambda>p. q_weight c q (job_heap s p)) (job_lists s JOB_LIST_RUN) =
      queue_sum s q JOB_LIST_RUN g"
    unfolding queue_sum_def by (rule tally_cong) (simp add: q_weight_def assms(4))
  ultimately show ?thesis by simp
qed

lemma queue_sum_zero [simp]: "queue_sum s q l (\<lambda>j. 0) = 0"
  unfolding queue_sum_def by (rule tally_zero) simp

lemma inv_queue_counters:
  assumes "mbd_inv s" and "q \<in> set (queue_list s)"
  shows "assert_queue_counters s q"
proof -
  have l: "lists_ok s" using assms by (simp add: mbd_inv_def)
  have c: "q_ctr c (queue_heap s q) = load s (q_weight c q)" for c
    using assms by (simp add: mbd_inv_def counters_ok_def)
  have i: "p \<in> set (job_lists s k) \<Longrightarrow> jd_list_id (job_heap s p) = k" for p k
    using l by (simp add: lists_ok_def)
  have s: "p \<in> set (job_lists s k) \<Longrightarrow> state_fits k (jd_state (job_heap s p))" for p k
    using assms(1) i all_jobs_set by (fastforce simp: mbd_inv_def job_ok_def)
  have p: "p \<in> set (job_lists s JOB_LIST_PEND) \<Longrightarrow>
      jd_state (job_heap s p) = JOB_PENDING \<or> jd_state (job_heap s p) = JOB_HELD" for p
    using s [of p JOB_LIST_PEND] by simp
  have st: "queue_states_ok s q"
    using s [of _ JOB_LIST_PEND] s [of _ JOB_LIST_RUN] by (auto simp: queue_states_ok_def list_all_iff)
  have "load s (q_weight Q_jobs q) = queue_sum s q JOB_LIST_PEND (\<lambda>j. 1) + queue_sum s q JOB_LIST_RUN (\<lambda>j. 1)"
    by (rule queue_load [OF l]) (simp_all add: i)
  moreover have "load s (q_weight Q_pend q) = queue_sum s q JOB_LIST_PEND
      (\<lambda>j. of_bool (jd_state j \<in> {JOB_PENDING, JOB_BROKEN, JOB_ORPHAN})) + queue_sum s q JOB_LIST_RUN (\<lambda>j. 0)"
    by (rule queue_load [OF l]) (use p in \<open>force simp: i\<close>)+
  moreover have "load s (q_weight Q_held q) = queue_sum s q JOB_LIST_PEND
      (\<lambda>j. of_bool (jd_state j = JOB_HELD)) + queue_sum s q JOB_LIST_RUN (\<lambda>j. 0)"
    by (rule queue_load [OF l]) (simp_all add: i)
  moreover have "load s (q_weight Q_run q) = queue_sum s q JOB_LIST_PEND (\<lambda>j. 0) +
      queue_sum s q JOB_LIST_RUN (\<lambda>j. of_bool (jd_state j = JOB_RUNNING))"
    by (rule queue_load [OF l]) (simp_all add: i)
  moreover have "load s (q_weight Q_susp q) = queue_sum s q JOB_LIST_PEND (\<lambda>j. 0) +
      queue_sum s q JOB_LIST_RUN (\<lambda>j. of_bool (jd_state j = JOB_SUSPENDED))"
    by (rule queue_load [OF l]) (simp_all add: i)
  moreover have "load s (q_weight Q_cpus q) = queue_sum s q JOB_LIST_PEND (\<lambda>j. 0) +
      queue_sum s q JOB_LIST_RUN (\<lambda>j. jr_num_cpus (jd_res j) * jd_run_nhosts j)"
    by (rule queue_load [OF l]) (simp_all add: i)
  moreover have "load s (q_weight Q_hosts q) = queue_sum s q JOB_LIST_PEND (\<lambda>j. 0) +
      queue_sum s q JOB_LIST_RUN (\<lambda>j. jd_run_nhosts j)"
    by (rule queue_load [OF l]) (simp_all add: i)
  ultimately show ?thesis
    using st c [of Q_jobs] c [of Q_pend] c [of Q_held] c [of Q_run] c [of Q_susp] c [of Q_cpus] c [of Q_hosts]
    by (simp add: assert_queue_counters_def Let_def)
qed

lemma inv_assert_counters: "mbd_inv s \<Longrightarrow> mbd_assert_counters s = Inr s"
  by (simp add: mbd_assert_counters_def list_all_iff inv_host_counters inv_queue_counters)

section \<open>Steps that change one job\<close>

lemma inv_job_step:
  assumes inv: "mbd_inv s" and p: "p \<in> set (all_jobs s)"
    and mset: "mset (all_jobs t) = mset (all_jobs s)"
    and mem: "\<And>l x. x \<in> set (job_lists t l) \<Longrightarrow> jd_list_id (job_heap t x) = l"
    and others: "\<And>x. x \<noteq> p \<Longrightarrow> same_load (job_heap s x) (job_heap t x)"
    and id: "jd_job_id (job_heap t p) = jd_job_id (job_heap s p)"
    and ok: "job_ok (queue_list s) (host_list s) (job_heap t p)"
    and static: "host_list t = host_list s" "queue_list t = queue_list s"
      "token_pool_list t = token_pool_list s" "token_pool_name_hash t = token_pool_name_hash s"
      "job_id_hash t = job_id_hash s" "job_fresh t = job_fresh s" "job_id_seq t = job_id_seq s"
    and names: "names_ok t"
    and queues: "\<And>q c. q \<in> set (queue_list s) \<Longrightarrow> q_ctr c (queue_heap t q) = q_ctr c (queue_heap s q) +
      (q_weight c q (job_heap t p) - q_weight c q (job_heap s p))"
    and hosts: "\<And>h c. h \<in> set (host_list s) \<Longrightarrow> h_ctr c (host_heap t h) = h_ctr c (host_heap s h) +
      (h_weight c h (job_heap t p) - h_weight c h (job_heap s p))"
    and hostok: "\<And>h. h \<in> set (host_list s) \<Longrightarrow> host_ok (host_heap t h)"
    and pools: "\<And>q. tp_total (pool_heap t q) - tp_free (pool_heap t q) =
      tp_total (pool_heap s q) - tp_free (pool_heap s q) +
      (t_weight (token_pool_name_hash s) q (job_heap t p) - t_weight (token_pool_name_hash s) q (job_heap s p))"
  shows "mbd_inv t"
proof -
  have d: "distinct (all_jobs s)" and ls: "lists_ok s" and ta: "table_agrees s" and cs: "counters_ok s"
    and js: "\<forall>p \<in> set (all_jobs s). job_ok (queue_list s) (host_list s) (job_heap s p)"
    using inv by (auto simp: mbd_inv_def lists_ok_def)
  have set: "set (all_jobs t) = set (all_jobs s)" using mset by (rule mset_eq_setD)
  have dt: "distinct (all_jobs t)" using d mset by (metis mset_eq_imp_distinct_iff)
  have ids: "jd_job_id (job_heap t x) = jd_job_id (job_heap s x)" for x
    using others [of x] id by (cases "x = p") (simp_all add: same_load_weights)
  have fresh: "x \<in> set (job_lists t l) \<Longrightarrow> x < job_fresh s" for x l
    using ls set all_jobs_set [of x t] all_jobs_set [of x s] by (auto simp: lists_ok_def)
  have "lists_ok t" using dt mem fresh static by (auto simp: lists_ok_def)
  moreover have "job_find t = job_find s" using static by (simp add: job_find_def fun_eq_iff)
  then have "table_agrees t" using ta by (simp add: table_agrees_def set ids static)
  moreover have "job_ok (queue_list t) (host_list t) (job_heap t x)" if "x \<in> set (all_jobs t)" for x
    using that js ok others [of x] by (cases "x = p") (simp_all add: set static same_load_weights)
  moreover have load: "load t w = load s w + (w (job_heap t p) - w (job_heap s p))"
    if "\<And>j j'. same_load j j' \<Longrightarrow> w j' = w j" for w
    by (rule load_change [OF d p mset]) (use others that in blast)
  have "counters_ok t"
    using cs queues hosts pools
    by (auto simp: counters_ok_def static load [OF same_load_weights(1)] load [OF same_load_weights(2)]
        load [OF same_load_weights(3)])
  ultimately show ?thesis using names hostok by (simp add: mbd_inv_def static)
qed

text \<open>
  Steps that leave the listed jobs, the tables and all counters alone. Hosts and
  queues may change where the invariant does not look.
\<close>

definition same_host :: "mbd_host \<Rightarrow> mbd_host \<Rightarrow> bool" where
  "same_host x y \<longleftrightarrow> mh_name y = mh_name x \<and> host_ok y = host_ok x \<and> (\<forall>c. h_ctr c y = h_ctr c x)"

definition same_queue :: "mbd_queue \<Rightarrow> mbd_queue \<Rightarrow> bool" where
  "same_queue x y \<longleftrightarrow> mq_host_hash y = mq_host_hash x \<and> (\<forall>c. q_ctr c y = q_ctr c x)"

lemma same_host_refl [simp]: "same_host x x"
  by (simp add: same_host_def)

lemma same_queue_refl [simp]: "same_queue x x"
  by (simp add: same_queue_def)

lemma h_ctr_fields [simp]:
  "h_ctr c (x\<lparr>mh_candidate := b\<rparr>) = h_ctr c x" "h_ctr c (x\<lparr>mh_gpu := g\<rparr>) = h_ctr c x"
  "h_ctr c (x\<lparr>mh_state := w\<rparr>) = h_ctr c x" "h_ctr c (x\<lparr>mh_sbd_chan := n\<rparr>) = h_ctr c x"
  by (cases c; simp)+

lemma same_host_fields [simp]:
  "same_host x (x\<lparr>mh_candidate := b\<rparr>)" "same_host x (x\<lparr>mh_gpu := g\<rparr>)" "same_host x (x\<lparr>mh_state := w\<rparr>)"
  "same_host x (x\<lparr>mh_sbd_chan := c\<rparr>)" "same_host x (x\<lparr>mh_state := w, mh_sbd_chan := c\<rparr>)"
  "same_host x (x\<lparr>mh_sbd_chan := c, mh_state := w\<rparr>)" "same_host x (x\<lparr>mh_candidate := b, mh_gpu := g\<rparr>)"
  by (simp_all add: same_host_def host_ok_def)

lemma inv_frame:
  assumes inv: "mbd_inv s"
    and jobs: "\<And>x. x \<in> set (all_jobs s) \<Longrightarrow> same_load (job_heap s x) (job_heap t x)"
    and hosts: "\<And>h. same_host (host_heap s h) (host_heap t h)"
    and queues: "\<And>q. same_queue (queue_heap s q) (queue_heap t q)"
    and static: "job_lists t = job_lists s" "host_list t = host_list s" "queue_list t = queue_list s"
      "token_pool_list t = token_pool_list s" "token_pool_name_hash t = token_pool_name_hash s"
      "job_id_hash t = job_id_hash s" "queue_name_hash t = queue_name_hash s" "pool_heap t = pool_heap s"
    and mono: "job_fresh s \<le> job_fresh t" "job_id_seq s \<le> job_id_seq t"
  shows "mbd_inv t"
proof -
  have all: "all_jobs t = all_jobs s" by (simp add: all_jobs_def static)
  have m: "x \<in> set (job_lists s l) \<Longrightarrow> same_load (job_heap s x) (job_heap t x)" for x l
    using jobs all_jobs_set by blast
  have load: "load t w = load s w" if "\<And>j j'. same_load j j' \<Longrightarrow> w j' = w j" for w
    unfolding load_def all by (rule tally_cong) (use jobs that in blast)
  have hq: "h_ctr c (host_heap t h) = h_ctr c (host_heap s h)" "host_ok (host_heap t h) = host_ok (host_heap s h)"
    "q_ctr d (queue_heap t q) = q_ctr d (queue_heap s q)" for c h d q
    using hosts [of h] queues [of q] by (simp_all add: same_host_def same_queue_def)
  have "lists_ok t"
    using inv m mono(1) by (fastforce simp: mbd_inv_def lists_ok_def all static same_load_weights)
  moreover have "job_find t = job_find s" using static by (simp add: job_find_def fun_eq_iff)
  moreover have idt: "jd_job_id (job_heap t x) = jd_job_id (job_heap s x)" if "x \<in> set (all_jobs s)" for x
    using jobs [OF that] by (simp add: same_load_weights)
  ultimately have "lists_ok t \<and> table_agrees t"
    using inv mono(2) by (fastforce simp: mbd_inv_def table_agrees_def all static)
  moreover have "names_ok t"
    using inv hosts queues by (simp add: mbd_inv_def names_ok_def static same_host_def same_queue_def)
  moreover have "counters_ok t"
    using inv by (auto simp: mbd_inv_def counters_ok_def static hq load [OF same_load_weights(1)]
        load [OF same_load_weights(2)] load [OF same_load_weights(3)])
  moreover have "job_ok ql hl (job_heap t x) = job_ok ql hl (job_heap s x)" if "x \<in> set (all_jobs s)" for x ql hl
    using jobs [OF that] by (rule same_load_weights)
  ultimately show ?thesis
    using inv by (simp add: mbd_inv_def all static hq)
qed

lemma inv_minor_step: "mbd_inv s \<Longrightarrow> minor_step s t \<Longrightarrow> mbd_inv t"
proof -
  assume a: "mbd_inv s" "minor_step s t"
  then have t: "t = s\<lparr>job_heap := job_heap t\<rparr>" and m: "\<And>p. minor (job_heap s p) (job_heap t p)"
    by (auto simp: minor_step_def)
  show "mbd_inv t" by (rule inv_frame [OF a(1)]) (use m minor_same_load in simp, (subst t, simp)+)
qed

lemma names_ok_step:
  assumes "names_ok s" and "host_list t = host_list s" "queue_list t = queue_list s"
    "queue_name_hash t = queue_name_hash s"
    and "\<And>q. mq_host_hash (queue_heap t q) = mq_host_hash (queue_heap s q)"
    and "\<And>h. mh_name (host_heap t h) = mh_name (host_heap s h)"
  shows "names_ok t"
  using assms by (simp add: names_ok_def)

text \<open>A new job at the end of the pending list.\<close>

lemma inv_add_job:
  assumes inv: "mbd_inv s" and new: "p \<notin> set (all_jobs s)" "p < job_fresh s"
    and lists: "job_lists t = (job_lists s)(JOB_LIST_PEND := job_lists s JOB_LIST_PEND @ [p])"
    and others: "\<And>x. x \<noteq> p \<Longrightarrow> same_load (job_heap s x) (job_heap t x)"
    and ok: "job_ok (queue_list s) (host_list s) (job_heap t p)" "jd_list_id (job_heap t p) = JOB_LIST_PEND"
    and id: "0 < jd_job_id (job_heap t p)" "jd_job_id (job_heap t p) \<le> job_id_seq s"
      "job_find s (jd_job_id (job_heap t p)) = None"
    and hash: "ll_hash_wf (job_id_hash t)"
      "\<And>k. ll_hash_contains (job_id_hash t) k \<Longrightarrow> ll_hash_search (job_id_hash t) k \<noteq> None"
      "\<And>i. job_find t i = (if i = jd_job_id (job_heap t p) then Some p else job_find s i)"
    and static: "host_list t = host_list s" "queue_list t = queue_list s"
      "token_pool_list t = token_pool_list s" "token_pool_name_hash t = token_pool_name_hash s"
      "host_heap t = host_heap s" "pool_heap t = pool_heap s" "queue_name_hash t = queue_name_hash s"
      "job_fresh t = job_fresh s" "job_id_seq t = job_id_seq s"
    and names: "\<And>q. mq_host_hash (queue_heap t q) = mq_host_hash (queue_heap s q)"
    and queues: "\<And>q c. q \<in> set (queue_list s) \<Longrightarrow>
      q_ctr c (queue_heap t q) = q_ctr c (queue_heap s q) + q_weight c q (job_heap t p)"
  shows "mbd_inv t"
proof -
  have all: "mset (all_jobs t) = add_mset p (mset (all_jobs s))" by (simp add: all_jobs_def lists)
  have set: "set (all_jobs t) = insert p (set (all_jobs s))"
    using all by (metis set_mset_add_mset_insert set_mset_mset)
  have m: "x \<in> set (all_jobs s) \<Longrightarrow> same_load (job_heap s x) (job_heap t x)" for x
    using others new by metis
  have ml: "x \<in> set (job_lists s l) \<Longrightarrow> same_load (job_heap s x) (job_heap t x)" for x l
    using m all_jobs_set by blast
  have load: "load t w = load s w + w (job_heap t p)" if "\<And>j j'. same_load j j' \<Longrightarrow> w j' = w j" for w
  proof -
    have "load t w = tally (\<lambda>x. w (job_heap t x)) (p # all_jobs s)"
      unfolding load_def by (rule tally_mset) (simp add: all)
    also have "\<dots> = w (job_heap t p) + load s w"
      unfolding load_def tally_Cons by (intro arg_cong2 [where f = plus] refl tally_cong) (use m that in blast)
    finally show ?thesis by simp
  qed
  have dt: "distinct (all_jobs t)"
    using inv new(1) by (auto simp: mbd_inv_def lists_ok_def all_jobs_def lists)
  have "lists_ok t"
    using inv new(2) ok(2) ml dt
    by (fastforce simp: mbd_inv_def lists_ok_def static lists same_load_weights split: if_splits)
  moreover have "table_agrees t"
    unfolding table_agrees_def
  proof (intro conjI allI ballI impI)
    fix i x
    have tab: "job_find s k = Some y \<longleftrightarrow> y \<in> set (all_jobs s) \<and> jd_job_id (job_heap s y) = k" for k y
      using inv by (simp add: mbd_inv_def table_agrees_def)
    have "jd_job_id (job_heap t x) = jd_job_id (job_heap s x)" if "x \<in> set (all_jobs s)"
      using m [OF that] by (simp add: same_load_weights)
    moreover have "jd_job_id (job_heap s x) \<noteq> jd_job_id (job_heap t p)" if "x \<in> set (all_jobs s)"
      using tab [of "jd_job_id (job_heap s x)" x] that id(3) by auto
    ultimately show "job_find t i = Some x \<longleftrightarrow> x \<in> set (all_jobs t) \<and> jd_job_id (job_heap t x) = i"
      using new(1) by (auto simp: hash(3) set tab)
  next
    fix x assume "x \<in> set (all_jobs t)"
    then show "0 < jd_job_id (job_heap t x)" "jd_job_id (job_heap t x) \<le> job_id_seq t"
      using inv id m [of x] by (auto simp: set static mbd_inv_def table_agrees_def same_load_weights)
  next
    show "0 \<le> job_id_seq t" using inv by (simp add: static mbd_inv_def table_agrees_def)
  qed (use hash in auto)
  moreover have "names_ok t"
    by (rule names_ok_step [where s = s]) (use inv in \<open>simp_all add: static names mbd_inv_def\<close>)
  moreover have "h_weight c h (job_heap t p) = 0" "t_weight ht q (job_heap t p) = 0" for c h ht q
    using ok(2) by (simp_all add: h_weight_def t_weight_def)
  then have "counters_ok t"
    using inv queues by (auto simp: mbd_inv_def counters_ok_def static load [OF same_load_weights(1)]
        load [OF same_load_weights(2)] load [OF same_load_weights(3)])
  moreover have "\<forall>x \<in> set (all_jobs t). job_ok (queue_list t) (host_list t) (job_heap t x)"
    using inv ok(1) same_load_weights(4) [OF m] by (simp add: set static mbd_inv_def)
  ultimately show ?thesis using inv by (simp add: mbd_inv_def static)
qed

text \<open>Messages, the event log and the files are not part of the invariant.\<close>

lemma inv_io [simp]:
  "mbd_inv (s\<lparr>outq := a\<rparr>) = mbd_inv s" "mbd_inv (s\<lparr>manifest := b\<rparr>) = mbd_inv s"
  "mbd_inv (s\<lparr>shut_chans := c\<rparr>) = mbd_inv s" "mbd_inv (s\<lparr>seq_file := d\<rparr>) = mbd_inv s"
  "mbd_inv (s\<lparr>submit_files := f\<rparr>) = mbd_inv s" "mbd_inv (s\<lparr>script_files := f\<rparr>) = mbd_inv s"
  "mbd_inv (s\<lparr>usage_files := f\<rparr>) = mbd_inv s"
  "mbd_inv (s\<lparr>sbd_chan_hash := h\<rparr>) = mbd_inv s" "mbd_inv (s\<lparr>closed_queues := cq\<rparr>) = mbd_inv s"
  "mbd_inv (s\<lparr>closed_hosts := cq\<rparr>) = mbd_inv s" "mbd_inv (s\<lparr>archives := ar\<rparr>) = mbd_inv s"
  by (simp_all add: mbd_inv_def lists_ok_def table_agrees_def names_ok_def counters_ok_def all_jobs_def
      load_def job_find_def)

lemma inv_enqueue [simp]:
  "mbd_inv (snd (enqueue_payload e c op st b s)) = mbd_inv s"
  "mbd_inv (snd (enqueue_header e c op st s)) = mbd_inv s" "mbd_inv (chan_shutdown c s) = mbd_inv s"
  by (simp_all add: enqueue_header_def enqueue_payload_def chan_shutdown_def)

lemma inv_log_append: "mbd_inv s \<Longrightarrow> log_append ev s = Inr t \<Longrightarrow> mbd_inv t"
  by (auto dest!: log_append_Inr)

end
