(* ===== verification/Mbd_Job.thy ===== *)
theory Mbd_Job
  imports Mbd_Inv
begin

text \<open>
  Submission and lookup of jobs (\<open>src/batch/mbd/job.c\<close>): job numbers, allocation
  of a job from a submit request, its files, tokens and dependencies, the
  two-phase registration of a job or an array (all elements are prepared
  privately, the client is answered, then all are committed), lookup by number
  and by array index, and the evaluation of a dependency condition.
\<close>

section \<open>Job numbers\<close>

fun next_job_id_loop :: "nat \<Rightarrow> mbd \<Rightarrow> int \<Rightarrow> int option" where
  "next_job_id_loop 0 s i = None"
| "next_job_id_loop (Suc n) s i =
     (if job_find s (i + 1) \<noteq> None then next_job_id_loop n s (i + 1) else Some (i + 1))"

text \<open>The loop passes each used number at most once: one round more than the table has entries.\<close>

definition next_job_id :: "mbd \<Rightarrow> crash + int \<times> mbd" where
  "next_job_id s =
     (case next_job_id_loop (Suc (ll_hash_count (job_id_hash s))) s (job_id_seq s) of
        None \<Rightarrow> Inl Diverges
      | Some i \<Rightarrow> Inr (i, s\<lparr>job_id_seq := i\<rparr>))"

section \<open>Requested machines\<close>

text \<open>\<open>strtok\<close> called until it returns null: the non-empty runs between delimiters.\<close>

fun strtok_all :: "char list \<Rightarrow> string \<Rightarrow> string \<Rightarrow> string list" where
  "strtok_all ds acc [] = (if acc = [] then [] else [acc])"
| "strtok_all ds acc (c # cs) =
     (if c \<in> set ds then (if acc = [] then strtok_all ds [] cs else acc # strtok_all ds [] cs)
      else strtok_all ds (acc @ [c]) cs)"

definition hash_add_names :: "string list \<Rightarrow> unit ll_hash \<Rightarrow> unit ll_hash" where
  "hash_add_names ms h = fold (\<lambda>m t. snd (ll_hash_insert t m None False)) ms h"

definition machines_hash_insert_token :: "mbd \<Rightarrow> string \<Rightarrow> unit ll_hash \<Rightarrow> unit ll_hash" where
  "machines_hash_insert_token s tok h =
     (case ll_hash_search (group_name_hash s) tok of
        Some g \<Rightarrow> hash_add_names (strtok_all [CHR 0x20, CHR 0x09] [] (cfield 1024 (mg_members (group_heap s g)))) h
      | None \<Rightarrow> snd (ll_hash_insert h tok None False))"

definition machines_hash_populate :: "mbd \<Rightarrow> string \<Rightarrow> unit ll_hash" where
  "machines_hash_populate s machines =
     (if machines = [] then ll_hash_init 101
      else fold (machines_hash_insert_token s)
        (strtok_all [CHR 0x20, CHR 0x09, CHR 0x2C] [] (cfield 4096 machines)) (ll_hash_init 101))"

section \<open>Allocation\<close>

definition queue_user_allowed :: "mbd_queue \<Rightarrow> string \<Rightarrow> bool" where
  "queue_user_allowed q user \<longleftrightarrow>
     ll_hash_count (mq_user_hash q) = 0 \<or> ll_hash_contains (mq_user_hash q) user"

text \<open>What \<open>calloc\<close> gives.\<close>

definition zero_res :: job_resources where
  "zero_res = \<lparr>jr_num_cpus = 0, jr_num_hosts = 0, jr_num_gpus = 0, jr_gpu_model = [], jr_mem_mb = 0,
     jr_storage_mb = 0, jr_wall_seconds = 0, jr_machines_str = [], jr_machines = ll_hash_init 101,
     jr_tokenpool_str = [], jr_tokens = []\<rparr>"

definition zero_job :: job_data where
  "zero_job = \<lparr>jd_job_id = 0, jd_uid = 0, jd_gid = 0, jd_pid = 0, jd_user = [],
     jd_state = JOB_STATE_BAD 0, jd_exit_status = 0, jd_priority = 0, jd_submit_time = 0,
     jd_dispatch_time = 0, jd_fork_time = 0, jd_end_time = 0, jd_susp_time = 0, jd_unknown_time = 0,
     jd_begin_time = 0, jd_term_time = 0, jd_signal_time = 0, jd_queue = None, jd_project = [],
     jd_name = [], jd_flags = 0, jd_list_id = JOB_LIST_PEND, jd_pend_reason = PEND_NONE, jd_deps = [],
     jd_depend_cond = [], jd_dep_refcnt = 0, jd_res = zero_res, jd_run_nhosts = 0, jd_run_hosts = [],
     jd_gpu_assigned = [], jd_array_id = 0, jd_array_index = 0, jd_array_start = 0, jd_array_end = 0,
     jd_array_stride = 0, jd_array_element_cnt = 0\<rparr>"

text \<open>The two defaults \<open>job_alloc\<close> writes back into the request: the name and the queue.\<close>

definition submit_defaults :: "mbd \<Rightarrow> wire_job_submit \<Rightarrow> wire_job_submit" where
  "submit_defaults s ws =
     (let ws1 = (if ws_name ws = [] then ws\<lparr>ws_name := ''-''\<rparr> else ws) in
      if ws_queue ws1 = [] then ws1\<lparr>ws_queue := cfield 256 (default_queue s)\<rparr> else ws1)"

definition alloc_res :: "mbd \<Rightarrow> wire_job_submit \<Rightarrow> job_resources" where
  "alloc_res s ws =
     (let m = machines_hash_populate s (ws_machines ws);
          n = (if 0 < ll_hash_count m then int (ll_hash_count m) else ws_num_hosts ws) in
      zero_res\<lparr>jr_num_cpus := ws_num_cpus ws, jr_num_hosts := (if n < 1 then 1 else n),
        jr_num_gpus := ws_num_gpus ws, jr_gpu_model := cfield 256 (ws_gpu_model ws),
        jr_mem_mb := ws_mem_mb ws, jr_storage_mb := ws_storage_mb ws,
        jr_machines_str := cfield 4096 (ws_machines ws), jr_machines := m\<rparr>)"

text \<open>
  A job number is used up even when the request is refused. The default queue is
  looked up by its configured name, before the copy into the request.
\<close>

definition job_alloc :: "env \<Rightarrow> wire_job_submit \<Rightarrow> mbd \<Rightarrow> crash + (int + job_data) \<times> wire_job_submit \<times> mbd" where
  "job_alloc e ws s =
     bindE (next_job_id s) (\<lambda>(i, s1).
       let ws' = submit_defaults s ws;
           queue = (if ws_queue ws = [] then default_queue s else ws_queue ws);
           user = cfield 64 (ws_username ws) in
       case ll_hash_search (queue_name_hash s) queue of
         None \<Rightarrow> Inr (Inl EINVAL, ws', s1)
       | Some q \<Rightarrow>
           if \<not> queue_user_allowed (queue_heap s q) user then Inr (Inl EPERM, ws', s1)
           else Inr (Inr (zero_job\<lparr>jd_job_id := i, jd_user := user,
              jd_state := (if has_flag (ws_flags ws) JOB_FLAG_HOLD then JOB_HELD else JOB_PENDING),
              jd_priority := mq_priority (queue_heap s q), jd_submit_time := e_now e,
              jd_begin_time := ws_begin_time ws, jd_term_time := ws_term_time ws, jd_queue := Some q,
              jd_project := cfield 256 (ws_project ws), jd_name := cfield 64 (ws_name ws'),
              jd_flags := ws_flags ws, jd_res := alloc_res s ws,
              jd_run_hosts := replicate (nat (jr_num_hosts (alloc_res s ws))) None\<rparr>), ws', s1))"

section \<open>Files of a job\<close>

fun fmt_oct :: "nat \<Rightarrow> string" where
  "fmt_oct n = (if n < 8 then [digit_char n] else fmt_oct (n div 8) @ [digit_char (n mod 8)])"

definition kv_line :: "string \<Rightarrow> string \<Rightarrow> string" where
  "kv_line k v = k @ ''='' @ v @ newline"

definition sidecar_text :: "job_data \<Rightarrow> wire_job_submit \<Rightarrow> string" where
  "sidecar_text j ws =
     kv_line ''JOB_ID'' (fmt_ld (jd_job_id j)) @ kv_line ''UID'' (fmt_ld (jd_uid j)) @
     kv_line ''GID'' (fmt_ld (jd_gid j)) @ kv_line ''USERNAME'' (ws_username ws) @
     kv_line ''NAME'' (ws_name ws) @ kv_line ''QUEUE'' (ws_queue ws) @
     kv_line ''PROJECT'' (ws_project ws) @ kv_line ''SUBMIT_HOST'' (ws_submit_host ws) @
     kv_line ''HOME_DIR'' (ws_home_dir ws) @ kv_line ''CWD'' (ws_cwd ws) @
     kv_line ''COMMAND'' (ws_command ws) @ kv_line ''IN_FILE'' (ws_in_file ws) @
     kv_line ''OUT_FILE'' (ws_out_file ws) @ kv_line ''ERR_FILE'' (ws_err_file ws) @
     kv_line ''NUM_CPUS'' (fmt_ld (ws_num_cpus ws)) @ kv_line ''NUM_NHOSTS'' (fmt_ld (ws_num_hosts ws)) @
     kv_line ''NUM_GPUS'' (fmt_ld (ws_num_gpus ws)) @ kv_line ''MEM_MB'' (fmt_ld (uint (ws_mem_mb ws))) @
     kv_line ''UMASK'' (fmt_oct (unat (ws_umask ws))) @ kv_line ''FLAGS'' (fmt_ld (uint (ws_flags ws))) @
     kv_line ''BEGIN_TIME'' (fmt_ld (ws_begin_time ws)) @ kv_line ''TERM_TIME'' (fmt_ld (ws_term_time ws)) @
     kv_line ''DEPEND_COND'' (ws_depend_cond ws) @ kv_line ''MACHINES'' (ws_machines ws) @
     kv_line ''GPU_MODEL'' (ws_gpu_model ws) @ kv_line ''COMMENT'' (ws_comment ws) @
     kv_line ''TOKENPOOL'' (ws_tokenpool ws)"

text \<open>
  Both files are written under a temporary name and renamed: they are there as a
  whole, or the call fails with the error the environment gives.
\<close>

definition write_script :: "env \<Rightarrow> job_data \<Rightarrow> string \<Rightarrow> mbd \<Rightarrow> int + mbd" where
  "write_script e j script s =
     (case e_script_err e (jd_job_id j) of
        Some err \<Rightarrow> Inl err
      | None \<Rightarrow> Inr (s\<lparr>script_files := (script_files s)(jd_job_id j \<mapsto> script)\<rparr>))"

definition write_sidecar :: "env \<Rightarrow> job_data \<Rightarrow> wire_job_submit \<Rightarrow> mbd \<Rightarrow> int + mbd" where
  "write_sidecar e j ws s =
     (case e_sidecar_err e (jd_job_id j) of
        Some err \<Rightarrow> Inl err
      | None \<Rightarrow> Inr (s\<lparr>submit_files := (submit_files s)(jd_job_id j \<mapsto> sidecar_text j ws)\<rparr>))"

section \<open>Tokens and dependencies of a request\<close>

text \<open>
  \<open>ll_atoi\<close> returns 0 or 1, so the test for a negative result never holds: a count
  that does not parse leaves the local variable as it was.
\<close>

definition parse_token :: "env \<Rightarrow> mbd \<Rightarrow> string \<Rightarrow> int + job_token" where
  "parse_token e s tok =
     (let name = takeWhile (\<lambda>c. c \<noteq> CHR 0x3D) tok;
          rest = dropWhile (\<lambda>c. c \<noteq> CHR 0x3D) tok;
          n = (case ll_atoi (tl rest) of Some v \<Rightarrow> v | None \<Rightarrow> e_garbage e) in
      if rest = [] then Inl EINVAL
      else if n \<le> 0 then Inl EINVAL
      else case ll_hash_search (token_pool_name_hash s) name of
          None \<Rightarrow> Inl EINVAL
        | Some q \<Rightarrow> Inr \<lparr>tk_name = cfield 64 name, tk_count = n\<rparr>)"

definition job_parse_tokens :: "env \<Rightarrow> mbd \<Rightarrow> string \<Rightarrow> int + job_token list" where
  "job_parse_tokens e s tokenpool =
     foldE (\<lambda>tok ts. bindE (parse_token e s tok) (\<lambda>t. Inr (ts @ [t])))
       (strtok_all [CHR 0x2C] [] (cfield 1024 tokenpool)) []"

definition dep_resolve_job :: "mbd \<Rightarrow> int \<Rightarrow> bool" where
  "dep_resolve_job s job_id \<longleftrightarrow> job_find s job_id \<noteq> None"

definition job_deps_set :: "job_data \<Rightarrow> string \<Rightarrow> dep_resolve_fn option \<Rightarrow> job_data option" where
  "job_deps_set j depend_cond resolve =
     (if depend_cond = [] then Some j
      else case dep_parse depend_cond resolve of
          (DEP_PARSE_OK, ds) \<Rightarrow> Some (j\<lparr>jd_depend_cond := cfield 4096 depend_cond, jd_deps := ds\<rparr>)
        | _ \<Rightarrow> None)"

definition job_parse_deps :: "mbd \<Rightarrow> job_data \<Rightarrow> string \<Rightarrow> int + job_data" where
  "job_parse_deps s j depend_cond =
     (case job_deps_set j depend_cond (Some (dep_resolve_job s)) of
        None \<Rightarrow> Inl EINVAL | Some j' \<Rightarrow> Inr j')"

section \<open>Registration\<close>

definition job_register_reply :: "env \<Rightarrow> int \<Rightarrow> int \<Rightarrow> mbd \<Rightarrow> bool \<times> mbd" where
  "job_register_reply e chan job_id s =
     enqueue_payload e chan BATCH_JOB_SUBMIT_ACK MBD_OK (Submit_reply job_id) s"

definition job_register_error :: "env \<Rightarrow> int \<Rightarrow> int \<Rightarrow> mbd \<Rightarrow> mbd" where
  "job_register_error e chan status s =
     snd (enqueue_payload e chan BATCH_JOB_SUBMIT_ACK status (Submit_reply (- 1)) s)"

text \<open>
  A prepared job has an address but is on no list and not in the table. A failure
  leaves the files written so far behind.
\<close>

definition prepare_files :: "env \<Rightarrow> wire_job_submit \<Rightarrow> string \<Rightarrow> job_data \<Rightarrow> mbd \<Rightarrow> (int + job_data) \<times> mbd" where
  "prepare_files e ws script j s =
     (case write_script e j script s of
        Inl err \<Rightarrow> (Inl err, s)
      | Inr s1 \<Rightarrow>
      (case write_sidecar e j ws s1 of
        Inl err \<Rightarrow> (Inl err, s1)
      | Inr s2 \<Rightarrow>
        (bindE (job_parse_tokens e s2 (ws_tokenpool ws)) (\<lambda>ts.
           job_parse_deps s2
             (j\<lparr>jd_res := (jd_res j)\<lparr>jr_tokens := ts, jr_tokenpool_str := cfield 256 (ws_tokenpool ws)\<rparr>\<rparr>)
             (ws_depend_cond ws)), s2)))"

definition job_prepare ::
  "env \<Rightarrow> wire_job_submit \<Rightarrow> string \<Rightarrow> wire_hdr \<Rightarrow> mbd \<Rightarrow> crash + (int + jptr) \<times> wire_job_submit \<times> mbd" where
  "job_prepare e ws script hdr s =
     bindE (job_alloc e ws s) (\<lambda>(r, ws', s1).
       case r of
         Inl err \<Rightarrow> Inr (Inl err, ws', s1)
       | Inr j \<Rightarrow>
         (case prepare_files e ws' script (j\<lparr>jd_uid := wh_uid hdr, jd_gid := wh_gid hdr\<rparr>) s1 of
            (Inl err, s2) \<Rightarrow> Inr (Inl err, ws', s2)
          | (Inr j', s2) \<Rightarrow> Inr (Inr (job_fresh s2), ws',
              s2\<lparr>job_heap := (job_heap s2)(job_fresh s2 := j'), job_fresh := job_fresh s2 + 1\<rparr>)))"

definition commit_counters :: "job_state \<Rightarrow> mbd_queue \<Rightarrow> mbd_queue" where
  "commit_counters st q =
     (let q1 = (if st = JOB_PENDING then q\<lparr>mq_num_pend := mq_num_pend q + 1\<rparr>
                else if st = JOB_HELD then q\<lparr>mq_num_held := mq_num_held q + 1\<rparr> else q) in
      q1\<lparr>mq_num_jobs := mq_num_jobs q1 + 1\<rparr>)"

definition job_commit :: "wire_job_submit \<Rightarrow> jptr \<Rightarrow> mbd \<Rightarrow> crash + mbd" where
  "job_commit ws p s =
     (let (hs, ht) = ll_hash_insert (job_id_hash s) (fmt_ld (jd_job_id (job_heap s p))) (Some p) False in
      bindE (assertE Assert_failed (hs = LL_HASH_INSERTED)) (\<lambda>_.
      bindE (event_job_new p ws (job_set_list p JOB_LIST_PEND (job_deps_hold p (s\<lparr>job_id_hash := ht\<rparr>)))) (\<lambda>s1.
        on_queue p (commit_counters (jd_state (job_heap s1 p))) s1)))"

definition job_commit_prepared :: "jptr list \<Rightarrow> wire_job_submit \<Rightarrow> mbd \<Rightarrow> crash + mbd" where
  "job_commit_prepared ps ws s = foldE (job_commit ws) ps s"

section \<open>Loops over an array range\<close>

text \<open>
  \<^verbatim>\<open>for (int32_t index = start; index <= end; index += stride)\<close>. The body may leave
  the enclosing function (\<open>Inl\<close>). Adding the stride past the range of \<open>int32_t\<close> is
  an overflow; a stride of zero never ends.
\<close>

function array_loop :: "(int \<Rightarrow> 's \<Rightarrow> crash + ('b + 's)) \<Rightarrow> int \<Rightarrow> int \<Rightarrow> int \<Rightarrow> 's \<Rightarrow> crash + ('b + 's)" where
  "array_loop f index fin stride s =
     (if index \<le> fin
      then bindE (f index s) (\<lambda>r. case r of
          Inl b \<Rightarrow> Inr (Inl b)
        | Inr s' \<Rightarrow>
            if stride = 0 then Inl Diverges
            else if \<not> in_s32 (index + stride) then Inl Int_overflow
            else array_loop f (index + stride) fin stride s')
      else Inr (Inr s))"
  by pat_completeness auto

termination
proof (relation "measure (\<lambda>(f, index, fin, stride, s).
    if 0 < stride then nat (fin + 1 - index) else nat (index + 2147483649))")
qed (auto simp: in_s32_def split: if_splits)

declare array_loop.simps [simp del]

record reg =
  rg_prepared :: "jptr list"
  rg_array_id :: int
  rg_prev_id :: int
  rg_head :: "jptr option"
  rg_ws :: wire_job_submit

definition register_element :: "env \<Rightarrow> string \<Rightarrow> wire_hdr \<Rightarrow> int \<Rightarrow> int \<Rightarrow> int \<Rightarrow> int \<Rightarrow>
    reg \<times> mbd \<Rightarrow> crash + ((int \<times> mbd) + reg \<times> mbd)" where
  "register_element e script hdr start fin stride index rs =
     (let (r, s) = rs in
      bindE (job_prepare e (rg_ws r) script hdr s) (\<lambda>(res, ws', s1).
        case res of
          Inl err \<Rightarrow> bindE (assertE Assert_failed (err \<noteq> 0)) (\<lambda>_. Inr (Inl (err, s1)))
        | Inr p \<Rightarrow>
            let id = jd_job_id (job_heap s1 p);
                (aid, head) = (if rg_array_id r = 0 then (id, Some p) else (rg_array_id r, rg_head r)) in
            bindE (assertE Assert_failed (rg_array_id r = 0 \<or> id = rg_prev_id r + 1)) (\<lambda>_.
              let s2 = (if has_flag (ws_flags ws') JOB_FLAG_ARRAY
                    then (case head of None \<Rightarrow> s1 | Some h \<Rightarrow>
                      upd_job h (\<lambda>j. j\<lparr>jd_array_element_cnt := jd_array_element_cnt j + 1\<rparr>)
                       (upd_job p (\<lambda>j. j\<lparr>jd_array_id := aid, jd_array_index := index, jd_array_start := start,
                          jd_array_end := fin, jd_array_stride := stride\<rparr>) s1))
                    else s1) in
              Inr (Inr (\<lparr>rg_prepared = rg_prepared r @ [p], rg_array_id = aid, rg_prev_id = id,
                 rg_head = head, rg_ws = ws'\<rparr>, s2)))))"

text \<open>An ordinary job runs the loop once, with the range 0 to 0.\<close>

definition submit_range :: "wire_job_submit \<Rightarrow> int \<times> int \<times> int" where
  "submit_range ws =
     (if has_flag (ws_flags ws) JOB_FLAG_ARRAY
      then (ws_array_start ws, ws_array_end ws, ws_array_stride ws) else (0, 0, 1))"

definition job_register ::
  "env \<Rightarrow> wire_job_submit option \<Rightarrow> string option \<Rightarrow> int \<Rightarrow> wire_hdr \<Rightarrow> mbd \<Rightarrow> crash + mbd" where
  "job_register e dec_ws dec_script chan hdr s =
     (case (dec_ws, dec_script) of
        (Some ws, Some script) \<Rightarrow>
          if has_flag (ws_flags ws) JOB_FLAG_ARRAY \<and>
             (ws_array_stride ws \<le> 0 \<or> ws_array_end ws < ws_array_start ws)
          then Inr (job_register_error e chan EINVAL s)
          else
            let (start, fin, stride) = submit_range ws in
            bindE (array_loop (register_element e script hdr start fin stride) start fin stride
                (\<lparr>rg_prepared = [], rg_array_id = 0, rg_prev_id = 0, rg_head = None, rg_ws = ws\<rparr>, s))
              (\<lambda>res. case res of
                 Inl (err, s1) \<Rightarrow> Inr (job_register_error e chan err s1)
               | Inr (r, s1) \<Rightarrow>
                   (case job_register_reply e chan (rg_array_id r) s1 of
                      (False, s2) \<Rightarrow> Inr s2
                    | (True, s2) \<Rightarrow>
                        bindE (job_commit_prepared (rg_prepared r) (rg_ws r) s2) (\<lambda>s3.
                          Inr (job_id_seq_write s3))))
      | _ \<Rightarrow> Inr (chan_shutdown chan s))"

section \<open>Lookup of array elements\<close>

definition job_find_array :: "mbd \<Rightarrow> int \<Rightarrow> int \<Rightarrow> crash + jptr option" where
  "job_find_array s array_id array_index =
     (case job_find s array_id of
        None \<Rightarrow> Inr None
      | Some h \<Rightarrow>
          let j = job_heap s h in
          if jd_array_id j \<noteq> jd_job_id j then Inr None
          else bindE (array_loop (\<lambda>index job_id.
                 if index = array_index then Inr (Inl (job_find s job_id)) else Inr (Inr (job_id + 1)))
               (jd_array_start j) (jd_array_end j) (jd_array_stride j) (jd_job_id j))
             (\<lambda>r. case r of Inl res \<Rightarrow> Inr res | Inr _ \<Rightarrow> Inr None))"

section \<open>Dependencies\<close>

definition dep_job_check :: "job_data \<Rightarrow> dep_type \<Rightarrow> bool" where
  "dep_job_check j ty =
     (case ty of
        DEP_DONE \<Rightarrow> jd_state j = JOB_DONE
      | DEP_EXIT \<Rightarrow> jd_state j = JOB_EXITED
      | DEP_ENDED \<Rightarrow> jd_state j = JOB_DONE \<or> jd_state j = JOB_EXITED
      | _ \<Rightarrow> False)"

definition array_has_member :: "mbd \<Rightarrow> job_list_id \<Rightarrow> int \<Rightarrow> bool" where
  "array_has_member s l array_id \<longleftrightarrow> list_ex (\<lambda>p. jd_array_id (job_heap s p) = array_id) (job_lists s l)"

definition dep_array_check :: "mbd \<Rightarrow> int \<Rightarrow> dep_type \<Rightarrow> bool" where
  "dep_array_check s array_id ty \<longleftrightarrow>
     \<not> array_has_member s JOB_LIST_PEND array_id \<and> \<not> array_has_member s JOB_LIST_RUN array_id \<and>
     list_all (\<lambda>p. jd_array_id (job_heap s p) \<noteq> array_id \<or> dep_job_check (job_heap s p) ty)
       (job_lists s JOB_LIST_FINISH)"

definition dep_call_eval :: "mbd \<Rightarrow> dep_type \<Rightarrow> int \<Rightarrow> bool" where
  "dep_call_eval s ty job_id =
     (case job_find s job_id of
        None \<Rightarrow> False
      | Some p \<Rightarrow>
          let j = job_heap s p in
          if jd_array_id j \<noteq> 0 \<and> jd_array_id j = jd_job_id j then dep_array_check s (jd_array_id j) ty
          else dep_job_check j ty)"

text \<open>An evaluation that runs off its stack writes or reads outside the array.\<close>

definition job_dep_satisfied :: "jptr \<Rightarrow> mbd \<Rightarrow> crash + bool" where
  "job_dep_satisfied p s =
     (if jd_deps (job_heap s p) = [] then Inr True
      else case dep_list_eval (jd_deps (job_heap s p)) (\<lambda>ty i. of_bool (dep_call_eval s ty i)) of
          Inl _ \<Rightarrow> Inl Out_of_bounds
        | Inr cc \<Rightarrow> Inr (0 < cc))"

section \<open>Job numbers are fresh\<close>

lemma next_job_id_loop_None:
  "next_job_id_loop n s i = None \<Longrightarrow> 0 < k \<Longrightarrow> k \<le> int n \<Longrightarrow> job_find s (i + k) \<noteq> None"
proof (induction n arbitrary: i k)
  case 0
  then show ?case by simp
next
  case (Suc n)
  then have h: "job_find s (i + 1) \<noteq> None" "next_job_id_loop n s (i + 1) = None"
    by (auto split: if_splits)
  show ?case
  proof (cases "k = 1")
    case True
    then show ?thesis using h by simp
  next
    case False
    then show ?thesis using Suc.IH [OF h(2), of "k - 1"] Suc.prems by simp
  qed
qed

lemma next_job_id_loop_Some:
  "next_job_id_loop n s i = Some r \<Longrightarrow>
   i < r \<and> job_find s r = None \<and> (\<forall>k. i < k \<and> k < r \<longrightarrow> job_find s k \<noteq> None)"
proof (induction n arbitrary: i)
  case 0
  then show ?case by simp
next
  case (Suc n)
  show ?case
  proof (cases "job_find s (i + 1) = None")
    case True
    then show ?thesis using Suc.prems by auto
  next
    case False
    then have "next_job_id_loop n s (i + 1) = Some r" using Suc.prems by simp
    note ih = Suc.IH [OF this]
    have "job_find s k \<noteq> None" if "i < k" "k < r" for k
      using ih False that by (cases "k = i + 1") auto
    with ih show ?thesis by auto
  qed
qed

lemma next_job_id_loop_total:
  assumes "ll_hash_wf (job_id_hash s)"
  shows "next_job_id_loop (Suc (ll_hash_count (job_id_hash s))) s i \<noteq> None"
proof
  let ?n = "Suc (ll_hash_count (job_id_hash s))" and ?d = "dom (ll_hash_abs (job_id_hash s))"
  assume "next_job_id_loop ?n s i = None"
  then have used: "job_find s (i + int k + 1) \<noteq> None" if "k < ?n" for k
    using next_job_id_loop_None [of ?n s i "int k + 1"] that by (simp add: add.assoc)
  have "fmt_ld (i + int k + 1) \<in> ?d" if "k < ?n" for k
    using used [OF that] ht.search_Some_contains [OF assms] ht.contains_abs [OF assms]
    by (fastforce simp: job_find_def)
  then have sub: "(\<lambda>k. fmt_ld (i + int k + 1)) ` {..<?n} \<subseteq> ?d" by auto
  have "inj_on (\<lambda>k. fmt_ld (i + int k + 1)) {..<?n}" by (auto simp: inj_on_def)
  then have "?n \<le> card ?d"
    using card_mono [OF ht.finite_abs [OF assms] sub] by (simp add: card_image)
  then show False by (simp add: ht.count_abs [OF assms])
qed

lemma next_job_id_spec:
  assumes "ll_hash_wf (job_id_hash s)"
  obtains i where "next_job_id s = Inr (i, s\<lparr>job_id_seq := i\<rparr>)" and "job_id_seq s < i"
    and "job_find s i = None" and "\<And>k. job_id_seq s < k \<Longrightarrow> k < i \<Longrightarrow> job_find s k \<noteq> None"
proof -
  obtain i where i: "next_job_id_loop (Suc (ll_hash_count (job_id_hash s))) s (job_id_seq s) = Some i"
    using next_job_id_loop_total [OF assms] by auto
  note r = next_job_id_loop_Some [OF i]
  show ?thesis by (rule that [of i]) (use i r in \<open>simp_all add: next_job_id_def\<close>)
qed

lemma next_job_id_inv:
  assumes "mbd_inv s"
  shows "next_job_id s = Inr (job_id_seq s + 1, s\<lparr>job_id_seq := job_id_seq s + 1\<rparr>)"
    and "job_find s (job_id_seq s + 1) = None"
proof -
  have none: "job_find s k = None" if "job_id_seq s < k" for k
  proof (rule ccontr)
    assume "job_find s k \<noteq> None"
    then show False using assms that by (fastforce simp: mbd_inv_def table_agrees_def)
  qed
  show "job_find s (job_id_seq s + 1) = None" by (simp add: none)
  show "next_job_id s = Inr (job_id_seq s + 1, s\<lparr>job_id_seq := job_id_seq s + 1\<rparr>)"
    by (simp add: next_job_id_def none)
qed

end
