(* ===== verification/Mbd_Example.thy ===== *)
theory Mbd_Example
  imports Mbd_Job
begin

text \<open>
  A small concrete daemon on which the properties of the handlers are applied:
  one queue \<open>normal\<close> over the hosts \<open>n1\<close> and \<open>n2\<close>, one token pool \<open>lic\<close>, and three
  jobs, one pending, one running on \<open>n1\<close> and one finished. It satisfies the
  invariant.
\<close>

definition table_of :: "(string \<times> 'v) list \<Rightarrow> 'v ll_hash" where
  "table_of kvs = fold (\<lambda>(k, v) h. snd (ll_hash_insert h k (Some v) False)) kvs (ll_hash_init 11)"

lemma table_of_spec:
  assumes "distinct (map fst kvs)"
  shows "ll_hash_wf (table_of kvs)" and "ll_hash_abs (table_of kvs) k = map_option Some (map_of kvs k)"
proof -
  let ?f = "\<lambda>(k, v) h. snd (ll_hash_insert h k (Some v) False)"
  have "ll_hash_wf h \<Longrightarrow> (\<forall>k \<in> fst ` set kvs. ll_hash_abs h k = None) \<Longrightarrow>
      ll_hash_wf (fold ?f kvs h) \<and>
      (\<forall>k. ll_hash_abs (fold ?f kvs h) k = (case map_of kvs k of None \<Rightarrow> ll_hash_abs h k | Some v \<Rightarrow> Some (Some v)))"
    for h :: "'a ll_hash"
    using assms
  proof (induction kvs arbitrary: h)
    case Nil
    then show ?case by simp
  next
    case (Cons kv kvs)
    obtain k v where kv: "kv = (k, v)" by (cases kv)
    let ?h = "snd (ll_hash_insert h k (Some v) False)"
    have w: "ll_hash_wf ?h" using Cons.prems(1) by (rule ht.insert_wf)
    have a: "ll_hash_abs ?h = (ll_hash_abs h)(k \<mapsto> Some v)"
      using Cons.prems(1,2) by (simp add: ht.insert_abs kv)
    have n: "\<forall>x \<in> fst ` set kvs. ll_hash_abs ?h x = None" using Cons.prems(2,3) by (auto simp: a kv)
    from Cons.IH [OF w n] Cons.prems(3) have ih: "ll_hash_wf (fold ?f kvs ?h)"
      "\<And>x. ll_hash_abs (fold ?f kvs ?h) x = (case map_of kvs x of None \<Rightarrow> ll_hash_abs ?h x | Some v \<Rightarrow> Some (Some v))"
      by auto
    have "map_of kvs k = None" using Cons.prems(3) by (simp add: kv map_of_eq_None_iff)
    then show ?case using ih by (auto simp: kv a split: option.splits)
  qed
  from this [of "ll_hash_init 11"] show "ll_hash_wf (table_of kvs)"
    "ll_hash_abs (table_of kvs) k = map_option Some (map_of kvs k)"
    by (auto simp: table_of_def ll_hash_init_ok split: option.splits)
qed

lemma table_of_search:
  assumes "distinct (map fst kvs)"
  shows "ll_hash_search (table_of kvs) k = map_of kvs k"
    and "ll_hash_contains (table_of kvs) k \<longleftrightarrow> map_of kvs k \<noteq> None"
    and "ll_hash_count (table_of kvs) = length kvs"
proof -
  note sp = table_of_spec [OF assms]
  show "ll_hash_search (table_of kvs) k = map_of kvs k" by (simp add: ht.search_abs sp split: bind_splits) (cases "map_of kvs k"; simp)
  show "ll_hash_contains (table_of kvs) k \<longleftrightarrow> map_of kvs k \<noteq> None" by (simp add: ht.contains_abs sp)
  have "dom (ll_hash_abs (table_of kvs)) = fst ` set kvs"
    by (simp add: sp dom_def dom_map_of_conv_image_fst [symmetric])
  then show "ll_hash_count (table_of kvs) = length kvs"
    using distinct_card [OF assms] by (simp add: ht.count_abs sp)
qed

definition ex_res :: "int \<Rightarrow> job_resources" where
  "ex_res n = zero_res\<lparr>jr_num_cpus := n, jr_num_hosts := 1\<rparr>"

definition ex_job :: "int \<Rightarrow> job_state \<Rightarrow> job_list_id \<Rightarrow> job_data" where
  "ex_job i st l = zero_job\<lparr>jd_job_id := i, jd_uid := 1000, jd_user := ''ann'', jd_state := st, jd_priority := 10,
     jd_submit_time := 100, jd_queue := Some 0, jd_name := ''-'', jd_list_id := l, jd_res := ex_res 2,
     jd_run_hosts := [None]\<rparr>"

definition ex_pend :: job_data where
  "ex_pend = ex_job 1 JOB_PENDING JOB_LIST_PEND"

definition ex_run :: job_data where
  "ex_run = (ex_job 2 JOB_RUNNING JOB_LIST_RUN)\<lparr>jd_pid := 4711, jd_dispatch_time := 110, jd_fork_time := 111,
     jd_res := (ex_res 2)\<lparr>jr_tokens := [\<lparr>tk_name = ''lic'', tk_count = 1\<rparr>]\<rparr>,
     jd_run_nhosts := 1, jd_run_hosts := [Some 0]\<rparr>"

definition ex_done :: job_data where
  "ex_done = (ex_job 3 JOB_DONE JOB_LIST_FINISH)\<lparr>jd_end_time := 120\<rparr>"

definition ex_host :: "string \<Rightarrow> int \<Rightarrow> mbd_host" where
  "ex_host name used = \<lparr>mh_name = name, mh_addr = name, mh_port = 5001, mh_host_idx = 0, mh_total_cpu = 8,
     mh_free_cpu = 8 - used, mh_total_mem_mb = 1000, mh_free_mem_mb = 1000, mh_total_storage_mb = 1000,
     mh_free_storage_mb = 1000, mh_gpu = \<lparr>gp_model = [], gp_gpu_ids = [], gp_ids = []\<rparr>, mh_state = 0,
     mh_candidate = False, mh_exclusive = False, mh_num_jobs = of_bool (0 < used),
     mh_num_run = of_bool (0 < used), mh_num_susp = 0, mh_sbd_chan = 7, mh_num_cpus_used = used\<rparr>"

definition ex_queue :: mbd_queue where
  "ex_queue = \<lparr>mq_name = ''normal'', mq_description = [], mq_hosts_spec = [], mq_users = [], mq_priority = 10,
     mq_max_jobs = 0, mq_num_jobs = 2, mq_num_pend = 1, mq_num_run = 1, mq_num_susp = 0, mq_num_held = 0,
     mq_state = 0, mq_num_cpus_used = 2, mq_num_hosts_used = 1,
     mq_host_hash = table_of [(''n1'', 0), (''n2'', 1)], mq_user_hash = ll_hash_init 11\<rparr>"

definition ex_mbd :: mbd where
  "ex_mbd = \<lparr>job_heap = (\<lambda>p. if p = 0 then ex_pend else if p = 1 then ex_run else ex_done), job_fresh = 3,
     job_id_seq = 3, job_id_hash = table_of [(fmt_ld 1, 0), (fmt_ld 2, 1), (fmt_ld 3, 2)],
     job_lists = (\<lambda>l. case l of JOB_LIST_PEND \<Rightarrow> [0] | JOB_LIST_RUN \<Rightarrow> [1] | JOB_LIST_FINISH \<Rightarrow> [2]),
     host_heap = (\<lambda>h. if h = 0 then ex_host ''n1'' 2 else ex_host ''n2'' 0), host_list = [0, 1],
     host_name_hash = table_of [(''n1'', 0), (''n2'', 1)],
     queue_heap = (\<lambda>q. ex_queue), queue_list = [0], queue_name_hash = table_of [(''normal'', 0)],
     pool_heap = (\<lambda>q. \<lparr>tp_name = ''lic'', tp_total = 5, tp_free = 4\<rparr>), token_pool_list = [0],
     token_pool_name_hash = table_of [(''lic'', 0)],
     group_heap = (\<lambda>g. \<lparr>mg_name = [], mg_num_members = 0, mg_members = []\<rparr>), group_list = [0], group_name_hash = ll_hash_init 11,
     sbd_chan_hash = table_of [(fmt_ld 7, 0)], mgr_uid = 500, default_queue = ''normal'', assert_counters = True,
     manifest = [], archives = [], seq_file = Some 3, job_finish_threshold = 100, closed_queues = [],
     closed_hosts = [], submit_files = Map.empty, script_files = Map.empty, usage_files = Map.empty,
     outq = [], shut_chans = []\<rparr>"

definition ex_env :: env where
  "ex_env = \<lparr>e_now = 200, e_sign_ok = True, e_send_ok = (\<lambda>c op. True), e_script_err = (\<lambda>i. None),
     e_sidecar_err = (\<lambda>i. None), e_read_ok = (\<lambda>i. True), e_usage_ok = (\<lambda>i. True), e_state_ok = (\<lambda>k. True), e_garbage = 0\<rparr>"

definition ex_hdr :: wire_hdr where
  "ex_hdr = \<lparr>wh_status = 0, wh_uid = 1000, wh_gid = 100\<rparr>"

definition ex_ws :: wire_job_submit where
  "ex_ws = \<lparr>ws_name = ''sweep'', ws_queue = [], ws_project = [], ws_comment = [], ws_machines = [], ws_in_file = [],
     ws_out_file = [], ws_err_file = [], ws_cwd = ''/'', ws_depend_cond = [], ws_command = ''run'', ws_gpu_model = [],
     ws_submit_host = ''n1'', ws_username = ''ann'', ws_home_dir = ''/'', ws_num_cpus = 1, ws_num_hosts = 1,
     ws_num_gpus = 0, ws_mem_mb = 10, ws_storage_mb = 0, ws_tokenpool = [], ws_umask = 18, ws_flags = 4,
     ws_begin_time = 0, ws_term_time = 0, ws_susp_time = 0, ws_resume_time = 0, ws_array_start = 1,
     ws_array_end = 5, ws_array_stride = 2\<rparr>"

lemmas ex_defs = ex_pend_def ex_run_def ex_done_def ex_job_def ex_res_def zero_job_def zero_res_def

lemma ex_mbd_jobs [simp]:
  "job_heap ex_mbd 0 = ex_pend" "job_heap ex_mbd (Suc 0) = ex_run" "job_heap ex_mbd 1 = ex_run" "job_heap ex_mbd 2 = ex_done"
  "all_jobs ex_mbd = [0, 1, 2]" "job_id_seq ex_mbd = 3" "job_fresh ex_mbd = 3"
  "queue_list ex_mbd = [0]" "host_list ex_mbd = [0, 1]" "token_pool_list ex_mbd = [0]"
  "job_lists ex_mbd JOB_LIST_PEND = [0]" "job_lists ex_mbd JOB_LIST_RUN = [1]" "job_lists ex_mbd JOB_LIST_FINISH = [2]"
  "queue_heap ex_mbd q = ex_queue" "host_heap ex_mbd 0 = ex_host ''n1'' 2" "host_heap ex_mbd (Suc 0) = ex_host ''n2'' 0"
  "default_queue ex_mbd = ''normal''" "outq ex_mbd = []" "mgr_uid ex_mbd = 500" "assert_counters ex_mbd"
  "manifest ex_mbd = []" "sbd_chan_hash ex_mbd = table_of [(fmt_ld 7, 0)]"
  by (simp_all add: ex_mbd_def all_jobs_def)

lemma ex_mbd_find [simp]:
  "job_find ex_mbd i = (if i = 1 then Some 0 else if i = 2 then Some 1 else if i = 3 then Some 2 else None)"
  by (simp add: job_find_def ex_mbd_def table_of_search)

lemma ex_mbd_names [simp]:
  "ll_hash_search (queue_name_hash ex_mbd) k = (if k = ''normal'' then Some 0 else None)"
  "ll_hash_search (token_pool_name_hash ex_mbd) k = (if k = ''lic'' then Some 0 else None)"
  "ll_hash_search (host_name_hash ex_mbd) k = (if k = ''n1'' then Some 0 else if k = ''n2'' then Some 1 else None)"
  by (simp_all add: ex_mbd_def table_of_search)

lemma ex_mbd_inv [simp]: "mbd_inv ex_mbd"
proof -
  have l: "lists_ok ex_mbd"
    by (auto simp: lists_ok_def) (rename_tac l p, case_tac l; auto simp: ex_defs)+
  have t: "table_agrees ex_mbd"
  proof -
    have w: "ll_hash_wf (job_id_hash ex_mbd)"
      "ll_hash_contains (job_id_hash ex_mbd) k \<Longrightarrow> ll_hash_search (job_id_hash ex_mbd) k \<noteq> None" for k
      by (simp_all add: ex_mbd_def table_of_search table_of_spec)
    have "job_find ex_mbd i = Some p \<longleftrightarrow> p \<in> {0, 1, 2} \<and> jd_job_id (job_heap ex_mbd p) = i" for i p
      by (cases "p = 0"; cases "p = 1"; cases "p = 2") (auto simp: ex_defs)
    then show ?thesis using w by (auto simp: table_agrees_def ex_defs)
  qed
  have n: "names_ok ex_mbd"
    unfolding names_ok_def
    by (auto simp: ex_queue_def table_of_search ex_host_def split: if_splits) (simp_all add: ex_mbd_def table_of_spec)
  have j: "\<forall>p \<in> set (all_jobs ex_mbd). job_ok (queue_list ex_mbd) (host_list ex_mbd) (job_heap ex_mbd p)"
    by (auto simp: job_ok_def ex_defs run_hosts_are_def ht.create_wf ht.create_empty intro!: exI [of _ "[0]"])
  have hs: "\<forall>h \<in> set (host_list ex_mbd). host_ok (host_heap ex_mbd h)" by (auto simp: host_ok_def ex_host_def)
  have q: "q_ctr c (queue_heap ex_mbd 0) = load ex_mbd (q_weight c 0)" for c
    by (cases c) (simp_all add: load_def q_weight_def ex_defs ex_queue_def)
  have h: "h_ctr c (host_heap ex_mbd h) = load ex_mbd (h_weight c h)" if "h \<in> {0, 1}" for c h
    using that by (cases c) (auto simp: load_def h_weight_def ex_defs ex_host_def job_uses_host_def used_hosts_def
        has_flag_def)
  have p: "tp_total (pool_heap ex_mbd 0) - tp_free (pool_heap ex_mbd 0) =
      load ex_mbd (t_weight (token_pool_name_hash ex_mbd) 0)"
    by (simp add: load_def t_weight_def token_weight_def ex_defs) (simp add: ex_mbd_def)
  have "counters_ok ex_mbd" using q h p by (auto simp: counters_ok_def)
  with l t n j hs show ?thesis by (simp add: mbd_inv_def)
qed

end
