(* ===== verification/Mbd_Register.thy ===== *)
theory Mbd_Register
  imports Mbd_Example
begin

text \<open>
  The registration of a job or an array: preparing the elements changes nothing
  the rest of the daemon sees but the sequence number, committing them keeps the
  invariant, the numbers of an array are consecutive, and every element is found
  by number and by array index afterwards.
\<close>

section \<open>Preparing keeps the invariant\<close>

lemma machines_wf: "ll_hash_wf (machines_hash_populate s ms)"
proof -
  have a: "ll_hash_wf h \<Longrightarrow> ll_hash_wf (hash_add_names ns h)" for ns h
    unfolding hash_add_names_def by (induction ns arbitrary: h) (simp_all add: ht.insert_wf)
  have b: "ll_hash_wf h \<Longrightarrow> ll_hash_wf (machines_hash_insert_token s k h)" for k h
    by (simp add: machines_hash_insert_token_def a ht.insert_wf split: option.split)
  have "ll_hash_wf h \<Longrightarrow> ll_hash_wf (fold (machines_hash_insert_token s) ks h)" for ks h
    by (induction ks arbitrary: h) (simp_all add: b)
  then show ?thesis by (simp add: machines_hash_populate_def ht.create_wf)
qed

lemma alloc_res_machines [simp]:
  "ll_hash_wf (jr_machines (alloc_res s ws))"
  "0 < ll_hash_count (jr_machines (alloc_res s ws)) \<longrightarrow>
     jr_num_hosts (alloc_res s ws) = int (ll_hash_count (jr_machines (alloc_res s ws)))"
  by (simp_all add: alloc_res_def Let_def machines_wf zero_res_def)

lemma alloc_res_fields [simp]:
  "jr_num_cpus (alloc_res s ws) = ws_num_cpus ws" "1 \<le> jr_num_hosts (alloc_res s ws)"
  "jr_tokens (alloc_res s ws) = []" "jr_num_gpus (alloc_res s ws) = ws_num_gpus ws"
  by (simp_all add: alloc_res_def zero_res_def Let_def)

definition alloc_ok :: "env \<Rightarrow> wire_job_submit \<Rightarrow> mbd \<Rightarrow> job_data \<Rightarrow> bool" where
  "alloc_ok e ws s j \<longleftrightarrow> jd_job_id j = job_id_seq s + 1 \<and> jd_list_id j = JOB_LIST_PEND \<and>
     jd_array_id j = 0 \<and> jd_array_element_cnt j = 0 \<and> jd_dep_refcnt j = 0 \<and> jd_submit_time j = e_now e \<and>
     jd_state j = (if has_flag (ws_flags ws) JOB_FLAG_HOLD then JOB_HELD else JOB_PENDING) \<and>
     jd_queue j = ll_hash_search (queue_name_hash s) (if ws_queue ws = [] then default_queue s else ws_queue ws) \<and>
     jr_num_cpus (jd_res j) = ws_num_cpus ws \<and> jr_num_gpus (jd_res j) = ws_num_gpus ws \<and>
     jd_dispatch_time j = 0 \<and> jd_fork_time j = 0 \<and>
     (0 \<le> ws_num_cpus ws \<longrightarrow> job_ok (queue_list s) (host_list s) j)"

lemma job_alloc_result:
  assumes "mbd_inv s"
  obtains r where "job_alloc e ws s = Inr (r, submit_defaults s ws, s\<lparr>job_id_seq := job_id_seq s + 1\<rparr>)"
    and "\<And>j. r = Inr j \<Longrightarrow> alloc_ok e ws s j"
    and "\<And>err. r = Inl err \<Longrightarrow> err = EINVAL \<or> err = EPERM"
proof -
  let ?q = "ll_hash_search (queue_name_hash s) (if ws_queue ws = [] then default_queue s else ws_queue ws)"
  have ql: "q \<in> set (queue_list s)" if "?q = Some q" for q
    using assms that by (auto simp: mbd_inv_def names_ok_def split: if_splits)
  have "\<exists>r. job_alloc e ws s = Inr (r, submit_defaults s ws, s\<lparr>job_id_seq := job_id_seq s + 1\<rparr>)"
    by (cases ?q) (simp_all add: job_alloc_def next_job_id_inv [OF assms] Let_def)
  then obtain r where r: "job_alloc e ws s = Inr (r, submit_defaults s ws, s\<lparr>job_id_seq := job_id_seq s + 1\<rparr>)"
    by blast
  show ?thesis
  proof (rule that [OF r])
    fix j assume "r = Inr j"
    then show "alloc_ok e ws s j"
      using r ql alloc_res_fields(2) [of s ws] alloc_res_machines(2) [of s ws]
      by (cases ?q) (auto simp: job_alloc_def next_job_id_inv [OF assms] Let_def zero_job_def job_ok_def
          alloc_ok_def run_hosts_are_def split: if_splits)
  next
    fix err assume "r = Inl err"
    then show "err = EINVAL \<or> err = EPERM"
      using r by (cases ?q) (auto simp: job_alloc_def next_job_id_inv [OF assms] Let_def split: if_splits)
  qed
qed

definition files_step :: "mbd \<Rightarrow> mbd \<Rightarrow> bool" where
  "files_step s t \<longleftrightarrow> (\<exists>a b. t = s\<lparr>submit_files := a, script_files := b\<rparr>)"

lemma files_step_refl [simp]: "files_step s s"
  unfolding files_step_def by (rule exI [of _ "submit_files s"], rule exI [of _ "script_files s"]) simp

lemma files_step_fields:
  assumes "files_step s t"
  shows "job_heap t = job_heap s"
    "job_lists t = job_lists s"
    "job_id_hash t = job_id_hash s"
    "host_heap t = host_heap s"
    "host_list t = host_list s"
    "queue_heap t = queue_heap s"
    "queue_list t = queue_list s"
    "pool_heap t = pool_heap s"
    "token_pool_name_hash t = token_pool_name_hash s"
    "token_pool_list t = token_pool_list s"
    "queue_name_hash t = queue_name_hash s"
    "job_fresh t = job_fresh s"
    "job_id_seq t = job_id_seq s"
    "manifest t = manifest s"
    "outq t = outq s"
    "default_queue t = default_queue s"
    "mgr_uid t = mgr_uid s"
    "host_name_hash t = host_name_hash s"
    "sbd_chan_hash t = sbd_chan_hash s"
    "assert_counters t = assert_counters s"
  using assms by (auto simp: files_step_def)

lemma job_parse_deps_Inr:
  "job_parse_deps s j d = Inr j' \<Longrightarrow> \<exists>c ds. j' = j\<lparr>jd_depend_cond := c, jd_deps := ds\<rparr>"
proof -
  assume "job_parse_deps s j d = Inr j'"
  then have "j' = j \<or> (\<exists>c ds. j' = j\<lparr>jd_depend_cond := c, jd_deps := ds\<rparr>)"
    by (auto simp: job_parse_deps_def job_deps_set_def
        split: if_splits option.splits prod.splits dep_parse_status.splits)
  moreover have "j = j\<lparr>jd_depend_cond := jd_depend_cond j, jd_deps := jd_deps j\<rparr>" by simp
  ultimately show ?thesis by blast
qed

lemma prepare_files_step:
  assumes "prepare_files e ws script j s = (r, t)"
  shows "files_step s t"
    and "r = Inr j' \<Longrightarrow> jd_uid j' = jd_uid j \<and> alloc_ok ea wa sa j' = alloc_ok ea wa sa j"
proof -
  have "files_step s (s\<lparr>script_files := b\<rparr>)" "files_step s (s\<lparr>script_files := b, submit_files := a\<rparr>)"
 for a b
    unfolding files_step_def
    by (rule exI [of _ "submit_files s"], rule exI [of _ b], simp)
      (rule exI [of _ a], rule exI [of _ b], simp)
  then show "files_step s t"
    using assms by (auto simp: prepare_files_def write_script_def write_sidecar_def split: option.splits)
  assume "r = Inr j'"
  then obtain s2 ts where "job_parse_deps s2
      (j\<lparr>jd_res := (jd_res j)\<lparr>jr_tokens := ts, jr_tokenpool_str := cfield 256 (ws_tokenpool ws)\<rparr>\<rparr>)
      (ws_depend_cond ws) = Inr j'"
    using assms by (auto simp: prepare_files_def bindE_Inr_iff split: sum.splits)
  from job_parse_deps_Inr [OF this] obtain c ds where
    "j' = j\<lparr>jd_res := (jd_res j)\<lparr>jr_tokens := ts, jr_tokenpool_str := cfield 256 (ws_tokenpool ws)\<rparr>,
       jd_depend_cond := c, jd_deps := ds\<rparr>" by auto
  then show "jd_uid j' = jd_uid j \<and> alloc_ok ea wa sa j' = alloc_ok ea wa sa j"
    by (simp add: alloc_ok_def job_ok_def run_hosts_are_def)
qed


lemma alloc_ok_uid: "alloc_ok e ws s (j\<lparr>jd_uid := u, jd_gid := g\<rparr>) = alloc_ok e ws s j"
  by (simp add: alloc_ok_def job_ok_def run_hosts_are_def)

lemma job_prepare_result:
  assumes "mbd_inv s" and "job_prepare e ws script hdr s = Inr (r, ws', t)"
  shows "ws' = submit_defaults s ws"
    and "r = Inl err \<Longrightarrow> files_step (s\<lparr>job_id_seq := job_id_seq s + 1\<rparr>) t"
    and "r = Inr p \<Longrightarrow> p = job_fresh s \<and> (\<exists>j u. files_step (s\<lparr>job_id_seq := job_id_seq s + 1\<rparr>) u \<and>
      t = u\<lparr>job_heap := (job_heap s)(p := j), job_fresh := p + 1\<rparr> \<and>
      jd_uid j = wh_uid hdr \<and> alloc_ok e ws s j)"
proof -
  obtain r0 where a: "job_alloc e ws s = Inr (r0, submit_defaults s ws, s\<lparr>job_id_seq := job_id_seq s + 1\<rparr>)"
    and ok: "\<And>j. r0 = Inr j \<Longrightarrow> alloc_ok e ws s j"
    using job_alloc_result [OF assms(1), of e ws] by metis
  let ?s1 = "s\<lparr>job_id_seq := job_id_seq s + 1\<rparr>"
  show "ws' = submit_defaults s ws"
    using assms(2) a by (auto simp: job_prepare_def split: sum.splits prod.splits)
  show "files_step ?s1 t" if "r = Inl err"
    using assms(2) a that prepare_files_step(1) files_step_refl
    by (auto simp: job_prepare_def split: sum.splits prod.splits)
  assume r: "r = Inr p"
  then obtain j j' u where j: "r0 = Inr j"
    and f: "prepare_files e ws' script (j\<lparr>jd_uid := wh_uid hdr, jd_gid := wh_gid hdr\<rparr>) ?s1 = (Inr j', u)"
    and t: "p = job_fresh u" "t = u\<lparr>job_heap := (job_heap u)(p := j'), job_fresh := p + 1\<rparr>"
    using assms(2) a by (auto simp: job_prepare_def split: sum.splits prod.splits)
  have u: "files_step ?s1 u" by (rule prepare_files_step(1) [OF f])
  then have e: "job_fresh u = job_fresh s" "job_heap u = job_heap s"
    by (simp_all add: files_step_fields)
  have "jd_uid j' = wh_uid hdr \<and> alloc_ok e ws s j'"
    using prepare_files_step(2) [OF f refl, where ea = e and wa = ws and sa = s] ok [OF j]
    by (simp add: alloc_ok_uid)
  with u t e show "p = job_fresh s \<and> (\<exists>j u. files_step ?s1 u \<and>
      t = u\<lparr>job_heap := (job_heap s)(p := j), job_fresh := p + 1\<rparr> \<and> jd_uid j = wh_uid hdr \<and> alloc_ok e ws s j)"
    by auto
qed

section \<open>The registration loop\<close>

lemma array_loop_inv:
  assumes "array_loop f i fin stride s = Inr r" and "P i s"
    and "\<And>i s s'. i \<le> fin \<Longrightarrow> P i s \<Longrightarrow> f i s = Inr (Inr s') \<Longrightarrow> P (i + stride) s'"
    and "\<And>i s b. i \<le> fin \<Longrightarrow> P i s \<Longrightarrow> f i s = Inr (Inl b) \<Longrightarrow> Q b"
  shows "case r of Inl b \<Rightarrow> Q b | Inr s' \<Rightarrow> \<exists>k. fin < k \<and> P k s'"
  using assms
proof (induction f i fin stride s rule: array_loop.induct)
  case (1 f i fin stride s)
  show ?case
  proof (cases "i \<le> fin")
    case False
    then show ?thesis using "1.prems"(1,2) by (subst (asm) array_loop.simps) (auto intro!: exI [of _ i])
  next
    case True
    with "1.prems"(1) obtain x where x: "f i s = Inr x"
      by (subst (asm) array_loop.simps) (auto simp: bindE_Inr_iff)
    show ?thesis
    proof (cases x)
      case (Inl b)
      then have "r = Inl b" using "1.prems"(1) True x by (subst (asm) array_loop.simps) simp
      then show ?thesis using "1.prems"(4) [OF True "1.prems"(2)] x Inl by simp
    next
      case (Inr s')
      then have l: "stride \<noteq> 0" "in_s32 (i + stride)" "array_loop f (i + stride) fin stride s' = Inr r"
        using "1.prems"(1) True x by (subst (asm) array_loop.simps, simp split: if_splits)+
      have "P (i + stride) s'" using "1.prems"(3) [OF True "1.prems"(2)] x Inr by simp
      then show ?thesis
        using "1.IH" [OF True l(1) _ l(3)] l(2) "1.prems"(3,4) by blast
    qed
  qed
qed

definition prep_ok :: "mbd \<Rightarrow> jptr list \<Rightarrow> bool" where
  "prep_ok s ps \<longleftrightarrow> distinct ps \<and> distinct (map (\<lambda>p. jd_job_id (job_heap s p)) ps) \<and>
     (\<forall>p \<in> set ps. p \<notin> set (all_jobs s) \<and> p < job_fresh s \<and> jd_list_id (job_heap s p) = JOB_LIST_PEND \<and>
        job_ok (queue_list s) (host_list s) (job_heap s p) \<and> 0 < jd_job_id (job_heap s p) \<and>
        jd_job_id (job_heap s p) \<le> job_id_seq s \<and> job_find s (jd_job_id (job_heap s p)) = None)"

text \<open>What the rest of the daemon sees of a submission before it is committed: only the sequence number.\<close>

definition private_step :: "mbd \<Rightarrow> mbd \<Rightarrow> bool" where
  "private_step s t \<longleftrightarrow> job_lists t = job_lists s \<and> job_id_hash t = job_id_hash s \<and>
     host_heap t = host_heap s \<and> host_list t = host_list s \<and> queue_heap t = queue_heap s \<and>
     queue_list t = queue_list s \<and> queue_name_hash t = queue_name_hash s \<and> pool_heap t = pool_heap s \<and>
     token_pool_list t = token_pool_list s \<and> token_pool_name_hash t = token_pool_name_hash s \<and>
     outq t = outq s \<and> manifest t = manifest s \<and> assert_counters t = assert_counters s \<and>
     default_queue t = default_queue s \<and> mgr_uid t = mgr_uid s \<and>
     host_name_hash t = host_name_hash s \<and> sbd_chan_hash t = sbd_chan_hash s \<and>
     job_fresh s \<le> job_fresh t \<and> job_id_seq s \<le> job_id_seq t \<and>
     (\<forall>x < job_fresh s. job_heap t x = job_heap s x)"

lemma private_step_refl [simp]: "private_step s s"
  by (simp add: private_step_def)

lemma private_step_trans: "private_step s t \<Longrightarrow> private_step t u \<Longrightarrow> private_step s u"
  by (auto simp: private_step_def)

lemma private_step_inv: "mbd_inv s \<Longrightarrow> private_step s t \<Longrightarrow> mbd_inv t"
proof (rule inv_frame)
  assume "mbd_inv s" "private_step s t"
  then show "same_load (job_heap s x) (job_heap t x)" if "x \<in> set (all_jobs s)" for x
    using that all_jobs_set [of x s] by (auto simp: mbd_inv_def lists_ok_def private_step_def)
qed (simp_all add: private_step_def)

definition element_ok :: "env \<Rightarrow> wire_job_submit \<Rightarrow> wire_hdr \<Rightarrow> mbd \<Rightarrow> int \<times> int \<times> int \<Rightarrow> nat \<Rightarrow> job_data \<Rightarrow> bool" where
  "element_ok e ws hdr s rng k j \<longleftrightarrow> (case rng of (start, fin, stride) \<Rightarrow>
     jd_job_id j = job_id_seq s + 1 + int k \<and> jd_uid j = wh_uid hdr \<and> jd_submit_time j = e_now e \<and>
     jd_list_id j = JOB_LIST_PEND \<and> jd_dispatch_time j = 0 \<and> jd_fork_time j = 0 \<and>
     jr_num_gpus (jd_res j) = ws_num_gpus ws \<and>
     jd_state j = (if has_flag (ws_flags ws) JOB_FLAG_HOLD then JOB_HELD else JOB_PENDING) \<and>
     (length (default_queue s) < 256 \<longrightarrow> jd_queue j =
       ll_hash_search (queue_name_hash s) (if ws_queue ws = [] then default_queue s else ws_queue ws)) \<and>
     (if has_flag (ws_flags ws) JOB_FLAG_ARRAY
      then jd_array_id j = job_id_seq s + 1 \<and> jd_array_index j = start + int k * stride \<and>
        jd_array_start j = start \<and> jd_array_end j = fin \<and> jd_array_stride j = stride
      else jd_array_id j = 0))"

definition reg_inv :: "env \<Rightarrow> wire_job_submit \<Rightarrow> wire_hdr \<Rightarrow> mbd \<Rightarrow> int \<times> int \<times> int \<Rightarrow> int \<Rightarrow> reg \<times> mbd \<Rightarrow> bool" where
  "reg_inv e ws hdr s rng i rs \<longleftrightarrow> (case (rs, rng) of ((r, t), (start, fin, stride)) \<Rightarrow>
     let n = length (rg_prepared r) in
     private_step s t \<and> prep_ok t (rg_prepared r) \<and> i = start + int n * stride \<and>
     job_id_seq t = job_id_seq s + int n \<and>
     rg_ws r = (if n = 0 then ws else submit_defaults s ws) \<and>
     (\<forall>k < n. job_fresh s \<le> rg_prepared r ! k \<and> element_ok e ws hdr s rng k (job_heap t (rg_prepared r ! k))) \<and>
     (if n = 0 then rg_array_id r = 0
      else rg_array_id r = job_id_seq s + 1 \<and> rg_prev_id r = job_id_seq s + int n \<and>
        rg_head r = Some (rg_prepared r ! 0)))"


lemma submit_defaults_same:
  "default_queue t = default_queue s \<Longrightarrow> submit_defaults t ws = submit_defaults s ws"
  "submit_defaults s (submit_defaults s ws) = submit_defaults s ws"
  "ws_flags (submit_defaults s ws) = ws_flags ws" "ws_num_cpus (submit_defaults s ws) = ws_num_cpus ws"
  "ws_num_gpus (submit_defaults s ws) = ws_num_gpus ws"
  by (auto simp: submit_defaults_def Let_def)

lemma alloc_ok_defaults:
  assumes "alloc_ok e (if b then ws else submit_defaults s ws) t j" and "private_step s t"
    and "length (default_queue s) < 256"
  shows "jd_queue j = ll_hash_search (queue_name_hash s) (if ws_queue ws = [] then default_queue s else ws_queue ws)"
  using assms by (auto simp: alloc_ok_def private_step_def submit_defaults_def Let_def cfield_take split: if_splits)

text \<open>Preparing one more job is a private step and gives the next number.\<close>

lemma job_prepare_private:
  assumes inv: "mbd_inv s" and prep: "job_prepare e ws script hdr s = Inr (r, ws', t)"
  shows "private_step s t" and "r = Inr p \<Longrightarrow> p = job_fresh s \<and> job_fresh t = p + 1 \<and>
    job_id_seq t = job_id_seq s + 1 \<and> jd_uid (job_heap t p) = wh_uid hdr \<and> alloc_ok e ws s (job_heap t p)"
proof -
  note res = job_prepare_result [OF inv prep]
  show "private_step s t"
  proof (cases r)
    case (Inl err)
    from res(2) [OF this] show ?thesis by (auto simp: private_step_def files_step_fields)
  next
    case (Inr p)
    from res(3) [OF this] show ?thesis by (auto simp: private_step_def files_step_fields)
  qed
  assume "r = Inr p"
  from res(3) [OF this] show "p = job_fresh s \<and> job_fresh t = p + 1 \<and> job_id_seq t = job_id_seq s + 1 \<and>
      jd_uid (job_heap t p) = wh_uid hdr \<and> alloc_ok e ws s (job_heap t p)"
    by (auto simp: files_step_fields)
qed

lemma prep_ok_add:
  assumes inv: "mbd_inv s" and ok: "prep_ok s ps" and st: "private_step s t"
    and new: "p = job_fresh s" "job_fresh t = p + 1" "job_id_seq t = job_id_seq s + 1"
    and al: "alloc_ok e ws s (job_heap t p)" "0 \<le> ws_num_cpus ws"
  shows "prep_ok t (ps @ [p])"
proof -
  have old: "x < job_fresh s \<Longrightarrow> job_heap t x = job_heap s x" for x using st by (simp add: private_step_def)
  have psf: "x \<in> set ps \<Longrightarrow> x < job_fresh s" for x using ok by (simp add: prep_ok_def)
  have all: "all_jobs t = all_jobs s" and fnd: "job_find t = job_find s"
    using st by (simp_all add: private_step_def all_jobs_def job_find_def fun_eq_iff)
  have lt: "x \<in> set (all_jobs s) \<Longrightarrow> x < job_fresh s" for x
    using inv all_jobs_set [of x s] by (auto simp: mbd_inv_def lists_ok_def)
  have ids: "map (\<lambda>p. jd_job_id (job_heap t p)) ps = map (\<lambda>p. jd_job_id (job_heap s p)) ps"
    using old psf by simp
  have "jd_job_id (job_heap t p) = job_id_seq s + 1" using al(1) by (simp add: alloc_ok_def)
  moreover have "x \<in> set ps \<Longrightarrow> jd_job_id (job_heap s x) \<le> job_id_seq s" for x
    using ok by (simp add: prep_ok_def)
  ultimately have "distinct (map (\<lambda>p. jd_job_id (job_heap t p)) (ps @ [p]))"
    using ok by (fastforce simp: ids prep_ok_def)
  moreover have "0 \<le> job_id_seq s" using inv by (simp add: mbd_inv_def table_agrees_def)
  moreover have "distinct (ps @ [p])" using ok psf [of p] new(1) by (auto simp: prep_ok_def)
  moreover have "p \<notin> set (all_jobs s)" using lt new(1) by blast
  moreover have "jd_job_id (job_heap s x) \<le> job_id_seq s + 1" if "x \<in> set ps" for x
    using ok that by (fastforce simp: prep_ok_def)
  moreover have "queue_list t = queue_list s" "host_list t = host_list s" using st by (simp_all add: private_step_def)
  moreover note ps = ok [unfolded prep_ok_def, THEN conjunct2, THEN conjunct2, rule_format]
  ultimately show ?thesis
    unfolding prep_ok_def all fnd using al new(2,3) next_job_id_inv(2) [OF inv]
    by (intro conjI ballI) (auto simp: alloc_ok_def new(1) old [OF psf] dest: ps)
qed


definition strip_array :: "job_data \<Rightarrow> job_data" where
  "strip_array j = j\<lparr>jd_array_id := 0, jd_array_index := 0, jd_array_start := 0, jd_array_end := 0,
     jd_array_stride := 0, jd_array_element_cnt := 0\<rparr>"

lemma strip_array_fields:
  "jd_job_id (strip_array j) = jd_job_id j" "jd_list_id (strip_array j) = jd_list_id j"
  "job_ok ql hl (strip_array j) = job_ok ql hl j" "jd_uid (strip_array j) = jd_uid j"
  "jd_submit_time (strip_array j) = jd_submit_time j" "jd_state (strip_array j) = jd_state j"
  "jd_queue (strip_array j) = jd_queue j" "jd_dispatch_time (strip_array j) = jd_dispatch_time j"
  "jd_fork_time (strip_array j) = jd_fork_time j" "jd_res (strip_array j) = jd_res j"
  by (simp_all add: strip_array_def job_ok_def run_hosts_are_def)

lemma strip_array_eq:
  assumes "strip_array j' = strip_array j"
  shows "jd_job_id j' = jd_job_id j" "jd_list_id j' = jd_list_id j" "job_ok ql hl j' = job_ok ql hl j"
    "jd_uid j' = jd_uid j" "jd_submit_time j' = jd_submit_time j" "jd_state j' = jd_state j"
    "jd_queue j' = jd_queue j" "jd_dispatch_time j' = jd_dispatch_time j" "jd_fork_time j' = jd_fork_time j"
    "jd_res j' = jd_res j"
  using assms by (metis strip_array_fields)+

lemma element_ok_same:
  assumes "strip_array j' = strip_array j" and "jd_array_id j' = jd_array_id j \<and> jd_array_index j' = jd_array_index j \<and>
      jd_array_start j' = jd_array_start j \<and> jd_array_end j' = jd_array_end j \<and> jd_array_stride j' = jd_array_stride j"
  shows "element_ok e ws hdr s rng k j' = element_ok e ws hdr s rng k j"
  using assms(2) by (simp add: element_ok_def strip_array_eq [OF assms(1)] split: prod.splits)

lemma prep_ok_array_fields:
  assumes "prep_ok s ps" and "\<And>x. x \<in> set ps \<Longrightarrow> strip_array (hp x) = strip_array (job_heap s x)"
  shows "prep_ok (s\<lparr>job_heap := hp\<rparr>) ps"
proof -
  have a: "all_jobs (s\<lparr>job_heap := hp\<rparr>) = all_jobs s" "job_find (s\<lparr>job_heap := hp\<rparr>) = job_find s"
    by (simp_all add: all_jobs_def job_find_def fun_eq_iff)
  have m: "map (\<lambda>p. jd_job_id (hp p)) ps = map (\<lambda>p. jd_job_id (job_heap s p)) ps"
    using strip_array_eq(1) [OF assms(2)] by simp
  show ?thesis
    using assms(1) by (simp add: prep_ok_def m a strip_array_eq [OF assms(2)])
qed

text \<open>The marking of an array element and the count at its head.\<close>

definition mark_element :: "bool \<Rightarrow> int \<Rightarrow> int \<Rightarrow> int \<times> int \<times> int \<Rightarrow> jptr \<Rightarrow> jptr \<Rightarrow> mbd \<Rightarrow> jptr \<Rightarrow> job_data" where
  "mark_element array aid index rng h p s =
     (case rng of (start, fin, stride) \<Rightarrow>
      if array then job_heap (upd_job h (\<lambda>j. j\<lparr>jd_array_element_cnt := jd_array_element_cnt j + 1\<rparr>)
        (upd_job p (\<lambda>j. j\<lparr>jd_array_id := aid, jd_array_index := index, jd_array_start := start,
           jd_array_end := fin, jd_array_stride := stride\<rparr>) s))
      else job_heap s)"

lemma mark_element_heap:
  "x \<noteq> h \<Longrightarrow> x \<noteq> p \<Longrightarrow> mark_element array aid index rng h p s x = job_heap s x"
  "strip_array (mark_element array aid index rng h p s x) = strip_array (job_heap s x)"
  by (auto simp: mark_element_def strip_array_def split: prod.splits)

lemma mark_element_array:
  "x \<noteq> p \<Longrightarrow> jd_array_id (mark_element a aid i rng h p s x) = jd_array_id (job_heap s x) \<and>
     jd_array_index (mark_element a aid i rng h p s x) = jd_array_index (job_heap s x) \<and>
     jd_array_start (mark_element a aid i rng h p s x) = jd_array_start (job_heap s x) \<and>
     jd_array_end (mark_element a aid i rng h p s x) = jd_array_end (job_heap s x) \<and>
     jd_array_stride (mark_element a aid i rng h p s x) = jd_array_stride (job_heap s x)"
  "jd_array_id (mark_element True aid i (st, fi, sr) h p s p) = aid \<and>
     jd_array_index (mark_element True aid i (st, fi, sr) h p s p) = i \<and>
     jd_array_start (mark_element True aid i (st, fi, sr) h p s p) = st \<and>
     jd_array_end (mark_element True aid i (st, fi, sr) h p s p) = fi \<and>
     jd_array_stride (mark_element True aid i (st, fi, sr) h p s p) = sr"
  "mark_element False aid i rng h p s = job_heap s"
  by (auto simp: mark_element_def split: prod.splits)

lemma register_element_step:
  assumes "register_element e script hdr start fin stride i (r, t) = Inr (Inr (r', t'))"
    and "rg_array_id r = 0 \<or> rg_head r = Some h"
  obtains p ws' u where "job_prepare e (rg_ws r) script hdr t = Inr (Inr p, ws', u)"
    and "r' = \<lparr>rg_prepared = rg_prepared r @ [p],
      rg_array_id = (if rg_array_id r = 0 then jd_job_id (job_heap u p) else rg_array_id r),
      rg_prev_id = jd_job_id (job_heap u p),
      rg_head = (if rg_array_id r = 0 then Some p else rg_head r), rg_ws = ws'\<rparr>"
    and "t' = u\<lparr>job_heap := mark_element (has_flag (ws_flags ws') JOB_FLAG_ARRAY)
      (if rg_array_id r = 0 then jd_job_id (job_heap u p) else rg_array_id r) i (start, fin, stride)
      (if rg_array_id r = 0 then p else h) p u\<rparr>"
proof -
  from assms(1) obtain res ws' u where prep: "job_prepare e (rg_ws r) script hdr t = Inr (res, ws', u)"
    by (auto simp: register_element_def bindE_Inr_iff)
  from assms(1) prep obtain p where p: "res = Inr p"
    by (auto simp: register_element_def bindE_Inr_iff split: sum.splits)
  show ?thesis
    by (rule that [OF prep [unfolded p]])
      (use assms prep p in \<open>auto simp: register_element_def Let_def res_simps mark_element_def upd_job_def
         split: if_splits\<close>)
qed

lemma register_element_fail:
  assumes "register_element e script hdr start fin stride i (r, t) = Inr (Inl (err, u))"
  shows "err \<noteq> 0 \<and> (\<exists>ws'. job_prepare e (rg_ws r) script hdr t = Inr (Inl err, ws', u))"
proof -
  from assms obtain res ws' v where prep: "job_prepare e (rg_ws r) script hdr t = Inr (res, ws', v)"
    by (auto simp: register_element_def bindE_Inr_iff)
  with assms show ?thesis
    by (cases res) (auto simp: register_element_def Let_def res_simps split: if_splits)
qed

lemma reg_inv_step:
  assumes inv: "mbd_inv s" and cpus: "0 \<le> ws_num_cpus ws"
    and ri: "reg_inv e ws hdr s (start, fin, stride) i (r, t)"
    and el: "register_element e script hdr start fin stride i (r, t) = Inr (Inr (r', t'))"
  shows "reg_inv e ws hdr s (start, fin, stride) (i + stride) (r', t')"
proof -
  let ?n = "length (rg_prepared r)" and ?rng = "(start, fin, stride)" and ?ps = "rg_prepared r"
  let ?ar = "has_flag (ws_flags ws) JOB_FLAG_ARRAY" and ?seq = "job_id_seq s"
  have st: "private_step s t" and ok: "prep_ok t ?ps" and i: "i = start + int ?n * stride"
    and seq: "job_id_seq t = ?seq + int ?n" and ws: "rg_ws r = (if ?n = 0 then ws else submit_defaults s ws)"
    and els: "\<forall>k < ?n. job_fresh s \<le> ?ps ! k \<and> element_ok e ws hdr s ?rng k (job_heap t (?ps ! k))"
    and hd: "if ?n = 0 then rg_array_id r = 0 else rg_array_id r = ?seq + 1 \<and>
      rg_prev_id r = ?seq + int ?n \<and> rg_head r = Some (?ps ! 0)"
    using ri by (simp_all add: reg_inv_def Let_def)
  have invt: "mbd_inv t" by (rule private_step_inv [OF inv st])
  have pos: "0 \<le> ?seq" using inv by (simp add: mbd_inv_def table_agrees_def)
  then have z: "rg_array_id r = 0 \<longleftrightarrow> ?n = 0" using hd by (auto split: if_splits)
  obtain p ws' u where prep: "job_prepare e (rg_ws r) script hdr t = Inr (Inr p, ws', u)"
    and r': "r' = \<lparr>rg_prepared = ?ps @ [p],
      rg_array_id = (if rg_array_id r = 0 then jd_job_id (job_heap u p) else rg_array_id r),
      rg_prev_id = jd_job_id (job_heap u p),
      rg_head = (if rg_array_id r = 0 then Some p else rg_head r), rg_ws = ws'\<rparr>"
    and t': "t' = u\<lparr>job_heap := mark_element (has_flag (ws_flags ws') JOB_FLAG_ARRAY)
      (if rg_array_id r = 0 then jd_job_id (job_heap u p) else rg_array_id r) i ?rng
      (if rg_array_id r = 0 then p else ?ps ! 0) p u\<rparr>"
    by (rule register_element_step [OF el, of "?ps ! 0"]) (use hd in \<open>auto split: if_splits\<close>)
  note pr = job_prepare_private [OF invt prep]
  have pu: "private_step t u" by (rule pr(1))
  have p: "p = job_fresh t" "job_fresh u = p + 1" "job_id_seq u = job_id_seq t + 1"
    "jd_uid (job_heap u p) = wh_uid hdr" "alloc_ok e (rg_ws r) t (job_heap u p)"
    using pr(2) [OF refl] by auto
  have id: "jd_job_id (job_heap u p) = ?seq + 1 + int ?n" using p(5) seq by (simp add: alloc_ok_def)
  have dq: "default_queue t = default_queue s" using st by (simp add: private_step_def)
  have ws': "ws' = submit_defaults s ws"
    using job_prepare_result(1) [OF invt prep] ws dq
    by (simp add: submit_defaults_same(1) [OF dq] submit_defaults_same(2) split: if_splits)
  have fl: "ws_flags ws' = ws_flags ws" "ws_flags (rg_ws r) = ws_flags ws" "ws_num_cpus (rg_ws r) = ws_num_cpus ws"
    by (simp_all add: ws' ws submit_defaults_same(3,4))
  define aid where "aid = (if rg_array_id r = 0 then jd_job_id (job_heap u p) else rg_array_id r)"
  define h where "h = (if rg_array_id r = 0 then p else ?ps ! 0)"
  have aid: "aid = ?seq + 1" using hd z id by (auto simp: aid_def split: if_splits)
  let ?hp = "mark_element ?ar aid i ?rng h p u"
  have t': "t' = u\<lparr>job_heap := ?hp\<rparr>" using t' fl(1) by (simp add: aid_def h_def)
  have ge: "job_fresh s \<le> p" using st p(1) by (simp add: private_step_def)
  have hge: "job_fresh s \<le> h" using ge els z by (auto simp: h_def)
  have lt: "?ps ! k < p" if "k < ?n" for k using ok that p(1) by (simp add: prep_ok_def)
  have old: "job_heap u x = job_heap t x" if "x < p" for x using pu that p(1) by (simp add: private_step_def)
  have str: "strip_array (?hp x) = strip_array (job_heap u x)" for x by (rule mark_element_heap)
  have "private_step s u" by (rule private_step_trans [OF st pu])
  moreover have "?hp x = job_heap u x" if "x < job_fresh s" for x
    by (rule mark_element_heap) (use that ge hge in auto)
  ultimately have "private_step s t'" by (simp add: private_step_def t')
  moreover have "prep_ok t' (?ps @ [p])"
    unfolding t' using prep_ok_add [OF invt ok pu p(1,2,3,5)] cpus
    by (intro prep_ok_array_fields) (simp_all add: fl mark_element_heap)
  moreover have "element_ok e ws hdr s ?rng k (?hp (?ps ! k))" if "k < ?n" for k
    using els that mark_element_array(1) [of "?ps ! k" p ?ar aid i ?rng h u] lt [OF that]
      element_ok_same [OF str [of "?ps ! k"]] by (simp add: old)
  moreover have "element_ok e ws hdr s ?rng ?n (?hp p)"
  proof -
    have al: "alloc_ok e (if ?n = 0 then ws else submit_defaults s ws) t (job_heap u p)" using p(5) ws by simp
    have "jd_state (job_heap u p) = (if has_flag (ws_flags ws) JOB_FLAG_HOLD then JOB_HELD else JOB_PENDING)"
      "jd_submit_time (job_heap u p) = e_now e" "jd_array_id (job_heap u p) = 0"
      "jd_list_id (job_heap u p) = JOB_LIST_PEND" "jd_dispatch_time (job_heap u p) = 0"
      "jd_fork_time (job_heap u p) = 0" "jr_num_gpus (jd_res (job_heap u p)) = ws_num_gpus ws"
      using p(5) fl(2) by (simp_all add: alloc_ok_def ws submit_defaults_same(5))
    then show ?thesis
      using alloc_ok_defaults [OF al st] id p(4) aid i mark_element_array(2) [of aid i start fin stride h p u]
      by (cases ?ar) (simp_all add: element_ok_def strip_array_eq [OF mark_element_heap(2)] mark_element_array(3))
  qed
  ultimately have el: "\<forall>k < Suc ?n. job_fresh s \<le> (?ps @ [p]) ! k \<and>
      element_ok e ws hdr s ?rng k (?hp ((?ps @ [p]) ! k))" and pt: "private_step s t'" "prep_ok t' (?ps @ [p])"
    using els ge by (simp_all add: nth_append less_Suc_eq)
  have "Some ((?ps @ [p]) ! 0) = rg_head r'" using hd z by (auto simp: r' nth_append split: if_splits)
  moreover have "rg_array_id r' = ?seq + 1" "rg_prev_id r' = ?seq + int (Suc ?n)" "rg_ws r' = submit_defaults s ws"
    "rg_prepared r' = ?ps @ [p]"
    using aid id by (simp_all add: r' aid_def ws')
  moreover have "job_id_seq t' = ?seq + int (Suc ?n)" using seq p(3) by (simp add: t')
  moreover have "i + stride = start + int (Suc ?n) * stride" using i by (simp add: algebra_simps)
  moreover have "job_heap t' = ?hp" by (simp add: t')
  ultimately show ?thesis using el pt by (simp add: reg_inv_def Let_def)
qed

section \<open>Committing keeps the invariant\<close>

lemma commit_counters_ctr:
  "q_ctr c (commit_counters st q) = q_ctr c q +
     (case c of Q_jobs \<Rightarrow> 1 | Q_pend \<Rightarrow> of_bool (st = JOB_PENDING) | Q_held \<Rightarrow> of_bool (st = JOB_HELD) | _ \<Rightarrow> 0)"
  "mq_host_hash (commit_counters st q) = mq_host_hash q" "mq_user_hash (commit_counters st q) = mq_user_hash q"
  by (cases c; simp add: commit_counters_def Let_def) (simp_all add: commit_counters_def Let_def)

text \<open>What a registration leaves as it was: the hosts, their connections, and the tables of the queues.\<close>

definition reg_frame :: "mbd \<Rightarrow> mbd \<Rightarrow> bool" where
  "reg_frame s t \<longleftrightarrow> host_heap t = host_heap s \<and> host_list t = host_list s \<and>
     host_name_hash t = host_name_hash s \<and> sbd_chan_hash t = sbd_chan_hash s \<and> mgr_uid t = mgr_uid s \<and>
     queue_list t = queue_list s \<and>
     (\<forall>q. mq_host_hash (queue_heap t q) = mq_host_hash (queue_heap s q) \<and>
        mq_user_hash (queue_heap t q) = mq_user_hash (queue_heap s q)) \<and>
     (\<forall>x < job_fresh s. minor (job_heap s x) (job_heap t x))"

lemma private_reg_frame: "private_step s t \<Longrightarrow> reg_frame s t"
  by (simp add: private_step_def reg_frame_def)

lemma reg_frame_trans: "reg_frame s t \<Longrightarrow> reg_frame t u \<Longrightarrow> job_fresh s \<le> job_fresh t \<Longrightarrow> reg_frame s u"
  unfolding reg_frame_def using minor_trans less_le_trans by metis

definition commit_step :: "jptr \<Rightarrow> mbd \<Rightarrow> mbd \<Rightarrow> bool" where
  "commit_step p s t \<longleftrightarrow>
     job_lists t = (job_lists s)(JOB_LIST_PEND := job_lists s JOB_LIST_PEND @ [p]) \<and>
     (\<forall>x. minor (job_heap s x) (job_heap t x)) \<and>
     (\<forall>i. job_find t i = (if i = jd_job_id (job_heap s p) then Some p else job_find s i)) \<and>
     host_heap t = host_heap s \<and> host_list t = host_list s \<and> queue_list t = queue_list s \<and> reg_frame s t \<and>
     pool_heap t = pool_heap s \<and> outq t = outq s \<and> job_fresh t = job_fresh s \<and> job_id_seq t = job_id_seq s"

lemma job_commit_states:
  assumes "mbd_inv s" and "prep_ok s (p # ps)"
  obtains ht s2 q where "ht = snd (ll_hash_insert (job_id_hash s) (fmt_ld (jd_job_id (job_heap s p))) (Some p) False)"
    and "minor_step (s\<lparr>job_id_hash := ht\<rparr>) s2" and "jd_queue (job_heap s p) = Some q"
    and "job_commit ws p s = bindE (event_job_new p ws (job_set_list p JOB_LIST_PEND s2))
      (\<lambda>s1. on_queue p (commit_counters (jd_state (job_heap s1 p))) s1)"
    and "ll_hash_wf ht" and "\<And>k. ll_hash_contains ht k \<Longrightarrow> ll_hash_search ht k \<noteq> None"
    and "\<And>i. ll_hash_search ht (fmt_ld i) = (if i = jd_job_id (job_heap s p) then Some p else job_find s i)"
proof -
  let ?k = "fmt_ld (jd_job_id (job_heap s p))" and ?h = "job_id_hash s"
  have wf: "ll_hash_wf ?h" and cs: "\<And>k. ll_hash_contains ?h k \<Longrightarrow> ll_hash_search ?h k \<noteq> None"
    using assms(1) by (auto simp: mbd_inv_def table_agrees_def)
  have nc: "\<not> ll_hash_contains ?h ?k"
    using assms(2) cs [of ?k] by (auto simp: prep_ok_def job_find_def)
  define ht where "ht = snd (ll_hash_insert ?h ?k (Some p) False)"
  have st: "fst (ll_hash_insert ?h ?k (Some p) False) = LL_HASH_INSERTED"
    using nc by (simp add: ht.insert_new_status [OF wf])
  obtain q where q: "jd_queue (job_heap s p) = Some q" using assms(2) by (auto simp: prep_ok_def job_ok_def)
  have se: "ll_hash_search ht k = (if k = ?k then Some p else ll_hash_search ?h k)" for k
    unfolding ht_def by (rule ht.search_insert_new [OF wf nc])
  have wt: "ll_hash_wf ht" unfolding ht_def by (rule ht.insert_wf [OF wf])
  have "ll_hash_contains ht k \<longleftrightarrow> k = ?k \<or> ll_hash_contains ?h k" for k
    using nc wf by (auto simp: ht_def ht.contains_abs ht.insert_wf ht.insert_abs)
  then have ct: "ll_hash_search ht k \<noteq> None" if "ll_hash_contains ht k" for k
    using cs [of k] that by (auto simp: se)
  show ?thesis
  proof (rule that [OF ht_def _ q _ wt ct])
    show "minor_step (s\<lparr>job_id_hash := ht\<rparr>) (job_deps_hold p (s\<lparr>job_id_hash := ht\<rparr>))"
      by (simp add: job_deps_hold_def job_deps_refcnt_minor)
    show "job_commit ws p s = bindE (event_job_new p ws (job_set_list p JOB_LIST_PEND
        (job_deps_hold p (s\<lparr>job_id_hash := ht\<rparr>))))
        (\<lambda>s1. on_queue p (commit_counters (jd_state (job_heap s1 p))) s1)"
      using st by (simp add: job_commit_def Let_def case_prod_beta res_simps ht_def)
    show "ll_hash_search ht (fmt_ld i) = (if i = jd_job_id (job_heap s p) then Some p else job_find s i)" for i
      by (simp add: se job_find_def)
  qed
qed


lemma job_commit_step:
  assumes inv: "mbd_inv s" and prep: "prep_ok s (p # ps)" and res: "job_commit ws p s = Inr t"
  shows "mbd_inv t" and "commit_step p s t"
proof -
  obtain ht s2 q where minor: "minor_step (s\<lparr>job_id_hash := ht\<rparr>) s2" and q: "jd_queue (job_heap s p) = Some q"
    and jc: "job_commit ws p s = bindE (event_job_new p ws (job_set_list p JOB_LIST_PEND s2))
      (\<lambda>s1. on_queue p (commit_counters (jd_state (job_heap s1 p))) s1)"
    and wf: "ll_hash_wf ht" and ct: "\<And>k. ll_hash_contains ht k \<Longrightarrow> ll_hash_search ht k \<noteq> None"
    and se: "\<And>i. ll_hash_search ht (fmt_ld i) = (if i = jd_job_id (job_heap s p) then Some p else job_find s i)"
    by (rule job_commit_states [OF inv prep, where ws = ws]) blast
  let ?j = "job_heap s p"
  define hp where "hp = job_heap s2"
  have s2: "s2 = s\<lparr>job_id_hash := ht, job_heap := hp\<rparr>" and mh: "\<And>x. minor (job_heap s x) (hp x)"
    using minor by (simp_all add: minor_step_def hp_def)
  have ok: "jd_list_id ?j = JOB_LIST_PEND" "job_ok (queue_list s) (host_list s) ?j" "0 < jd_job_id ?j"
    "jd_job_id ?j \<le> job_id_seq s" "job_find s (jd_job_id ?j) = None" "p \<notin> set (all_jobs s)" "p < job_fresh s"
    using prep by (simp_all add: prep_ok_def)
  have hpp: "(hp p)\<lparr>jd_list_id := JOB_LIST_PEND\<rparr> = hp p"
    using mh [of p] ok(1) by (auto simp: minor_def)
  have qs: "jd_queue (hp p) = Some q" "jd_state (hp p) = jd_state ?j"
    using mh [of p] q by (auto simp: minor_def)
  obtain ev where t: "t = s\<lparr>job_id_hash := ht,
      job_lists := (job_lists s)(JOB_LIST_PEND := job_lists s JOB_LIST_PEND @ [p]), job_heap := hp, manifest := manifest s @ [ev],
      queue_heap := (queue_heap s)(q := commit_counters (jd_state ?j) (queue_heap s q))\<rparr>"
    using res unfolding jc
    by (auto simp: bindE_Inr_iff event_job_new_def Let_def on_queue_def job_queue_def job_set_list_def s2
        upd_job_def upd_queue_def hpp qs dest!: log_append_Inr)
  have ft: "job_find t i = (if i = jd_job_id ?j then Some p else job_find s i)" for i
    by (simp add: job_find_def t se)
  show "commit_step p s t"
    by (simp add: commit_step_def ft) (simp add: t mh reg_frame_def commit_counters_ctr)
  have idp: "jd_job_id (hp p) = jd_job_id ?j" "job_ok ql hl (hp p) = job_ok ql hl ?j"
    "jd_list_id (hp p) = JOB_LIST_PEND" "q_weight c x (hp p) = q_weight c x ?j" for ql hl c x
    using minor_weights [OF mh [of p]] ok(1) by simp_all
  show "mbd_inv t"
  proof (rule inv_add_job [OF inv ok(6,7)])
    show "q_ctr c (queue_heap t x) = q_ctr c (queue_heap s x) + q_weight c x (job_heap t p)" for x c
      using ok(1) q by (cases c) (simp_all add: t idp(3) qs commit_counters_def Let_def q_weight_def)
    show "mq_host_hash (queue_heap t x) = mq_host_hash (queue_heap s x)" for x
      by (simp add: t commit_counters_ctr)
  qed (use ft ok mh minor_same_load wf ct idp in \<open>simp_all add: t\<close>)
qed


lemma minor_element:
  assumes "minor j j'"
  shows "jd_submit_time j' = jd_submit_time j" "element_ok e ws hdr s rng k j' = element_ok e ws hdr s rng k j"
proof -
  from assms obtain n m where "j' = j\<lparr>jd_dep_refcnt := n, jd_array_element_cnt := m\<rparr>" by (auto simp: minor_def)
  then show "jd_submit_time j' = jd_submit_time j" "element_ok e ws hdr s rng k j' = element_ok e ws hdr s rng k j"
    by (simp_all add: element_ok_def)
qed

lemma prep_ok_rest:
  assumes inv: "mbd_inv s" and prep: "prep_ok s (p # ps)" and st: "commit_step p s t"
  shows "prep_ok t ps"
proof -
  have m: "minor (job_heap s x) (job_heap t x)" for x using st by (simp add: commit_step_def)
  have ids: "jd_job_id (job_heap t x) = jd_job_id (job_heap s x)" for x using minor_weights(6) [OF m] .
  have all: "set (all_jobs t) = insert p (set (all_jobs s))"
    using st by (auto simp: commit_step_def all_jobs_def)
  have "p \<notin> set ps" "jd_job_id (job_heap s p) \<notin> (\<lambda>p. jd_job_id (job_heap s p)) ` set ps"
    using prep by (simp_all add: prep_ok_def)
  then have neq: "x \<noteq> p" "jd_job_id (job_heap s x) \<noteq> jd_job_id (job_heap s p)" if "x \<in> set ps" for x
    using imageI [OF that, of "\<lambda>p. jd_job_id (job_heap s p)"] that by metis+
  have "x \<notin> set (all_jobs t) \<and> x < job_fresh t \<and> jd_list_id (job_heap t x) = JOB_LIST_PEND \<and>
      job_ok (queue_list t) (host_list t) (job_heap t x) \<and> 0 < jd_job_id (job_heap t x) \<and>
      jd_job_id (job_heap t x) \<le> job_id_seq t \<and> job_find t (jd_job_id (job_heap t x)) = None"
    if "x \<in> set ps" for x
    using prep that neq [OF that] st minor_weights(4,5) [OF m [of x]]
    by (simp add: prep_ok_def ids all commit_step_def)
  then show ?thesis using prep by (simp add: prep_ok_def ids)
qed

lemma commit_prepared_step:
  assumes "mbd_inv s" and "prep_ok s ps" and "foldE (job_commit ws) ps s = Inr t"
  shows "mbd_inv t \<and> job_lists t = (job_lists s)(JOB_LIST_PEND := job_lists s JOB_LIST_PEND @ ps) \<and>
    (\<forall>x. minor (job_heap s x) (job_heap t x)) \<and>
    (\<forall>p \<in> set ps. job_find t (jd_job_id (job_heap s p)) = Some p) \<and>
    (\<forall>i. i \<notin> (\<lambda>p. jd_job_id (job_heap s p)) ` set ps \<longrightarrow> job_find t i = job_find s i) \<and>
    outq t = outq s \<and> host_heap t = host_heap s \<and> job_id_seq t = job_id_seq s \<and> reg_frame s t"
  using assms
proof (induction ps arbitrary: s)
  case Nil
  then show ?case by (simp add: reg_frame_def)
next
  case (Cons p ps)
  then obtain u where u: "job_commit ws p s = Inr u" and f: "foldE (job_commit ws) ps u = Inr t"
    by (auto simp: bindE_Inr_iff)
  note cs = job_commit_step [OF Cons.prems(1,2) u]
  have m: "minor (job_heap s x) (job_heap u x)" for x using cs(2) by (simp add: commit_step_def)
  have ids: "jd_job_id (job_heap u x) = jd_job_id (job_heap s x)" for x using minor_weights(6) [OF m] .
  note ih = Cons.IH [OF cs(1) prep_ok_rest [OF Cons.prems(1,2) cs(2)] f, unfolded ids]
  have neq: "jd_job_id (job_heap s p) \<notin> (\<lambda>p. jd_job_id (job_heap s p)) ` set ps"
    using Cons.prems(2) by (auto simp: prep_ok_def)
  have fu: "job_find u i = (if i = jd_job_id (job_heap s p) then Some p else job_find s i)" for i
    using cs(2) by (simp add: commit_step_def)
  have "job_find t (jd_job_id (job_heap s p)) = Some p" using ih neq by (simp add: fu)
  moreover have "\<forall>x. minor (job_heap s x) (job_heap t x)" using m ih minor_trans by blast
  moreover have "job_find t i = job_find s i"
    if "i \<notin> (\<lambda>p. jd_job_id (job_heap s p)) ` set (p # ps)" for i
    using ih that by (simp add: fu)
  moreover have "job_lists u = (job_lists s)(JOB_LIST_PEND := job_lists s JOB_LIST_PEND @ [p])"
    "outq u = outq s" "host_heap u = host_heap s" "job_id_seq u = job_id_seq s"
    using cs(2) by (simp_all add: commit_step_def)
  moreover have "reg_frame s t"
    by (rule reg_frame_trans [of s u]) (use ih cs(2) in \<open>simp_all add: commit_step_def\<close>)
  ultimately show ?case using ih by (simp add: fun_eq_iff)
qed

lemma job_commit_total:
  assumes inv: "mbd_inv s" and prep: "prep_ok s (p # ps)" and now: "0 < jd_submit_time (job_heap s p)"
  shows "\<exists>t. job_commit ws p s = Inr t"
proof -
  obtain ht s2 q where minor: "minor_step (s\<lparr>job_id_hash := ht\<rparr>) s2" and q: "jd_queue (job_heap s p) = Some q"
    and jc: "job_commit ws p s = bindE (event_job_new p ws (job_set_list p JOB_LIST_PEND s2))
      (\<lambda>s1. on_queue p (commit_counters (jd_state (job_heap s1 p))) s1)"
    by (rule job_commit_states [OF inv prep, where ws = ws]) blast
  have "minor (job_heap s p) (job_heap s2 p)" using minor by (simp add: minor_step_def)
  then have "jd_submit_time (job_heap s2 p) = jd_submit_time (job_heap s p)" "jd_queue (job_heap s2 p) = Some q"
    using q by (auto simp: minor_def)
  then show ?thesis
    unfolding jc event_job_new_def Let_def using now
    by (subst log_append_ok) (simp_all add: job_set_list_def on_queue_def job_queue_def)
qed

lemma commit_prepared_total:
  assumes "mbd_inv s" and "prep_ok s ps" and "\<forall>p \<in> set ps. 0 < jd_submit_time (job_heap s p)"
  shows "\<exists>t. foldE (job_commit ws) ps s = Inr t"
  using assms
proof (induction ps arbitrary: s)
  case Nil
  then show ?case by simp
next
  case (Cons p ps)
  then obtain u where u: "job_commit ws p s = Inr u" using job_commit_total by fastforce
  note cs = job_commit_step [OF Cons.prems(1,2) u]
  have "jd_submit_time (job_heap u x) = jd_submit_time (job_heap s x)" for x
    using cs(2) by (simp add: commit_step_def minor_element)
  then show ?case
    using u Cons.IH [OF cs(1) prep_ok_rest [OF Cons.prems(1,2) cs(2)]] Cons.prems(3) by simp
qed

section \<open>Outcomes of a registration\<close>

abbreviation reg_start :: "wire_job_submit \<Rightarrow> reg" where
  "reg_start ws \<equiv> \<lparr>rg_prepared = [], rg_array_id = 0, rg_prev_id = 0, rg_head = None, rg_ws = ws\<rparr>"

lemma reg_inv_start: "mbd_inv s \<Longrightarrow> reg_inv e ws hdr s (start, fin, stride) start (reg_start ws, s)"
  by (simp add: reg_inv_def Let_def prep_ok_def)

lemma register_loop_result:
  assumes inv: "mbd_inv s" and cpus: "0 \<le> ws_num_cpus ws"
    and res: "array_loop (register_element e script hdr start fin stride) start fin stride (reg_start ws, s) = Inr r"
  shows "case r of
      Inl (err, u) \<Rightarrow> err \<noteq> 0 \<and> private_step s u
    | Inr ru \<Rightarrow> \<exists>k. fin < k \<and> reg_inv e ws hdr s (start, fin, stride) k ru \<and>
        (rg_prepared (fst ru) \<noteq> [] \<longrightarrow> k - stride \<le> fin)"
proof -
  let ?P = "\<lambda>i ru. reg_inv e ws hdr s (start, fin, stride) i ru \<and> (rg_prepared (fst ru) \<noteq> [] \<longrightarrow> i - stride \<le> fin)"
  have "case r of Inl b \<Rightarrow> fst b \<noteq> 0 \<and> private_step s (snd b) | Inr ru \<Rightarrow> \<exists>k. fin < k \<and> ?P k ru"
  proof (rule array_loop_inv [OF res, where P = ?P])
    show "?P start (reg_start ws, s)" using reg_inv_start [OF inv] by simp
  next
    fix i ru ru' assume i: "i \<le> fin" and P: "?P i ru"
      and el: "register_element e script hdr start fin stride i ru = Inr (Inr ru')"
    then have "reg_inv e ws hdr s (start, fin, stride) (i + stride) (fst ru', snd ru')"
      using reg_inv_step [OF inv cpus, of e hdr start fin stride i "fst ru" "snd ru" script "fst ru'" "snd ru'"] by simp
    then show "?P (i + stride) ru'" using i by simp
  next
    fix i ru b assume P: "?P i ru" and el: "register_element e script hdr start fin stride i ru = Inr (Inl b)"
    have st: "private_step s (snd ru)" using P by (cases ru) (simp add: reg_inv_def Let_def)
    from el obtain ws' where "fst b \<noteq> 0" and pr: "job_prepare e (rg_ws (fst ru)) script hdr (snd ru) = Inr (Inl (fst b), ws', snd b)"
      using register_element_fail [of e script hdr start fin stride i "fst ru" "snd ru" "fst b" "snd b"] by auto
    moreover have "private_step (snd ru) (snd b)"
      by (rule job_prepare_private(1) [OF private_step_inv [OF inv st] pr])
    ultimately show "fst b \<noteq> 0 \<and> private_step s (snd b)" using private_step_trans [OF st] by simp
  qed
  then show ?thesis by (cases r) auto
qed

text \<open>A submission that is refused leaves everything but the sequence number as it was.\<close>

definition refused :: "int \<Rightarrow> mbd \<Rightarrow> mbd \<Rightarrow> bool" where
  "refused chan s t \<longleftrightarrow> job_lists t = job_lists s \<and> job_id_hash t = job_id_hash s \<and>
     queue_heap t = queue_heap s \<and> host_heap t = host_heap s \<and> pool_heap t = pool_heap s \<and>
     manifest t = manifest s \<and> (\<forall>x < job_fresh s. job_heap t x = job_heap s x) \<and> reg_frame s t \<and>
     (outq t = outq s \<or> (\<exists>err. err \<noteq> 0 \<and> outq t = outq s @
        [\<lparr>msg_chan = chan, msg_op = BATCH_JOB_SUBMIT_ACK, msg_status = err, msg_body = Submit_reply (- 1)\<rparr>]))"

text \<open>
  An accepted one appends its jobs to the pending list, one for each index of the
  range, numbered on from the last number used, and answers the first number.
\<close>

definition accepted :: "env \<Rightarrow> wire_job_submit \<Rightarrow> int \<Rightarrow> wire_hdr \<Rightarrow> mbd \<Rightarrow> jptr list \<Rightarrow> mbd \<Rightarrow> bool" where
  "accepted e ws chan hdr s ps t \<longleftrightarrow> (case submit_range ws of (start, fin, stride) \<Rightarrow>
     ps \<noteq> [] \<and> start + (int (length ps) - 1) * stride \<le> fin \<and> fin < start + int (length ps) * stride \<and>
     outq t = outq s @ [\<lparr>msg_chan = chan, msg_op = BATCH_JOB_SUBMIT_ACK, msg_status = MBD_OK,
       msg_body = Submit_reply (job_id_seq s + 1)\<rparr>] \<and>
     job_lists t = (job_lists s)(JOB_LIST_PEND := job_lists s JOB_LIST_PEND @ ps) \<and>
     seq_file t = Some (job_id_seq s + int (length ps)) \<and> reg_frame s t \<and>
     (\<forall>k < length ps. job_find t (job_id_seq s + 1 + int k) = Some (ps ! k) \<and>
        element_ok e ws hdr s (start, fin, stride) k (job_heap t (ps ! k))) \<and>
     (\<forall>i. i \<le> job_id_seq s \<longrightarrow> job_find t i = job_find s i))"

lemma private_refused: "private_step s u \<Longrightarrow> refused chan s u"
  by (simp add: refused_def private_step_def reg_frame_def)

lemma refused_error:
  assumes "private_step s u" and "err \<noteq> 0"
  shows "refused chan s (job_register_error e chan err u)"
  using assms by (simp add: refused_def private_step_def reg_frame_def job_register_error_def enqueue_payload_def)

lemma commit_accepts:
  assumes inv: "mbd_inv s" and ri: "reg_inv e ws hdr s rng k (rg, u)" and np: "rg_prepared rg \<noteq> []"
    and rng: "submit_range ws = rng" "rng = (start, fin, stride)" and k: "fin < k" "k - stride \<le> fin"
    and v: "v = u\<lparr>outq := outq u @ [\<lparr>msg_chan = chan, msg_op = BATCH_JOB_SUBMIT_ACK, msg_status = MBD_OK,
       msg_body = Submit_reply (job_id_seq s + 1)\<rparr>]\<rparr>"
    and w: "foldE (job_commit ws') (rg_prepared rg) v = Inr w"
  shows "mbd_inv w \<and> accepted e ws chan hdr s (rg_prepared rg) (job_id_seq_write w)"
proof -
  let ?ps = "rg_prepared rg"
  note ri' = ri [unfolded reg_inv_def Let_def rng(2), simplified]
  have st: "private_step s u" and ok: "prep_ok u ?ps" using ri' by auto
  have el: "element_ok e ws hdr s rng i (job_heap u (?ps ! i))" if "i < length ?ps" for i
    using ri' that rng(2) by simp
  have ks: "k = start + int (length ?ps) * stride" "job_id_seq u = job_id_seq s + int (length ?ps)"
    using ri' by auto
  have invv: "mbd_inv v" using private_step_inv [OF inv st] by (simp add: v)
  have pv: "prep_ok v ?ps" using ok by (simp add: v prep_ok_def all_jobs_def job_find_def)
  note cp = commit_prepared_step [OF invv pv w]
  have hv: "job_heap v = job_heap u" by (simp add: v)
  have id: "jd_job_id (job_heap u (?ps ! i)) = job_id_seq s + 1 + int i" if "i < length ?ps" for i
    using el [OF that] rng(2) by (simp add: element_ok_def)
  have old: "i \<notin> (\<lambda>p. jd_job_id (job_heap v p)) ` set ?ps" if "i \<le> job_id_seq s" for i
    using id that by (auto simp: in_set_conv_nth hv)
  have fnd: "job_find w (job_id_seq s + 1 + int i) = Some (?ps ! i)" if "i < length ?ps" for i
    using cp id [OF that] nth_mem [OF that] by (auto simp: hv)
  have fo: "job_find w i = job_find s i" if "i \<le> job_id_seq s" for i
    using cp old [OF that] st by (simp add: job_find_def v private_step_def)
  have elw: "element_ok e ws hdr s rng i (job_heap w (?ps ! i))" if "i < length ?ps" for i
  proof -
    have "minor (job_heap u (?ps ! i)) (job_heap w (?ps ! i))" using cp by (simp add: hv)
    then show ?thesis using el [OF that] by (simp add: minor_element)
  qed
  have "job_lists w = (job_lists s)(JOB_LIST_PEND := job_lists s JOB_LIST_PEND @ ?ps)" "job_id_seq w = job_id_seq u"
    "outq w = outq s @ [\<lparr>msg_chan = chan, msg_op = BATCH_JOB_SUBMIT_ACK, msg_status = MBD_OK,
       msg_body = Submit_reply (job_id_seq s + 1)\<rparr>]"
    using cp st by (simp_all add: v private_step_def)
  moreover have "start + (int (length ?ps) - 1) * stride \<le> fin" using k(2) ks(1) by (simp add: algebra_simps)
  moreover have "reg_frame s w"
    by (rule reg_frame_trans [of s v])
      (use cp st in \<open>simp_all add: reg_frame_def v private_step_def\<close>)
  ultimately show ?thesis
    using cp np k(1) ks fnd fo elw
    by (simp add: accepted_def rng job_id_seq_write_def) (simp add: job_find_def reg_frame_def)
qed

lemma job_register_outcome:
  assumes inv: "mbd_inv s" and cpus: "0 \<le> ws_num_cpus ws"
    and res: "job_register e (Some ws) (Some script) chan hdr s = Inr t"
  shows "mbd_inv t \<and> (refused chan s t \<or> (\<exists>ps. accepted e ws chan hdr s ps t))"
proof -
  obtain start fin stride where rng: "submit_range ws = (start, fin, stride)" by (cases "submit_range ws")
  let ?loop = "array_loop (register_element e script hdr start fin stride) start fin stride (reg_start ws, s)"
  show ?thesis
  proof (cases "has_flag (ws_flags ws) JOB_FLAG_ARRAY \<and> (ws_array_stride ws \<le> 0 \<or> ws_array_end ws < ws_array_start ws)")
    case True
    then have "t = job_register_error e chan EINVAL s" using res by (simp add: job_register_def)
    then show ?thesis using inv refused_error [OF private_step_refl] by (simp add: job_register_error_def EINVAL_def)
  next
    case False
    have ne: "start \<le> fin" using False rng by (auto simp: submit_range_def split: if_splits)
    from False res obtain r where r: "?loop = Inr r"
      by (auto simp: job_register_def rng bindE_Inr_iff)
    note lr = register_loop_result [OF inv cpus r]
    show ?thesis
    proof (cases r)
      case (Inl b)
      then have t: "t = job_register_error e chan (fst b) (snd b)"
        using False res r by (auto simp: job_register_def rng split: prod.splits)
      have st: "private_step s (snd b)" "fst b \<noteq> 0" using lr Inl by (auto split: prod.splits)
      show ?thesis
        using private_step_inv [OF inv st(1)] refused_error [OF st] by (simp add: t job_register_error_def)
    next
      case (Inr ru)
      obtain rg u where ru: "ru = (rg, u)" by (cases ru)
      let ?ps = "rg_prepared rg"
      obtain k where k: "fin < k" "?ps \<noteq> [] \<longrightarrow> k - stride \<le> fin"
        and ri: "reg_inv e ws hdr s (start, fin, stride) k (rg, u)" using lr Inr ru by auto
      note ri' = ri [unfolded reg_inv_def Let_def, simplified]
      have st: "private_step s u" and ok: "prep_ok u ?ps" using ri' by auto
      have np: "?ps \<noteq> []" using ri' k(1) ne by auto
      have aid: "rg_array_id rg = job_id_seq s + 1" using ri' np by simp
      have invu: "mbd_inv u" by (rule private_step_inv [OF inv st])
      show ?thesis
      proof (cases "e_send_ok e chan BATCH_JOB_SUBMIT_ACK")
        case False
        then have "t = u" using \<open>\<not> (_ \<and> _)\<close> res r Inr ru
          by (auto simp: job_register_def rng job_register_reply_def enqueue_payload_def)
        then show ?thesis using invu private_refused [OF st] by simp
      next
        case True
        let ?m = "\<lparr>msg_chan = chan, msg_op = BATCH_JOB_SUBMIT_ACK, msg_status = MBD_OK,
          msg_body = Submit_reply (job_id_seq s + 1)\<rparr>"
        let ?v = "u\<lparr>outq := outq u @ [?m]\<rparr>"
        obtain w where w: "foldE (job_commit (rg_ws rg)) ?ps ?v = Inr w" and t: "t = job_id_seq_write w"
          using True \<open>\<not> (_ \<and> _)\<close> res r Inr ru
          by (auto simp: job_register_def rng job_register_reply_def enqueue_payload_def aid bindE_Inr_iff
              job_commit_prepared_def)
        have "mbd_inv w \<and> accepted e ws chan hdr s ?ps t"
          using commit_accepts [OF inv ri np rng refl k(1) _ refl w] k(2) np by (simp add: t)
        then show ?thesis by (auto simp: t job_id_seq_write_def)
      qed
    qed
  qed
qed

section \<open>A registration always ends\<close>

lemma array_loop_total:
  assumes "P i s" and "0 < stride" and "in_s32 (fin + stride)" and "- 2147483648 \<le> i"
    and "\<And>i s. i \<le> fin \<Longrightarrow> P i s \<Longrightarrow> \<exists>r. f i s = Inr r \<and> (\<forall>s'. r = Inr s' \<longrightarrow> P (i + stride) s')"
  shows "\<exists>r. array_loop f i fin stride s = Inr r"
  using assms
proof (induction f i fin stride s rule: array_loop.induct)
  case (1 f i fin stride s)
  show ?case
  proof (cases "i \<le> fin")
    case False
    then show ?thesis by (subst array_loop.simps) simp
  next
    case True
    obtain r where r: "f i s = Inr r" and P: "\<And>s'. r = Inr s' \<Longrightarrow> P (i + stride) s'"
      using "1.prems"(5) [OF True "1.prems"(1)] by blast
    show ?thesis
    proof (cases r)
      case (Inl b)
      then show ?thesis using True r by (subst array_loop.simps) simp
    next
      case (Inr s')
      have n: "stride \<noteq> 0" and i: "in_s32 (i + stride)" using "1.prems"(2-4) True by (auto simp: in_s32_def)
      have "\<exists>r. array_loop f (i + stride) fin stride s' = Inr r"
        by (rule "1.IH" [OF True n _ P [OF Inr] "1.prems"(2,3) _ "1.prems"(5)])
          (use i in \<open>auto simp: in_s32_def\<close>)
      then show ?thesis using True r Inr n i by (subst array_loop.simps) simp
    qed
  qed
qed

text \<open>The clock shows a positive time, and a failing system call sets \<open>errno\<close>.\<close>

definition env_ok :: "env \<Rightarrow> bool" where
  "env_ok e \<longleftrightarrow> 0 < e_now e \<and> (\<forall>i. e_script_err e i \<noteq> Some 0) \<and> (\<forall>i. e_sidecar_err e i \<noteq> Some 0)"

lemma prepare_files_err:
  assumes "env_ok e" and "prepare_files e ws script j s = (Inl err, t)"
  shows "err \<noteq> 0"
proof -
  have tok: "parse_token e s' k = Inl x \<Longrightarrow> x = EINVAL" for s' k x
    by (auto simp: parse_token_def Let_def split: if_splits option.splits)
  have "foldE (\<lambda>tok ts. bindE (parse_token e s' tok) (\<lambda>t. Inr (ts @ [t]))) ks ts = Inl x \<Longrightarrow> x = EINVAL" for s' ks ts x
    by (induction ks arbitrary: ts) (auto simp: bindE_Inl_iff dest: tok)
  then have "job_parse_tokens e s' k \<noteq> Inl 0" for s' k by (force simp: job_parse_tokens_def EINVAL_def)
  moreover have "job_parse_deps s' j' d \<noteq> Inl 0" for s' j' d
    by (simp add: job_parse_deps_def EINVAL_def split: option.splits)
  ultimately show ?thesis
    using assms unfolding prepare_files_def write_script_def write_sidecar_def
    by (auto simp: bindE_Inl_iff env_ok_def split: option.splits)
qed

lemma job_prepare_total:
  assumes "mbd_inv s" and "env_ok e"
  obtains r ws' t where "job_prepare e ws script hdr s = Inr (r, ws', t)" and "\<And>err. r = Inl err \<Longrightarrow> err \<noteq> 0"
proof -
  obtain r0 where a: "job_alloc e ws s = Inr (r0, submit_defaults s ws, s\<lparr>job_id_seq := job_id_seq s + 1\<rparr>)"
    and er: "\<And>err. r0 = Inl err \<Longrightarrow> err = EINVAL \<or> err = EPERM"
    by (rule job_alloc_result [OF assms(1), of e ws]) blast
  show ?thesis
  proof (cases r0)
    case (Inl err)
    show ?thesis by (rule that) (use a er Inl in \<open>auto simp: job_prepare_def EINVAL_def EPERM_def\<close>)
  next
    case (Inr j)
    obtain r u where f: "prepare_files e (submit_defaults s ws) script (j\<lparr>jd_uid := wh_uid hdr, jd_gid := wh_gid hdr\<rparr>)
        (s\<lparr>job_id_seq := job_id_seq s + 1\<rparr>) = (r, u)" by fastforce
    show ?thesis
      by (cases r; rule that) (use a f Inr in \<open>auto simp: job_prepare_def dest: prepare_files_err [OF assms(2)]\<close>)
  qed
qed

lemma register_element_total:
  assumes inv: "mbd_inv s" and env: "env_ok e"
    and ri: "reg_inv e ws hdr s (start, fin, stride) i (r, t)"
  shows "\<exists>x. register_element e script hdr start fin stride i (r, t) = Inr x"
proof -
  have st: "private_step s t" using ri by (simp add: reg_inv_def Let_def)
  have invt: "mbd_inv t" by (rule private_step_inv [OF inv st])
  obtain res ws' u where prep: "job_prepare e (rg_ws r) script hdr t = Inr (res, ws', u)"
    and er: "\<And>err. res = Inl err \<Longrightarrow> err \<noteq> 0"
    by (rule job_prepare_total [OF invt env]) blast
  have "rg_array_id r = 0 \<or> rg_prev_id r = job_id_seq t"
    using ri by (auto simp: reg_inv_def Let_def split: if_splits)
  moreover have "jd_job_id (job_heap u p) = job_id_seq t + 1" if "res = Inr p" for p
    using job_prepare_private(2) [OF invt prep that] by (auto simp: alloc_ok_def)
  ultimately show ?thesis
    using prep er by (cases res) (auto simp: register_element_def Let_def res_simps split: if_splits)
qed

lemma job_register_total:
  assumes inv: "mbd_inv s" and cpus: "0 \<le> ws_num_cpus ws" and env: "env_ok e"
    and rng: "in_s32 (ws_array_start ws)" "in_s32 (ws_array_end ws + ws_array_stride ws)"
  shows "\<exists>t. job_register e (Some ws) (Some script) chan hdr s = Inr t"
proof (cases "has_flag (ws_flags ws) JOB_FLAG_ARRAY \<and> (ws_array_stride ws \<le> 0 \<or> ws_array_end ws < ws_array_start ws)")
  case True
  then show ?thesis by (simp add: job_register_def)
next
  case False
  obtain start fin stride where r: "submit_range ws = (start, fin, stride)" by (cases "submit_range ws")
  have r': "0 < stride" "in_s32 (fin + stride)" "- 2147483648 \<le> start"
    using False rng r by (auto simp: submit_range_def in_s32_def split: if_splits)
  let ?f = "register_element e script hdr start fin stride"
  have el: "\<exists>x. ?f i ru = Inr x \<and> (\<forall>ru'. x = Inr ru' \<longrightarrow> reg_inv e ws hdr s (start, fin, stride) (i + stride) ru')"
    if "reg_inv e ws hdr s (start, fin, stride) i ru" for i ru
    using register_element_total [OF inv env, of ws hdr start fin stride i "fst ru" "snd ru" script] that
      reg_inv_step [OF inv cpus, of e hdr start fin stride i "fst ru" "snd ru" script] by auto
  obtain res where res: "array_loop ?f start fin stride (reg_start ws, s) = Inr res"
    using array_loop_total [where P = "reg_inv e ws hdr s (start, fin, stride)" and f = ?f,
        OF reg_inv_start [OF inv] r'] el by blast
  note lr = register_loop_result [OF inv cpus res]
  have "\<exists>t. foldE (job_commit ws') (rg_prepared rg) (u\<lparr>outq := x\<rparr>) = Inr t" if rr: "res = Inr (rg, u)" for rg u x ws'
  proof -
    obtain k where ri: "reg_inv e ws hdr s (start, fin, stride) k (rg, u)" using lr rr by auto
    then have st: "private_step s u" and ok: "prep_ok u (rg_prepared rg)"
      and els: "\<forall>k < length (rg_prepared rg). element_ok e ws hdr s (start, fin, stride) k (job_heap u (rg_prepared rg ! k))"
      by (simp_all add: reg_inv_def Let_def)
    have "\<forall>p \<in> set (rg_prepared rg). 0 < jd_submit_time (job_heap u p)"
      using els env by (auto simp: in_set_conv_nth element_ok_def env_ok_def)
    moreover have "prep_ok (u\<lparr>outq := x\<rparr>) (rg_prepared rg)"
      using ok by (simp add: prep_ok_def all_jobs_def job_find_def)
    ultimately show ?thesis
      using private_step_inv [OF inv st] by (intro commit_prepared_total) simp_all
  qed
  then show ?thesis
    using False r res
    by (cases res) (auto simp: job_register_def job_register_reply_def enqueue_payload_def job_commit_prepared_def
        bindE_Inr_iff split: prod.splits)
qed

section \<open>Lookup by array index\<close>

abbreviation find_body :: "int \<Rightarrow> (int \<Rightarrow> 'b) \<Rightarrow> int \<Rightarrow> int \<Rightarrow> crash + ('b + int)" where
  "find_body a g \<equiv> \<lambda>index job_id. if index = a then Inr (Inl (g job_id)) else Inr (Inr (job_id + 1))"

lemma find_loop_hit:
  assumes "0 < stride" and "in_s32 fin" and "- 2147483648 \<le> i" and "i + int n * stride \<le> fin"
  shows "array_loop (find_body (i + int n * stride) g) i fin stride x = Inr (Inl (g (x + int n)))"
  using assms(3,4)
proof (induction n arbitrary: i x)
  case 0
  then show ?case by (subst array_loop.simps) simp
next
  case (Suc n)
  have le: "0 \<le> int n * stride" using assms(1) by simp
  define a where "a = i + stride + int n * stride"
  have e: "i + int (Suc n) * stride = a" by (simp add: algebra_simps a_def)
  have a: "a \<le> fin" using Suc.prems(2) e by simp
  have "array_loop (find_body a g) (i + stride) fin stride (x + 1) = Inr (Inl (g (x + 1 + int n)))"
    unfolding a_def using Suc.IH [of "i + stride" "x + 1"] Suc.prems(1) assms(1) a by (simp add: a_def)
  moreover have "i \<noteq> a" "i \<le> fin" "in_s32 (i + stride)"
    using Suc.prems(1) assms(1,2) le a unfolding in_s32_def a_def by linarith+
  ultimately show ?case using assms(1) unfolding e by (subst array_loop.simps) (simp add: add.assoc)
qed

lemma find_loop_miss:
  assumes "0 < stride" and "in_s32 (fin + stride)" and "- 2147483648 \<le> i"
    and "\<And>n. a \<noteq> i + int n * stride \<or> fin < a"
  shows "\<exists>y. array_loop (find_body a g) i fin stride x = Inr (Inr y)"
proof -
  have "\<exists>r. array_loop (find_body a g) i fin stride x = Inr r"
    by (rule array_loop_total [where P = "\<lambda>_ _. True"]) (use assms in auto)
  then obtain r where r: "array_loop (find_body a g) i fin stride x = Inr r" by blast
  have "case r of Inl b \<Rightarrow> False | Inr y \<Rightarrow> \<exists>k > fin. \<exists>n. k = i + int n * stride"
  proof (rule array_loop_inv [OF r, where P = "\<lambda>k y. \<exists>n. k = i + int n * stride"])
    show "\<exists>n. i = i + int n * stride" by (rule exI [of _ 0]) simp
  next
    fix k y y' assume "\<exists>n. k = i + int n * stride"
    then obtain n where "k = i + int n * stride" by blast
    then show "\<exists>n. k + stride = i + int n * stride" by (intro exI [of _ "Suc n"]) (simp add: algebra_simps)
  next
    fix k y b assume "k \<le> fin" "\<exists>n. k = i + int n * stride" "find_body a g k y = Inr (Inl b)"
    then show False using assms(4) by (auto split: if_splits)
  qed
  then show ?thesis using r by (cases r) auto
qed

lemma accepted_lookup:
  assumes acc: "accepted e ws chan hdr s ps t" and arr: "has_flag (ws_flags ws) JOB_FLAG_ARRAY"
    and str: "0 < ws_array_stride ws" and pos: "0 \<le> job_id_seq s"
    and rng: "in_s32 (ws_array_start ws)" "in_s32 (ws_array_end ws + ws_array_stride ws)"
  shows "k < length ps \<Longrightarrow>
      job_find_array t (job_id_seq s + 1) (ws_array_start ws + int k * ws_array_stride ws) = Inr (Some (ps ! k))"
    and "\<forall>k < length ps. i \<noteq> ws_array_start ws + int k * ws_array_stride ws \<Longrightarrow>
      job_find_array t (job_id_seq s + 1) i = Inr None"
proof -
  let ?a = "ws_array_start ws" and ?b = "ws_array_end ws" and ?d = "ws_array_stride ws" and ?n = "length ps"
  have sr: "submit_range ws = (?a, ?b, ?d)" using arr by (simp add: submit_range_def)
  have ac: "ps \<noteq> []" "?a + (int ?n - 1) * ?d \<le> ?b" "?b < ?a + int ?n * ?d"
    and fnd: "\<And>k. k < ?n \<Longrightarrow> job_find t (job_id_seq s + 1 + int k) = Some (ps ! k)"
    and el: "\<And>k. k < ?n \<Longrightarrow> element_ok e ws hdr s (?a, ?b, ?d) k (job_heap t (ps ! k))"
    using acc by (simp_all add: accepted_def sr)
  let ?j = "job_heap t (ps ! 0)"
  have h: "job_find t (job_id_seq s + 1) = Some (ps ! 0)" using fnd [of 0] ac(1) by simp
  have j: "jd_job_id ?j = job_id_seq s + 1" "jd_array_id ?j = job_id_seq s + 1" "jd_array_start ?j = ?a"
    "jd_array_end ?j = ?b" "jd_array_stride ?j = ?d"
    using el [of 0] ac(1) arr by (simp_all add: element_ok_def)
  have le: "?a + int k * ?d \<le> ?b" if "k < ?n" for k
  proof -
    have "int k * ?d \<le> (int ?n - 1) * ?d" using that str by (intro mult_right_mono) auto
    then show ?thesis using ac(2) by linarith
  qed
  have b: "in_s32 ?b" using rng str le [of 0] ac(1) by (auto simp: in_s32_def)
  show "job_find_array t (job_id_seq s + 1) (?a + int k * ?d) = Inr (Some (ps ! k))" if "k < ?n"
    using find_loop_hit [OF str b _ le [OF that], of "job_find t"] rng(1) fnd [OF that] str
    by (simp add: job_find_array_def h j in_s32_def)
  assume miss: "\<forall>k < ?n. i \<noteq> ?a + int k * ?d"
  have "i \<noteq> ?a + int k * ?d \<or> ?b < i" for k
  proof (cases "k < ?n")
    case False
    then have "int ?n * ?d \<le> int k * ?d" using str by (intro mult_right_mono) auto
    then show ?thesis using ac(3) by linarith
  qed (use miss in blast)
  then obtain y where "array_loop (find_body i (job_find t)) ?a ?b ?d (job_id_seq s + 1) = Inr (Inr y)"
    using find_loop_miss [OF str rng(2)] rng(1) by (fastforce simp: in_s32_def)
  then show "job_find_array t (job_id_seq s + 1) i = Inr None"
    by (simp add: job_find_array_def h j)
qed

section \<open>When a submission is accepted\<close>

text \<open>
  The queue exists and admits the user, the token request and the dependency
  condition parse against the present state, and the files can be written.
\<close>

definition submit_ok :: "env \<Rightarrow> wire_job_submit \<Rightarrow> mbd \<Rightarrow> bool" where
  "submit_ok e ws s \<longleftrightarrow>
     (\<exists>q. ll_hash_search (queue_name_hash s) (if ws_queue ws = [] then default_queue s else ws_queue ws) = Some q \<and>
        queue_user_allowed (queue_heap s q) (cfield 64 (ws_username ws))) \<and>
     (\<forall>i. e_script_err e i = None \<and> e_sidecar_err e i = None) \<and>
     (\<exists>ts. job_parse_tokens e s (ws_tokenpool ws) = Inr ts) \<and>
     (ws_depend_cond ws = [] \<or> fst (dep_parse (ws_depend_cond ws) (Some (dep_resolve_job s))) = DEP_PARSE_OK)"

lemma parse_tokens_same:
  "token_pool_name_hash t = token_pool_name_hash s \<Longrightarrow> job_parse_tokens e t k = job_parse_tokens e s k"
proof -
  assume a: "token_pool_name_hash t = token_pool_name_hash s"
  have "parse_token e t = parse_token e s" by (rule ext) (simp add: parse_token_def Let_def a cong: if_cong)
  then show ?thesis by (simp add: job_parse_tokens_def)
qed

lemma resolve_same: "job_id_hash t = job_id_hash s \<Longrightarrow> dep_resolve_job t = dep_resolve_job s"
  by (simp add: dep_resolve_job_def job_find_def fun_eq_iff)

lemma submit_ok_private: "private_step s t \<Longrightarrow> submit_ok e ws t = submit_ok e ws s"
  by (simp add: submit_ok_def private_step_def parse_tokens_same [of t s] resolve_same [of t s])

lemma submit_ok_defaults:
  "length (default_queue s) < 256 \<Longrightarrow> submit_ok e (submit_defaults s ws) s = submit_ok e ws s"
  by (simp add: submit_ok_def submit_defaults_def Let_def cfield_take)

lemma job_prepare_accept:
  assumes "mbd_inv s" and "submit_ok e ws s"
  shows "\<exists>p t. job_prepare e ws script hdr s = Inr (Inr p, submit_defaults s ws, t)"
proof -
  obtain j where j: "job_alloc e ws s = Inr (Inr j, submit_defaults s ws, s\<lparr>job_id_seq := job_id_seq s + 1\<rparr>)"
    using assms(2) by (auto simp: job_alloc_def next_job_id_inv [OF assms(1)] Let_def submit_ok_def)
  let ?j = "j\<lparr>jd_uid := wh_uid hdr, jd_gid := wh_gid hdr\<rparr>" and ?w = "submit_defaults s ws"
  let ?s2 = "s\<lparr>job_id_seq := job_id_seq s + 1, script_files := (script_files s)(jd_job_id j \<mapsto> script),
      submit_files := (submit_files s)(jd_job_id j \<mapsto> sidecar_text ?j ?w)\<rparr>"
  have w: "ws_tokenpool ?w = ws_tokenpool ws" "ws_depend_cond ?w = ws_depend_cond ws"
    by (simp_all add: submit_defaults_def Let_def)
  obtain ts where ts: "job_parse_tokens e ?s2 (ws_tokenpool ws) = Inr ts"
    using assms(2) parse_tokens_same [of ?s2 s] by (auto simp: submit_ok_def)
  have "\<exists>j''. job_parse_deps ?s2 j' (ws_depend_cond ws) = Inr j''" for j'
    using assms(2) resolve_same [of ?s2 s]
    by (cases "dep_parse (ws_depend_cond ws) (Some (dep_resolve_job s))")
      (auto simp: submit_ok_def job_parse_deps_def job_deps_set_def)
  then obtain j'' where d: "job_parse_deps ?s2 (?j\<lparr>jd_res := (jd_res ?j)\<lparr>jr_tokens := ts,
      jr_tokenpool_str := cfield 256 (ws_tokenpool ws)\<rparr>\<rparr>) (ws_depend_cond ws) = Inr j''" by blast
  have "prepare_files e ?w script ?j (s\<lparr>job_id_seq := job_id_seq s + 1\<rparr>) = (Inr j'', ?s2)"
    using assms(2) ts d
    by (simp add: prepare_files_def write_script_def write_sidecar_def submit_ok_def w)
  then show ?thesis using j by (simp add: job_prepare_def)
qed

lemma job_register_accepts:
  assumes inv: "mbd_inv s" and cpus: "0 \<le> ws_num_cpus ws" and ok: "submit_ok e ws s"
    and dq: "length (default_queue s) < 256" and send: "e_send_ok e chan BATCH_JOB_SUBMIT_ACK"
    and rng: "has_flag (ws_flags ws) JOB_FLAG_ARRAY \<Longrightarrow> 0 < ws_array_stride ws \<and> ws_array_start ws \<le> ws_array_end ws"
    and res: "job_register e (Some ws) (Some script) chan hdr s = Inr t"
  shows "\<exists>ps. accepted e ws chan hdr s ps t"
proof -
  obtain start fin stride where sr: "submit_range ws = (start, fin, stride)" by (cases "submit_range ws")
  have nz: "\<not> (has_flag (ws_flags ws) JOB_FLAG_ARRAY \<and>
      (ws_array_stride ws \<le> 0 \<or> ws_array_end ws < ws_array_start ws))" using rng by auto
  have ne: "start \<le> fin" using nz sr by (auto simp: submit_range_def split: if_splits)
  let ?f = "register_element e script hdr start fin stride"
  from nz res obtain r where r: "array_loop ?f start fin stride (reg_start ws, s) = Inr r"
    by (auto simp: job_register_def sr bindE_Inr_iff)
  have "case r of Inl b \<Rightarrow> False | Inr ru \<Rightarrow> \<exists>k > fin. reg_inv e ws hdr s (start, fin, stride) k ru"
  proof (rule array_loop_inv [OF r, where P = "reg_inv e ws hdr s (start, fin, stride)"])
    show "reg_inv e ws hdr s (start, fin, stride) start (reg_start ws, s)" by (rule reg_inv_start [OF inv])
  next
    fix i ru ru' assume "reg_inv e ws hdr s (start, fin, stride) i ru" "?f i ru = Inr (Inr ru')"
    then show "reg_inv e ws hdr s (start, fin, stride) (i + stride) ru'"
      using reg_inv_step [OF inv cpus, of e hdr start fin stride i "fst ru" "snd ru" script "fst ru'" "snd ru'"] by simp
  next
    fix i ru b assume ri: "reg_inv e ws hdr s (start, fin, stride) i ru" and f: "?f i ru = Inr (Inl b)"
    have st: "private_step s (snd ru)" and w: "rg_ws (fst ru) = ws \<or> rg_ws (fst ru) = submit_defaults s ws"
      using ri by (auto simp: reg_inv_def Let_def split: prod.splits)
    have "submit_ok e (rg_ws (fst ru)) (snd ru)"
      using w ok submit_ok_defaults [OF dq] by (auto simp: submit_ok_private [OF st])
    from job_prepare_accept [OF private_step_inv [OF inv st] this, of script hdr]
    show False
      using register_element_fail [of e script hdr start fin stride i "fst ru" "snd ru" "fst b" "snd b"] f by auto
  qed
  then obtain rg u k where ru: "r = Inr (rg, u)" and k: "fin < k" "reg_inv e ws hdr s (start, fin, stride) k (rg, u)"
    by (cases r) auto
  then have "rg_prepared rg \<noteq> []" using ne by (auto simp: reg_inv_def Let_def)
  then have aid: "rg_array_id rg = job_id_seq s + 1" "outq u = outq s"
    using k by (auto simp: reg_inv_def Let_def private_step_def)
  show ?thesis
  proof (cases "refused chan s t")
    case False
    then show ?thesis using job_register_outcome [OF inv cpus res] by blast
  next
    case True
    from res nz r ru send obtain w where
      w: "job_commit_prepared (rg_prepared rg) (rg_ws rg) (snd (job_register_reply e chan (job_id_seq s + 1) u)) = Inr w"
      and t: "t = job_id_seq_write w"
      by (auto simp: job_register_def sr bindE_Inr_iff job_register_reply_def enqueue_payload_def aid)
    have ri: "prep_ok u (rg_prepared rg)" "private_step s u" using k(2) by (auto simp: reg_inv_def Let_def)
    let ?v = "u\<lparr>outq := outq u @ [\<lparr>msg_chan = chan, msg_op = BATCH_JOB_SUBMIT_ACK, msg_status = MBD_OK,
       msg_body = Submit_reply (job_id_seq s + 1)\<rparr>]\<rparr>"
    have "prep_ok ?v (rg_prepared rg)" using ri(1) by (simp add: prep_ok_def all_jobs_def job_find_def)
    moreover have "mbd_inv ?v" using private_step_inv [OF inv ri(2)] by simp
    moreover have "foldE (job_commit (rg_ws rg)) (rg_prepared rg) ?v = Inr w"
      using w send by (simp add: job_commit_prepared_def job_register_reply_def enqueue_payload_def)
    ultimately have "outq w = outq ?v" using commit_prepared_step by blast
    then have "outq t = outq s @ [\<lparr>msg_chan = chan, msg_op = BATCH_JOB_SUBMIT_ACK, msg_status = MBD_OK,
       msg_body = Submit_reply (job_id_seq s + 1)\<rparr>]" by (simp add: t job_id_seq_write_def aid)
    then show ?thesis using True by (auto simp: refused_def MBD_OK_def)
  qed
qed

section \<open>Properties\<close>



text \<open>
  C3. A well-formed request is accepted: when the queue exists and admits the user,
  the tokens and the dependency condition parse, the files can be written and the
  answer can be queued, every index of the range gets its job.
\<close>

theorem register_accepts:
  assumes "mbd_inv s" and "0 \<le> ws_num_cpus ws" and "env_ok e" and "submit_ok e ws s"
    and "length (default_queue s) < 256" and "e_send_ok e chan BATCH_JOB_SUBMIT_ACK"
    and "has_flag (ws_flags ws) JOB_FLAG_ARRAY \<longrightarrow> 0 < ws_array_stride ws \<and> ws_array_start ws \<le> ws_array_end ws"
    and "in_s32 (ws_array_start ws)" and "in_s32 (ws_array_end ws + ws_array_stride ws)"
  shows "\<exists>t ps. job_register e (Some ws) (Some script) chan hdr s = Inr t \<and> accepted e ws chan hdr s ps t"
  using job_register_total [OF assms(1-3,8,9)] job_register_accepts [OF assms(1,2,4,5,6)] assms(7) by blast

lemma ex_submit_ok: "submit_ok ex_env ex_ws ex_mbd"
proof -
  have "ws_queue ex_ws = []" "ws_tokenpool ex_ws = []" "ws_depend_cond ex_ws = []" by (simp_all add: ex_ws_def)
  moreover have "queue_user_allowed ex_queue u" for u
    by (simp add: ex_queue_def queue_user_allowed_def ht.create_empty)
  moreover have "e_script_err ex_env i = None" "e_sidecar_err ex_env i = None" for i by (simp_all add: ex_env_def)
  moreover have "job_parse_tokens ex_env ex_mbd [] = Inr []" by (simp add: job_parse_tokens_def cfield_take)
  ultimately show ?thesis by (simp add: submit_ok_def)
qed

lemma ex_register:
  "0 \<le> ws_num_cpus ex_ws" "env_ok ex_env" "length (default_queue ex_mbd) < 256"
  "e_send_ok ex_env chan BATCH_JOB_SUBMIT_ACK" "in_s32 (ws_array_start ex_ws)"
  "in_s32 (ws_array_end ex_ws + ws_array_stride ex_ws)" "has_flag (ws_flags ex_ws) JOB_FLAG_ARRAY"
  "0 < ws_array_stride ex_ws \<and> ws_array_start ex_ws \<le> ws_array_end ex_ws"
  by (simp_all add: ex_ws_def env_ok_def ex_env_def in_s32_def has_flag_def JOB_FLAG_ARRAY_def)

lemma ex_accepted: "\<exists>t ps. accepted ex_env ex_ws 9 ex_hdr ex_mbd ps t"
proof -
  obtain t where "job_register ex_env (Some ex_ws) (Some []) 9 ex_hdr ex_mbd = Inr t"
    using job_register_total [OF ex_mbd_inv ex_register(1,2,5,6)] by blast
  from job_register_accepts [OF ex_mbd_inv ex_register(1) ex_submit_ok ex_register(3,4,8) this] show ?thesis by blast
qed

theorem register_accepts_witness:
  "\<exists>t ps. job_register ex_env (Some ex_ws) (Some ''run'') 9 ex_hdr ex_mbd = Inr t \<and>
    accepted ex_env ex_ws 9 ex_hdr ex_mbd ps t"
  by (rule register_accepts [OF ex_mbd_inv ex_register(1,2) ex_submit_ok ex_register(3,4) _ ex_register(5,6)])
    (simp add: ex_register(8))

text \<open>
  C20. After an array is accepted, the lookup by array number and index finds the
  element of every index of the range and nothing for any other index.
\<close>

theorem array_lookup:
  assumes "mbd_inv s" and "accepted e ws chan hdr s ps t" and "has_flag (ws_flags ws) JOB_FLAG_ARRAY"
    and "0 < ws_array_stride ws" and "in_s32 (ws_array_start ws)" and "in_s32 (ws_array_end ws + ws_array_stride ws)"
  shows "job_find_array t (job_id_seq s + 1) i = Inr
    (if ws_array_start ws \<le> i \<and> i \<le> ws_array_end ws \<and> ws_array_stride ws dvd i - ws_array_start ws
     then job_find t (job_id_seq s + 1 + (i - ws_array_start ws) div ws_array_stride ws) else None)"
proof -
  let ?a = "ws_array_start ws" and ?d = "ws_array_stride ws"
  have pos: "0 \<le> job_id_seq s" using assms(1) by (simp add: mbd_inv_def table_agrees_def)
  note lk = accepted_lookup [OF assms(2-4) pos assms(5,6)]
  have n: "?a + (int (length ps) - 1) * ?d \<le> ws_array_end ws" "ws_array_end ws < ?a + int (length ps) * ?d"
    and f: "\<And>k. k < length ps \<Longrightarrow> job_find t (job_id_seq s + 1 + int k) = Some (ps ! k)"
    using assms(2,3) by (simp_all add: accepted_def submit_range_def)
  show ?thesis
  proof (cases "\<exists>k < length ps. i = ?a + int k * ?d")
    case True
    then obtain k where k: "k < length ps" "i = ?a + int k * ?d" by blast
    have "int k * ?d \<le> (int (length ps) - 1) * ?d" using k(1) assms(4) by (intro mult_right_mono) auto
    then have "?a + int k * ?d \<le> ws_array_end ws" using n(1) by linarith
    then show ?thesis using lk(1) [OF k(1)] f [OF k(1)] k(2) assms(4) by simp
  next
    case False
    have "\<not> (?a \<le> i \<and> i \<le> ws_array_end ws \<and> ?d dvd i - ?a)"
    proof
      assume h: "?a \<le> i \<and> i \<le> ws_array_end ws \<and> ?d dvd i - ?a"
      then obtain m where m: "i - ?a = ?d * m" by auto
      then have "0 \<le> m" using h assms(4) by (metis diff_ge_0_iff_ge zero_le_mult_iff not_less)
      moreover have "?d * m < ?d * int (length ps)" using h n(2) m by (simp add: mult.commute)
      then have "m < int (length ps)" using assms(4) by simp
      ultimately show False using False m by (auto dest!: spec [of _ "nat m"] simp: mult.commute)
    qed
    then show ?thesis using lk(2) False by auto
  qed
qed

theorem array_lookup_witness:
  "\<exists>t ps. accepted ex_env ex_ws 9 ex_hdr ex_mbd ps t \<and>
    job_find_array t 4 3 = Inr (job_find t 5) \<and> job_find_array t 4 2 = Inr None"
proof -
  obtain t ps where a: "accepted ex_env ex_ws 9 ex_hdr ex_mbd ps t" using ex_accepted by blast
  note lk = array_lookup [OF ex_mbd_inv a ex_register(7) ex_register(8) [THEN conjunct1] ex_register(5,6)]
  show ?thesis using a lk [of 3] lk [of 2] by (auto simp: ex_ws_def)
qed

end
