(* ===== verification/Mbd_Step.thy ===== *)
theory Mbd_Step
  imports Mbd_Inv
begin

text \<open>
  The moves of one job that keep the invariant: a change on the pending list or
  off it to the finished one, the way from the running list (its hosts get back
  what \<open>release_host\<close> returns, the pools its tokens) and the way onto it (its
  hosts give what \<open>charge_host\<close> takes). The handlers compose to these moves.
\<close>

section \<open>What every move shares\<close>

text \<open>The parts of the state no handler of a job changes.\<close>

definition fixed_parts :: "mbd \<Rightarrow> mbd \<Rightarrow> bool" where
  "fixed_parts s t \<longleftrightarrow> host_list t = host_list s \<and> queue_list t = queue_list s \<and>
     token_pool_list t = token_pool_list s \<and> token_pool_name_hash t = token_pool_name_hash s \<and>
     job_id_hash t = job_id_hash s \<and> job_fresh t = job_fresh s \<and> job_id_seq t = job_id_seq s \<and>
     queue_name_hash t = queue_name_hash s"

text \<open>The counters of the queues follow the contribution of the job.\<close>

definition queues_follow :: "jptr \<Rightarrow> mbd \<Rightarrow> mbd \<Rightarrow> bool" where
  "queues_follow p s t \<longleftrightarrow>
     (\<forall>q. mq_host_hash (queue_heap t q) = mq_host_hash (queue_heap s q)) \<and>
     (\<forall>q \<in> set (queue_list s). \<forall>c. q_ctr c (queue_heap t q) = q_ctr c (queue_heap s q) +
       (q_weight c q (job_heap t p) - q_weight c q (job_heap s p)))"

lemma inv_parts:
  assumes "mbd_inv s"
  shows "distinct (all_jobs s)" "lists_ok s" "names_ok s"
    "p \<in> set (job_lists s l) \<Longrightarrow> p \<in> set (all_jobs s) \<and> jd_list_id (job_heap s p) = l \<and> p < job_fresh s"
    "p \<in> set (job_lists s l) \<Longrightarrow> job_ok (queue_list s) (host_list s) (job_heap s p)"
    "p \<in> set (all_jobs s) \<Longrightarrow> p \<in> set (job_lists s (jd_list_id (job_heap s p)))"
    "h \<in> set (host_list s) \<Longrightarrow> host_ok (host_heap s h)"
    "h \<in> set (host_list s) \<Longrightarrow> h_ctr c (host_heap s h) = load s (h_weight c h)"
proof -
  have l: "lists_ok s" using assms by (simp add: mbd_inv_def)
  show "distinct (all_jobs s)" "lists_ok s" "names_ok s" using assms by (simp_all add: mbd_inv_def lists_ok_def)
  show m: "p \<in> set (all_jobs s) \<and> jd_list_id (job_heap s p) = l \<and> p < job_fresh s" if "p \<in> set (job_lists s l)"
    using that l all_jobs_set [of p s] by (auto simp: lists_ok_def)
  show "job_ok (queue_list s) (host_list s) (job_heap s p)" if "p \<in> set (job_lists s l)"
    using m [OF that] assms by (simp add: mbd_inv_def)
  show "p \<in> set (job_lists s (jd_list_id (job_heap s p)))" if "p \<in> set (all_jobs s)"
    using that l by (auto simp: all_jobs_set lists_ok_def)
  show "host_ok (host_heap s h)" "h_ctr c (host_heap s h) = load s (h_weight c h)" if "h \<in> set (host_list s)"
    using that assms by (simp_all add: mbd_inv_def counters_ok_def)
qed

lemma inv_find:
  assumes "mbd_inv s" and "job_find s i = Some p"
  shows "p \<in> set (all_jobs s)" and "jd_job_id (job_heap s p) = i"
    and "p \<in> set (job_lists s (jd_list_id (job_heap s p)))"
    and "job_ok (queue_list s) (host_list s) (job_heap s p)"
proof -
  show "p \<in> set (all_jobs s)" "jd_job_id (job_heap s p) = i"
    using assms by (auto simp: mbd_inv_def table_agrees_def)
  then show "p \<in> set (job_lists s (jd_list_id (job_heap s p)))" "job_ok (queue_list s) (host_list s) (job_heap s p)"
    using assms(1) by (auto simp: inv_parts(6) mbd_inv_def)
qed

text \<open>Which list a job of a given state is on.\<close>

lemma state_list:
  assumes "mbd_inv s" and "p \<in> set (all_jobs s)"
  shows "jd_state (job_heap s p) = JOB_PENDING \<or> jd_state (job_heap s p) = JOB_HELD \<longleftrightarrow>
      p \<in> set (job_lists s JOB_LIST_PEND)"
    and "jd_state (job_heap s p) = JOB_RUNNING \<or> jd_state (job_heap s p) = JOB_SUSPENDED \<longleftrightarrow>
      p \<in> set (job_lists s JOB_LIST_RUN)"
    and "jd_state (job_heap s p) = JOB_DONE \<or> jd_state (job_heap s p) = JOB_EXITED \<longleftrightarrow>
      p \<in> set (job_lists s JOB_LIST_FINISH)"
proof -
  let ?l = "jd_list_id (job_heap s p)" and ?st = "jd_state (job_heap s p)"
  have fits: "state_fits ?l ?st" using assms by (simp add: mbd_inv_def job_ok_def)
  have iff: "p \<in> set (job_lists s l) \<longleftrightarrow> ?l = l" for l
    using inv_parts(4) [OF assms(1), of p l] inv_parts(6) [OF assms] by auto
  show "?st = JOB_PENDING \<or> ?st = JOB_HELD \<longleftrightarrow> p \<in> set (job_lists s JOB_LIST_PEND)"
    unfolding iff using fits by (cases ?l) auto
  show "?st = JOB_RUNNING \<or> ?st = JOB_SUSPENDED \<longleftrightarrow> p \<in> set (job_lists s JOB_LIST_RUN)"
    unfolding iff using fits by (cases ?l) auto
  show "?st = JOB_DONE \<or> ?st = JOB_EXITED \<longleftrightarrow> p \<in> set (job_lists s JOB_LIST_FINISH)"
    unfolding iff using fits by (cases ?l) auto
qed

lemma inv_move:
  assumes inv: "mbd_inv s" and p: "p \<in> set (job_lists s a)"
    and lists: "job_lists t = (if a = b then job_lists s else lists_move (job_lists s) p a b)"
    and job: "jd_list_id (job_heap t p) = b" "jd_job_id (job_heap t p) = jd_job_id (job_heap s p)"
      "job_ok (queue_list s) (host_list s) (job_heap t p)"
    and others: "\<And>x. x \<noteq> p \<Longrightarrow> same_load (job_heap s x) (job_heap t x)"
    and fixed: "fixed_parts s t" and queues: "queues_follow p s t"
    and hosts: "\<And>h c. h \<in> set (host_list s) \<Longrightarrow> h_ctr c (host_heap t h) = h_ctr c (host_heap s h) +
      (h_weight c h (job_heap t p) - h_weight c h (job_heap s p))"
    and hostok: "\<And>h. h \<in> set (host_list s) \<Longrightarrow> host_ok (host_heap t h)"
    and names: "\<And>h. mh_name (host_heap t h) = mh_name (host_heap s h)"
    and pools: "\<And>q. tp_total (pool_heap t q) - tp_free (pool_heap t q) =
      tp_total (pool_heap s q) - tp_free (pool_heap s q) +
      (t_weight (token_pool_name_hash s) q (job_heap t p) - t_weight (token_pool_name_hash s) q (job_heap s p))"
  shows "mbd_inv t"
proof -
  note f = fixed [unfolded fixed_parts_def]
  have pa: "p \<in> set (all_jobs s)" using inv_parts(4) [OF inv p] by simp
  have mset: "mset (all_jobs t) = mset (all_jobs s)"
  proof (cases "a = b")
    case True
    then show ?thesis by (simp add: all_jobs_def lists)
  next
    case False
    then show ?thesis by (intro lists_move_mset [OF p]) (simp add: lists)
  qed
  have mem: "jd_list_id (job_heap t x) = l" if "x \<in> set (job_lists t l)" for x l
  proof (cases "x = p")
    case True
    then show ?thesis
      using that p job(1) inv_parts(4) [OF inv] lists_move_mem [OF inv_parts(1) [OF inv] p, of p b l]
      by (auto simp: lists split: if_splits)
  next
    case False
    then have "x \<in> set (job_lists s l)"
      using that lists_move_mem [OF inv_parts(1) [OF inv] p, of x b l] by (simp add: lists split: if_splits)
    then show ?thesis using inv_parts(4) [OF inv] same_load_weights(5) [OF others [OF False]] by simp
  qed
  have nm: "names_ok t"
    by (rule names_ok_step [OF inv_parts(3) [OF inv]]) (use f queues names in \<open>simp_all add: queues_follow_def\<close>)
  show ?thesis
    by (rule inv_job_step [OF inv pa mset mem others job(2,3) _ _ _ _ _ _ _ nm _ hosts hostok pools])
      (use f queues in \<open>simp_all add: queues_follow_def\<close>)
qed

section \<open>Moves that leave the running jobs alone\<close>

lemma inv_pend_move:
  assumes inv: "mbd_inv s" and p: "p \<in> set (job_lists s JOB_LIST_PEND)" and b: "b \<noteq> JOB_LIST_RUN"
    and lists: "job_lists t = (if b = JOB_LIST_PEND then job_lists s else lists_move (job_lists s) p JOB_LIST_PEND b)"
    and job: "jd_list_id (job_heap t p) = b" "jd_job_id (job_heap t p) = jd_job_id (job_heap s p)"
      "job_ok (queue_list s) (host_list s) (job_heap t p)"
    and others: "\<And>x. x \<noteq> p \<Longrightarrow> same_load (job_heap s x) (job_heap t x)"
    and fixed: "fixed_parts s t" and queues: "queues_follow p s t"
    and same: "host_heap t = host_heap s" "pool_heap t = pool_heap s"
  shows "mbd_inv t"
proof (rule inv_move [OF inv p _ job others fixed queues])
  have l: "jd_list_id (job_heap s p) = JOB_LIST_PEND" using inv_parts(4) [OF inv p] by simp
  show "job_lists t = (if JOB_LIST_PEND = b then job_lists s else lists_move (job_lists s) p JOB_LIST_PEND b)"
    using lists by auto
  show "h_ctr c (host_heap t h) = h_ctr c (host_heap s h) +
      (h_weight c h (job_heap t p) - h_weight c h (job_heap s p))" for h c
    using l job(1) b by (simp add: h_weight_def same)
  show "tp_total (pool_heap t q) - tp_free (pool_heap t q) = tp_total (pool_heap s q) - tp_free (pool_heap s q) +
      (t_weight (token_pool_name_hash s) q (job_heap t p) - t_weight (token_pool_name_hash s) q (job_heap s p))" for q
    using l job(1) b by (simp add: t_weight_def same)
qed (use inv_parts(7) [OF inv] in \<open>simp_all add: same\<close>)

section \<open>Leaving the running list\<close>

lemma uint_add_bounded:
  "uint (a::u64) + uint b \<le> uint (c::u64) \<Longrightarrow> uint (a + b) = uint a + uint b"
proof -
  assume "uint a + uint b \<le> uint c"
  moreover have "uint c < 18446744073709551616" using uint_lt2p [of c] by simp
  ultimately have "uint a + uint b < 18446744073709551616" by linarith
  then show ?thesis by (simp add: uint_word_ariths)
qed

lemma uint_sub_bounded: "uint (b::u64) \<le> uint a \<Longrightarrow> uint (a - b) = uint a - uint b"
  by (simp add: uint_sub_lem)

text \<open>What the counters of a host say about a job that runs on it.\<close>

lemma host_share_le:
  assumes inv: "mbd_inv s" and p: "p \<in> set (job_lists s JOB_LIST_RUN)"
    and h: "h \<in> set (host_list s)" "job_uses_host (job_heap s p) h"
  shows "h_share c (job_heap s p) \<le> h_ctr c (host_heap s h)"
    and "p' \<in> set (job_lists s JOB_LIST_RUN) \<Longrightarrow> p' \<noteq> p \<Longrightarrow> job_uses_host (job_heap s p') h \<Longrightarrow>
      h_share c (job_heap s p) + h_share c (job_heap s p') \<le> h_ctr c (host_heap s h)"
proof -
  have nn: "0 \<le> h_weight c h (job_heap s x)" if "x \<in> set (all_jobs s)" for x
    using inv that by (intro h_weight_nonneg) (auto simp: mbd_inv_def job_ok_def)
  have w: "h_weight c h (job_heap s x) = h_share c (job_heap s x)"
    if "x \<in> set (job_lists s JOB_LIST_RUN)" "job_uses_host (job_heap s x) h" for x
    using inv_parts(4) [OF inv that(1)] that(2) by (simp add: h_weight_def)
  have m: "x \<in> set (all_jobs s)" if "x \<in> set (job_lists s JOB_LIST_RUN)" for x
    using inv_parts(4) [OF inv that] by simp
  show "h_share c (job_heap s p) \<le> h_ctr c (host_heap s h)"
    using load_ge [OF m [OF p], of "h_weight c h"] nn w [OF p h(2)] inv_parts(8) [OF inv h(1)] by simp
  assume p': "p' \<in> set (job_lists s JOB_LIST_RUN)" "p' \<noteq> p" "job_uses_host (job_heap s p') h"
  show "h_share c (job_heap s p) + h_share c (job_heap s p') \<le> h_ctr c (host_heap s h)"
    using load_ge2 [OF inv_parts(1) [OF inv] m [OF p] m [OF p'(1)] p'(2) [symmetric], of "h_weight c h"]
      nn w [OF p h(2)] w [OF p'(1,3)] inv_parts(8) [OF inv h(1)] by simp
qed

lemma release_host_ctr:
  assumes inv: "mbd_inv s" and p: "p \<in> set (job_lists s JOB_LIST_RUN)"
    and h: "h \<in> set (host_list s)" "job_uses_host (job_heap s p) h"
  shows "h_ctr c (release_host (job_heap s p) (host_heap s h)) =
    h_ctr c (host_heap s h) - h_share c (job_heap s p)"
proof -
  note le = host_share_le(1) [OF inv p h]
  let ?j = "job_heap s p" and ?x = "host_heap s h"
  show ?thesis
  proof (cases c)
    case H_mem
    then show ?thesis
      using le [of H_mem] uint_add_bounded [of "mh_free_mem_mb ?x" "jr_mem_mb (jd_res ?j)" "mh_total_mem_mb ?x"]
      by (simp add: release_host_def)
  next
    case H_storage
    then show ?thesis
      using le [of H_storage] uint_add_bounded [of "mh_free_storage_mb ?x" "jr_storage_mb (jd_res ?j)" "mh_total_storage_mb ?x"]
      by (simp add: release_host_def)
  next
    case H_excl
    then show ?thesis using le [of H_excl] by (simp add: release_host_def)
  qed (simp_all add: release_host_def)
qed

lemma release_host_ok:
  assumes inv: "mbd_inv s" and p: "p \<in> set (job_lists s JOB_LIST_RUN)"
    and h: "h \<in> set (host_list s)" "job_uses_host (job_heap s p) h"
  shows "host_ok (release_host (job_heap s p) (host_heap s h))"
proof -
  let ?j = "job_heap s p" and ?x = "host_heap s h"
  have ok: "host_ok ?x" by (rule inv_parts(7) [OF inv h(1)])
  have "0 \<le> jr_num_cpus (jd_res ?j)" using inv_parts(5) [OF inv p] by (simp add: job_ok_def)
  moreover have False if ex: "mh_exclusive ?x" and nf: "\<not> has_flag (jd_flags ?j) JOB_FLAG_EXCLUSIVE"
  proof -
    have one: "mh_num_jobs ?x = 1" using ok ex by (simp add: host_ok_def)
    have "load s (h_weight H_excl h) = 1" using inv_parts(8) [OF inv h(1), of H_excl] ex by simp
    then have "\<not> (\<forall>x \<in> set (all_jobs s). h_weight H_excl h (job_heap s x) = 0)"
      using tally_zero [of "all_jobs s" "\<lambda>p. h_weight H_excl h (job_heap s p)"] by (auto simp: load_def)
    then obtain p' where p': "p' \<in> set (all_jobs s)" "h_weight H_excl h (job_heap s p') \<noteq> 0" by blast
    then have u: "jd_list_id (job_heap s p') = JOB_LIST_RUN" "job_uses_host (job_heap s p') h"
      "has_flag (jd_flags (job_heap s p')) JOB_FLAG_EXCLUSIVE"
      by (auto simp: h_weight_def split: if_splits)
    then have "p' \<noteq> p" "p' \<in> set (job_lists s JOB_LIST_RUN)" using nf inv_parts(6) [OF inv p'(1)] by auto
    from host_share_le(2) [OF inv p h this(2,1) u(2), of H_jobs] one show False by simp
  qed
  ultimately show ?thesis using ok by (auto simp: host_ok_def release_host_def)
qed

lemma inv_leave_run:
  assumes inv: "mbd_inv s" and p: "p \<in> set (job_lists s JOB_LIST_RUN)" and b: "b \<noteq> JOB_LIST_RUN"
    and hs: "run_hosts_are (job_heap s p) hs"
    and lists: "job_lists t = lists_move (job_lists s) p JOB_LIST_RUN b"
    and job: "jd_list_id (job_heap t p) = b" "jd_job_id (job_heap t p) = jd_job_id (job_heap s p)"
      "job_ok (queue_list s) (host_list s) (job_heap t p)"
    and others: "\<And>x. x \<noteq> p \<Longrightarrow> same_load (job_heap s x) (job_heap t x)"
    and fixed: "fixed_parts s t" and queues: "queues_follow p s t"
    and freed: "\<And>h. h \<in> set hs \<Longrightarrow> \<exists>g. host_heap t h = (release_host (job_heap s p) (host_heap s h))\<lparr>mh_gpu := g\<rparr>"
    and kept: "\<And>h. h \<notin> set hs \<Longrightarrow> host_heap t h = host_heap s h"
    and pools: "\<And>q. tp_total (pool_heap t q) = tp_total (pool_heap s q)"
      "\<And>q. tp_free (pool_heap t q) = tp_free (pool_heap s q) +
        token_weight (token_pool_name_hash s) q (jr_tokens (jd_res (job_heap s p)))"
  shows "mbd_inv t"
proof (rule inv_move [OF inv p _ job others fixed queues])
  have l: "jd_list_id (job_heap s p) = JOB_LIST_RUN" using inv_parts(4) [OF inv p] by simp
  have g: "h_ctr c (x\<lparr>mh_gpu := g\<rparr>) = h_ctr c x" "host_ok (x\<lparr>mh_gpu := g\<rparr>) = host_ok x" for c x g
    by (cases c; simp) (simp add: host_ok_def)
  have u: "job_uses_host (job_heap s p) h \<longleftrightarrow> h \<in> set hs" for h by (rule run_hosts_are_uses [OF hs])
  show "job_lists t = (if JOB_LIST_RUN = b then job_lists s else lists_move (job_lists s) p JOB_LIST_RUN b)"
    using lists b by auto
  fix h
  show "h_ctr c (host_heap t h) = h_ctr c (host_heap s h) +
      (h_weight c h (job_heap t p) - h_weight c h (job_heap s p))" if "h \<in> set (host_list s)" for c
    using release_host_ctr [OF inv p that, of c] freed [of h] kept [of h] l job(1) b
    by (cases "h \<in> set hs") (auto simp: h_weight_def g u)
  show "host_ok (host_heap t h)" if "h \<in> set (host_list s)"
    using release_host_ok [OF inv p that] freed [of h] kept [of h] inv_parts(7) [OF inv that]
    by (cases "h \<in> set hs") (auto simp: g u)
  show "mh_name (host_heap t h) = mh_name (host_heap s h)"
    using freed [of h] kept [of h] by (cases "h \<in> set hs") (auto simp: release_host_def)
next
  have l: "jd_list_id (job_heap s p) = JOB_LIST_RUN" using inv_parts(4) [OF inv p] by simp
  show "tp_total (pool_heap t q) - tp_free (pool_heap t q) = tp_total (pool_heap s q) - tp_free (pool_heap s q) +
      (t_weight (token_pool_name_hash s) q (job_heap t p) - t_weight (token_pool_name_hash s) q (job_heap s p))" for q
    using l job(1) b by (simp add: t_weight_def pools)
qed

section \<open>Entering the running list\<close>

text \<open>What \<open>host_meets_requirements\<close> guarantees of a host of the plan.\<close>

definition host_fits :: "mbd_host \<Rightarrow> job_data \<Rightarrow> bool" where
  "host_fits x j \<longleftrightarrow> \<not> mh_exclusive x \<and> (has_flag (jd_flags j) JOB_FLAG_EXCLUSIVE \<longrightarrow> mh_num_jobs x \<le> 0) \<and>
     jr_num_cpus (jd_res j) \<le> mh_free_cpu x \<and> jr_mem_mb (jd_res j) \<le> mh_free_mem_mb x \<and>
     jr_storage_mb (jd_res j) \<le> mh_free_storage_mb x"

lemma charge_host_ctr:
  assumes "host_fits x j" and "jd_state j = JOB_RUNNING"
  shows "h_ctr c (charge_host j x) = h_ctr c x + h_share c j"
  using assms
  by (cases c) (simp_all add: charge_host_def Let_def host_fits_def uint_sub_bounded word_le_def)

lemma charge_host_ok:
  assumes "host_fits x j" and "host_ok x" and "0 \<le> mh_num_jobs x"
  shows "host_ok (charge_host j x)"
  using assms by (auto simp: charge_host_def Let_def host_fits_def host_ok_def)

lemma num_jobs_nonneg:
  assumes inv: "mbd_inv s" and h: "h \<in> set (host_list s)"
  shows "0 \<le> mh_num_jobs (host_heap s h)"
proof -
  have "0 \<le> load s (h_weight H_jobs h)" unfolding load_def by (rule tally_nonneg) (simp add: h_weight_def)
  then show ?thesis using inv_parts(8) [OF inv h, of H_jobs] by simp
qed

lemma inv_enter_run:
  assumes inv: "mbd_inv s" and p: "p \<in> set (job_lists s JOB_LIST_PEND)"
    and hs: "run_hosts_are (job_heap t p) hs" "set hs \<subseteq> set (host_list s)"
    and lists: "job_lists t = lists_move (job_lists s) p JOB_LIST_PEND JOB_LIST_RUN"
    and job: "jd_list_id (job_heap t p) = JOB_LIST_RUN" "jd_job_id (job_heap t p) = jd_job_id (job_heap s p)"
      "job_ok (queue_list s) (host_list s) (job_heap t p)" "jd_state (job_heap t p) = JOB_RUNNING"
    and others: "\<And>x. x \<noteq> p \<Longrightarrow> same_load (job_heap s x) (job_heap t x)"
    and fixed: "fixed_parts s t" and queues: "queues_follow p s t"
    and fits: "\<And>h. h \<in> set hs \<Longrightarrow> host_fits (host_heap s h) (job_heap t p)"
    and taken: "\<And>h. \<exists>g d. host_heap t h = (if h \<in> set hs then charge_host (job_heap t p) (host_heap s h)
      else host_heap s h)\<lparr>mh_candidate := d, mh_gpu := g\<rparr>"
    and pools: "\<And>q. tp_total (pool_heap t q) = tp_total (pool_heap s q)"
      "\<And>q. tp_free (pool_heap t q) = tp_free (pool_heap s q) -
        token_weight (token_pool_name_hash s) q (jr_tokens (jd_res (job_heap t p)))"
  shows "mbd_inv t"
proof (rule inv_move [OF inv p _ job(1-3) others fixed queues])
  have l: "jd_list_id (job_heap s p) = JOB_LIST_PEND" using inv_parts(4) [OF inv p] by simp
  have g: "h_ctr c (x\<lparr>mh_candidate := d, mh_gpu := g\<rparr>) = h_ctr c x"
    "host_ok (x\<lparr>mh_candidate := d, mh_gpu := g\<rparr>) = host_ok x" for c x d g
    by (cases c; simp) (simp add: host_ok_def)
  have u: "job_uses_host (job_heap t p) h \<longleftrightarrow> h \<in> set hs" for h by (rule run_hosts_are_uses [OF hs(1)])
  show "job_lists t = (if JOB_LIST_PEND = JOB_LIST_RUN then job_lists s
      else lists_move (job_lists s) p JOB_LIST_PEND JOB_LIST_RUN)"
    using lists by simp
  fix h
  show "h_ctr c (host_heap t h) = h_ctr c (host_heap s h) +
      (h_weight c h (job_heap t p) - h_weight c h (job_heap s p))" for c
    using charge_host_ctr [OF fits job(4), of h c] taken [of h] l job(1)
    by (cases "h \<in> set hs") (auto simp: h_weight_def g u)
  show "host_ok (host_heap t h)" if "h \<in> set (host_list s)"
    using charge_host_ok [OF fits inv_parts(7) [OF inv that] num_jobs_nonneg [OF inv that]] taken [of h]
      inv_parts(7) [OF inv that]
    by (cases "h \<in> set hs") (auto simp: g)
  show "mh_name (host_heap t h) = mh_name (host_heap s h)"
    using taken [of h] by (cases "h \<in> set hs") (auto simp: charge_host_def Let_def)
next
  have l: "jd_list_id (job_heap s p) = JOB_LIST_PEND" using inv_parts(4) [OF inv p] by simp
  show "tp_total (pool_heap t q) - tp_free (pool_heap t q) = tp_total (pool_heap s q) - tp_free (pool_heap s q) +
      (t_weight (token_pool_name_hash s) q (job_heap t p) - t_weight (token_pool_name_hash s) q (job_heap s p))" for q
    using l job(1) by (simp add: t_weight_def pools)
qed

section \<open>What no handler changes of a registered job\<close>

text \<open>
  What no handler changes of a registered job: its number, owner, array range, resources
  and conditions. What stays of the daemon: the set of the jobs, the job files, the
  tables of jobs and hosts, and which host is on which channel.
\<close>

definition times_ok :: "job_data \<Rightarrow> bool" where
  "times_ok j \<longleftrightarrow> 0 < jd_submit_time j \<and> 0 \<le> jd_dispatch_time j \<and> 0 \<le> jd_fork_time j \<and>
     (jd_list_id j = JOB_LIST_RUN \<longrightarrow> 0 < jd_dispatch_time j) \<and> (jd_list_id j = JOB_LIST_FINISH \<longrightarrow> 0 < jd_end_time j)"

definition array_same :: "job_data \<Rightarrow> job_data \<Rightarrow> bool" where
  "array_same j j' \<longleftrightarrow> jd_job_id j' = jd_job_id j \<and> jd_uid j' = jd_uid j \<and> jd_array_id j' = jd_array_id j \<and>
     jd_array_index j' = jd_array_index j \<and> jd_array_start j' = jd_array_start j \<and>
     jd_array_end j' = jd_array_end j \<and> jd_array_stride j' = jd_array_stride j \<and> jd_res j' = jd_res j \<and>
     jd_deps j' = jd_deps j \<and> (times_ok j \<longrightarrow> times_ok j')"

definition keeps :: "mbd \<Rightarrow> mbd \<Rightarrow> bool" where
  "keeps s t \<longleftrightarrow> (\<forall>x. array_same (job_heap s x) (job_heap t x)) \<and> set (all_jobs t) = set (all_jobs s) \<and>
     submit_files t = submit_files s \<and> script_files t = script_files s \<and> job_id_hash t = job_id_hash s \<and>
     host_list t = host_list s \<and> mgr_uid t = mgr_uid s \<and> host_name_hash t = host_name_hash s \<and>
     sbd_chan_hash t = sbd_chan_hash s \<and> queue_list t = queue_list s \<and>
     (\<forall>q. mq_host_hash (queue_heap t q) = mq_host_hash (queue_heap s q) \<and>
        mq_user_hash (queue_heap t q) = mq_user_hash (queue_heap s q)) \<and>
     (\<forall>h. mh_sbd_chan (host_heap t h) = mh_sbd_chan (host_heap s h))"

lemma keeps_refl [simp]: "keeps s s"
  by (simp add: keeps_def array_same_def)

lemma keeps_trans: "keeps s t \<Longrightarrow> keeps t u \<Longrightarrow> keeps s u"
  by (simp add: keeps_def array_same_def)

lemma minor_array_same: "minor j j' \<Longrightarrow> array_same j j'"
  by (auto simp: minor_def array_same_def times_ok_def)

lemma keeps_find: "keeps s t \<Longrightarrow> job_find t i = job_find s i"
  by (simp add: keeps_def job_find_def)

lemma lists_move_set:
  "p \<in> set (job_lists s a) \<Longrightarrow> job_lists t = lists_move (job_lists s) p a b \<Longrightarrow> set (all_jobs t) = set (all_jobs s)"
  using lists_move_mset mset_eq_setD by blast

lemma minor_stepE:
  assumes "minor_step s t"
  obtains hp where "t = s\<lparr>job_heap := hp\<rparr>" and "\<And>x. minor (job_heap s x) (hp x)"
  using assms that [of "job_heap t"] by (simp add: minor_step_def)

lemma minorE:
  assumes "minor j j'"
  obtains n m where "j' = j\<lparr>jd_dep_refcnt := n, jd_array_element_cnt := m\<rparr>"
  using assms by (auto simp: minor_def)

lemma job_ok_queue: "job_ok ql hl j \<Longrightarrow> \<exists>q \<in> set ql. jd_queue j = Some q"
  by (simp add: job_ok_def)

lemma queues_follow_upd:
  assumes "queue_heap t = (queue_heap s)(q := f (queue_heap s q))"
    and "jd_queue (job_heap s p) = Some q" and "jd_queue (job_heap t p) = Some q"
    and "mq_host_hash (f (queue_heap s q)) = mq_host_hash (queue_heap s q)"
    and "\<And>c. q_ctr c (f (queue_heap s q)) =
      q_ctr c (queue_heap s q) + (q_share c (job_heap t p) - q_share c (job_heap s p))"
  shows "queues_follow p s t"
  using assms by (simp add: queues_follow_def q_weight_def)

lemma keepsI:
  assumes "\<And>x. x \<noteq> p \<Longrightarrow> minor (job_heap s x) (job_heap t x)" and "array_same (job_heap s p) (job_heap t p)"
    and "job_lists t = job_lists s \<or> p \<in> set (job_lists s a) \<and> job_lists t = lists_move (job_lists s) p a b"
    and "submit_files t = submit_files s" "script_files t = script_files s" "job_id_hash t = job_id_hash s"
      "host_list t = host_list s" "mgr_uid t = mgr_uid s" "host_name_hash t = host_name_hash s"
      "sbd_chan_hash t = sbd_chan_hash s" "\<And>h. mh_sbd_chan (host_heap t h) = mh_sbd_chan (host_heap s h)"
      "queue_list t = queue_list s" "\<And>q. mq_host_hash (queue_heap t q) = mq_host_hash (queue_heap s q)"
      "\<And>q. mq_user_hash (queue_heap t q) = mq_user_hash (queue_heap s q)"
  shows "keeps s t"
proof -
  have "array_same (job_heap s x) (job_heap t x)" for x
    using minor_array_same [OF assms(1) [of x]] assms(2) by (cases "x = p") auto
  moreover have "set (all_jobs t) = set (all_jobs s)"
  proof (cases "job_lists t = job_lists s")
    case True
    then show ?thesis by (simp add: all_jobs_def)
  next
    case False
    then show ?thesis using assms(3) lists_move_set [of p s a t b] by blast
  qed
  ultimately show ?thesis using assms(4-) by (simp add: keeps_def)
qed

text \<open>Steps that change one job, and steps that change only the jobs a user may change.\<close>

definition touches :: "jptr \<Rightarrow> mbd \<Rightarrow> mbd \<Rightarrow> bool" where
  "touches p s t \<longleftrightarrow> keeps s t \<and> (\<forall>x. x \<noteq> p \<longrightarrow> minor (job_heap s x) (job_heap t x))"

definition may_change :: "int \<Rightarrow> mbd \<Rightarrow> jptr \<Rightarrow> bool" where
  "may_change uid s p \<longleftrightarrow> jd_uid (job_heap s p) = uid \<or> is_manager s uid"

definition steps_by :: "int \<Rightarrow> mbd \<Rightarrow> mbd \<Rightarrow> bool" where
  "steps_by uid s t \<longleftrightarrow> keeps s t \<and> (\<forall>x. \<not> may_change uid s x \<longrightarrow> minor (job_heap s x) (job_heap t x))"

lemma touches_refl [simp]: "touches p s s"
  by (simp add: touches_def)

lemma steps_by_refl [simp]: "steps_by uid s s"
  by (simp add: steps_by_def)

lemma keeps_may_change: "keeps s t \<Longrightarrow> may_change uid t x = may_change uid s x"
  by (simp add: keeps_def may_change_def array_same_def is_manager_def)

lemma steps_by_trans: "steps_by uid s t \<Longrightarrow> steps_by uid t u \<Longrightarrow> steps_by uid s u"
  unfolding steps_by_def using keeps_may_change keeps_trans minor_trans by blast

lemma touches_steps_by: "touches p s t \<Longrightarrow> may_change uid s p \<Longrightarrow> steps_by uid s t"
  by (auto simp: touches_def steps_by_def)

section \<open>Writing an event\<close>

lemma log_append_ex: "0 < ev_time ev \<Longrightarrow> \<exists>ev'. log_append ev s = Inr (s\<lparr>manifest := manifest s @ [ev']\<rparr>)"
  using log_append_ok by blast

lemma event_ok:
  "0 < jd_signal_time (job_heap s p) \<Longrightarrow> \<exists>ev. event_job_signal p ws s = Inr (s\<lparr>manifest := manifest s @ [ev]\<rparr>)"
  "0 < jd_end_time (job_heap s p) \<Longrightarrow> \<exists>ev. event_job_finish p s = Inr (s\<lparr>manifest := manifest s @ [ev]\<rparr>)"
  "0 < jd_fork_time (job_heap s p) \<Longrightarrow> \<exists>ev. event_job_fork p s = Inr (s\<lparr>manifest := manifest s @ [ev]\<rparr>)"
  "0 < e_now e \<Longrightarrow> \<exists>ev. event_job_pend_susp e p s = Inr (s\<lparr>manifest := manifest s @ [ev]\<rparr>)"
  "0 < e_now e \<Longrightarrow> \<exists>ev. event_job_pend_resume e p s = Inr (s\<lparr>manifest := manifest s @ [ev]\<rparr>)"
  "0 < e_now e \<Longrightarrow> \<exists>ev. event_job_pend e p s = Inr (s\<lparr>manifest := manifest s @ [ev]\<rparr>)"
  "0 < e_now e \<Longrightarrow> \<exists>ev. event_job_priority e p old s = Inr (s\<lparr>manifest := manifest s @ [ev]\<rparr>)"
  "0 < e_now e \<Longrightarrow> jd_queue (job_heap s p) = Some q \<Longrightarrow>
     \<exists>ev. event_job_move e p to_queue s = Inr (s\<lparr>manifest := manifest s @ [ev]\<rparr>)"
  unfolding event_job_signal_def event_job_finish_def event_job_fork_def event_job_pend_susp_def
    event_job_pend_resume_def event_job_pend_def event_job_priority_def event_job_move_def job_queue_def
    simple_event_def Let_def
  by (auto intro!: log_append_ex)

end
