(* ===== verification/Mbd_Signal.thy ===== *)
theory Mbd_Signal
  imports Mbd_Register Mbd_Step
begin

text \<open>
  Client requests on existing jobs (\<open>src/batch/mbd/job.c\<close>): signals to one job, to
  an array and to all jobs of a user, the move to another queue and the change of
  the priority. A handler gets the decoded request (\<open>None\<close> when decoding fails) and
  gives whether it returned a non-negative value, with the new state.
\<close>

section \<open>Signals to pending jobs\<close>

definition leave_pending :: "job_state \<Rightarrow> mbd_queue \<Rightarrow> mbd_queue" where
  "leave_pending st q =
     (let q1 = (if st = JOB_PENDING then q\<lparr>mq_num_pend := mq_num_pend q - 1\<rparr> else q);
          q2 = (if st = JOB_HELD then q1\<lparr>mq_num_held := mq_num_held q1 - 1\<rparr> else q1) in
      q2\<lparr>mq_num_jobs := mq_num_jobs q2 - 1\<rparr>)"

definition finish_pending_job :: "env \<Rightarrow> jptr \<Rightarrow> wire_job_sig \<Rightarrow> mbd \<Rightarrow> crash + int \<times> mbd" where
  "finish_pending_job e p ws s =
     (let s1 = upd_job p (\<lambda>j. j\<lparr>jd_signal_time := e_now e, jd_end_time := e_now e\<rparr>) s in
      bindE (on_queue p (leave_pending (jd_state (job_heap s1 p))) s1) (\<lambda>s2.
      bindE (event_job_signal p ws (job_deps_release p (upd_job p (\<lambda>j. j\<lparr>jd_state := JOB_EXITED\<rparr>) s2))) (\<lambda>s3.
      bindE (event_job_finish p s3) (\<lambda>s4.
      bindE (job_move_list p JOB_LIST_PEND JOB_LIST_FINISH s4) (\<lambda>s5.
        Inr (MBD_OK, job_array_element_finished p s5))))))"

definition stop_pending_job :: "env \<Rightarrow> jptr \<Rightarrow> wire_job_sig \<Rightarrow> mbd \<Rightarrow> crash + int \<times> mbd" where
  "stop_pending_job e p ws s =
     (if jd_state (job_heap s p) = JOB_HELD then Inr (MBD_OK, s)
      else
        bindE (event_job_signal p ws
          (upd_job p (\<lambda>j. j\<lparr>jd_state := JOB_HELD, jd_signal_time := e_now e\<rparr>) s)) (\<lambda>s1.
        bindE (event_job_pend_susp e p s1) (\<lambda>s2.
        bindE (on_queue p (\<lambda>q. q\<lparr>mq_num_pend := mq_num_pend q - 1, mq_num_held := mq_num_held q + 1\<rparr>) s2) (\<lambda>s3.
          Inr (MBD_OK, s3)))))"

definition resume_pending_job :: "env \<Rightarrow> jptr \<Rightarrow> wire_job_sig \<Rightarrow> mbd \<Rightarrow> crash + int \<times> mbd" where
  "resume_pending_job e p ws s =
     (if jd_state (job_heap s p) \<noteq> JOB_HELD then Inr (MBD_OK, s)
      else
        bindE (event_job_signal p ws
          (upd_job p (\<lambda>j. j\<lparr>jd_state := JOB_PENDING, jd_signal_time := e_now e\<rparr>) s)) (\<lambda>s1.
        bindE (event_job_pend_resume e p s1) (\<lambda>s2.
        bindE (on_queue p (\<lambda>q. q\<lparr>mq_num_held := mq_num_held q - 1, mq_num_pend := mq_num_pend q + 1\<rparr>) s2) (\<lambda>s3.
          Inr (MBD_OK, s3)))))"

definition signal_pending_job :: "env \<Rightarrow> jptr \<Rightarrow> wire_job_sig \<Rightarrow> mbd \<Rightarrow> crash + int \<times> mbd" where
  "signal_pending_job e p ws s =
     (if sg_sig ws = SIGTERM \<or> sg_sig ws = SIGINT \<or> sg_sig ws = SIGKILL then finish_pending_job e p ws s
      else if sg_sig ws = SIGSTOP \<or> sg_sig ws = SIGTSTP then stop_pending_job e p ws s
      else if sg_sig ws = SIGCONT then resume_pending_job e p ws s
      else Inr (EINVAL, s))"

section \<open>Signals to running jobs\<close>

definition signal_running_job :: "env \<Rightarrow> jptr \<Rightarrow> wire_job_sig \<Rightarrow> mbd \<Rightarrow> crash + int \<times> mbd" where
  "signal_running_job e p ws s =
     bindE (run_host s p 0) (\<lambda>h.
       let chan = mh_sbd_chan (host_heap s h) in
       if chan < 0 then Inr (EAGAIN, s)
       else if \<not> e_sign_ok e then Inr (EAGAIN, s)
       else case enqueue_payload e chan BATCH_SBD_JOB_SIGNAL MBD_OK (Sig_body ws) s of
           (False, s1) \<Rightarrow> Inr (EAGAIN, s1)
         | (True, s1) \<Rightarrow>
             bindE (event_job_signal p ws (upd_job p (\<lambda>j. j\<lparr>jd_signal_time := e_now e\<rparr>) s1)) (\<lambda>s2.
               Inr (MBD_OK, s2)))"

definition signal_one_job :: "env \<Rightarrow> int \<Rightarrow> jptr \<Rightarrow> wire_job_sig \<Rightarrow> mbd \<Rightarrow> crash + int \<times> mbd" where
  "signal_one_job e uid p req s =
     (let j = job_heap s p; st = jd_state j; req' = req\<lparr>sg_job_id := jd_job_id j\<rparr> in
      if jd_uid j \<noteq> uid \<and> \<not> is_manager s uid then Inr (EPERM, s)
      else if st = JOB_DONE \<or> st = JOB_EXITED then Inr (EINVAL, s)
      else if (sg_sig req = SIGSTOP \<or> sg_sig req = SIGTSTP) \<and> (st = JOB_SUSPENDED \<or> st = JOB_HELD)
      then Inr (MBD_OK, s)
      else if sg_sig req = SIGCONT \<and> (st = JOB_PENDING \<or> st = JOB_RUNNING) then Inr (MBD_OK, s)
      else if st = JOB_ORPHAN \<or> st = JOB_BROKEN then signal_pending_job e p req' s
      else if st = JOB_PENDING \<or> st = JOB_HELD then signal_pending_job e p req' s
      else signal_running_job e p req' s)"

section \<open>Signals to many jobs\<close>

definition signal_array_element ::
  "env \<Rightarrow> int \<Rightarrow> wire_job_sig \<Rightarrow> int \<Rightarrow> int \<times> int \<times> mbd \<Rightarrow> crash + (unit + int \<times> int \<times> mbd)" where
  "signal_array_element e uid req index r =
     (case r of (job_id, n, s) \<Rightarrow>
      case job_find s job_id of
        None \<Rightarrow> Inr (Inr (job_id + 1, n, s))
      | Some p \<Rightarrow>
          let j = job_heap s p in
          if jd_state j = JOB_DONE \<or> jd_state j = JOB_EXITED then Inr (Inr (job_id + 1, n, s))
          else if jd_uid j \<noteq> uid \<and> \<not> is_manager s uid then Inr (Inr (job_id + 1, n, s))
          else bindE (signal_one_job e uid p req s) (\<lambda>(cc, s1). Inr (Inr (job_id + 1, n + 1, s1))))"

definition signal_array :: "env \<Rightarrow> int \<Rightarrow> jptr \<Rightarrow> wire_job_sig \<Rightarrow> mbd \<Rightarrow> crash + int \<times> mbd" where
  "signal_array e uid h req s =
     (let j = job_heap s h in
      bindE (array_loop (signal_array_element e uid req) (jd_array_start j) (jd_array_end j) (jd_array_stride j)
          (jd_job_id j, 0, s))
        (\<lambda>r. case r of Inl _ \<Rightarrow> Inr (0, s) | Inr (job_id, n, s1) \<Rightarrow> Inr (n, s1)))"

definition scan_pend :: "env \<Rightarrow> int \<Rightarrow> wire_job_sig \<Rightarrow> jptr \<Rightarrow> int \<times> mbd \<Rightarrow> crash + int \<times> mbd" where
  "scan_pend e uid req p r =
     (case r of (n, s) \<Rightarrow>
      let j = job_heap s p in
      bindE (assertE Assert_failed (jd_state j = JOB_PENDING \<or> jd_state j = JOB_HELD)) (\<lambda>_.
        if jd_uid j \<noteq> uid \<and> \<not> is_manager s uid then Inr (n, s)
        else bindE (signal_pending_job e p (req\<lparr>sg_job_id := jd_job_id j\<rparr>) s) (\<lambda>(cc, s1). Inr (n + 1, s1))))"

definition scan_run :: "env \<Rightarrow> int \<Rightarrow> wire_job_sig \<Rightarrow> jptr \<Rightarrow> int \<times> mbd \<Rightarrow> crash + int \<times> mbd" where
  "scan_run e uid req p r =
     (case r of (n, s) \<Rightarrow>
      let j = job_heap s p in
      bindE (case run_host s p 0 of Inl Null_deref \<Rightarrow> Inl Assert_failed | x \<Rightarrow> x) (\<lambda>h.
        if jd_state j = JOB_ORPHAN \<or> jd_state j = JOB_BROKEN then Inr (n, s)
        else if mh_sbd_chan (host_heap s h) < 0 then Inr (n, s)
        else bindE (assertE Assert_failed (jd_state j = JOB_RUNNING \<or> jd_state j = JOB_SUSPENDED)) (\<lambda>_.
          if jd_uid j \<noteq> uid \<and> \<not> is_manager s uid then Inr (n, s)
          else bindE (signal_running_job e p (req\<lparr>sg_job_id := jd_job_id j\<rparr>) s) (\<lambda>(cc, s1). Inr (n + 1, s1)))))"

text \<open>
  The pending loop keeps the successor before it signals, so it passes every job
  that was pending when it began; signalling a running job moves nothing.
\<close>

definition signal_jobs_scan :: "env \<Rightarrow> int \<Rightarrow> wire_job_sig \<Rightarrow> mbd \<Rightarrow> crash + int \<times> mbd" where
  "signal_jobs_scan e uid req s =
     bindE (foldE (scan_pend e uid req) (job_lists s JOB_LIST_PEND) (0, s)) (\<lambda>(n, s1).
       foldE (scan_run e uid req) (job_lists s1 JOB_LIST_RUN) (n, s1))"

definition signal_found :: "env \<Rightarrow> int \<Rightarrow> wire_hdr \<Rightarrow> jptr \<Rightarrow> wire_job_sig \<Rightarrow> mbd \<Rightarrow> crash + bool \<times> mbd" where
  "signal_found e chan hdr p req s =
     bindE (signal_one_job e (wh_uid hdr) p req s) (\<lambda>(cc, s1).
       Inr (enqueue_header e chan BATCH_JOB_SIGNAL_ACK cc s1))"

definition jobs_signal :: "env \<Rightarrow> wire_job_sig option \<Rightarrow> int \<Rightarrow> wire_hdr \<Rightarrow> mbd \<Rightarrow> crash + bool \<times> mbd" where
  "jobs_signal e dec chan hdr s =
     (case dec of
        None \<Rightarrow> Inr (enqueue_header e chan BATCH_JOB_SIGNAL_ACK EPROTO s)
      | Some r0 \<Rightarrow>
          let req = r0\<lparr>sg_uid := wh_uid hdr\<rparr> in
          if sg_job_id req = 0 then
            bindE (signal_jobs_scan e (wh_uid hdr) req s) (\<lambda>(n, s1).
              Inr (enqueue_header e chan BATCH_JOB_SIGNAL_ACK MBD_OK s1))
          else if sg_array_index req \<noteq> 0 then
            bindE (job_find_array s (sg_job_id req) (sg_array_index req)) (\<lambda>r. case r of
                None \<Rightarrow> Inr (enqueue_header e chan BATCH_JOB_SIGNAL_ACK ESRCH s)
              | Some p \<Rightarrow> signal_found e chan hdr p (req\<lparr>sg_job_id := jd_job_id (job_heap s p)\<rparr>) s)
          else
            case job_find s (sg_job_id req) of
              None \<Rightarrow> Inr (enqueue_header e chan BATCH_JOB_SIGNAL_ACK ESRCH s)
            | Some p \<Rightarrow>
                let j = job_heap s p in
                if jd_array_id j \<noteq> 0 \<and> jd_array_id j = jd_job_id j then
                  bindE (assertE Assert_failed (jd_array_index j = jd_array_start j)) (\<lambda>_.
                  bindE (signal_array e (wh_uid hdr) p req s) (\<lambda>(n, s1).
                    if 0 < n then Inr (enqueue_header e chan BATCH_JOB_SIGNAL_ACK MBD_OK s1)
                    else signal_found e chan hdr p req s1))
                else signal_found e chan hdr p req s)"

section \<open>Moving a job to another queue\<close>

record wire_job_move =
  wm_job_id :: int
  wm_to_queue :: string

definition enter_pending :: "job_state \<Rightarrow> mbd_queue \<Rightarrow> mbd_queue" where
  "enter_pending st q =
     (let q1 = (if st = JOB_PENDING then q\<lparr>mq_num_pend := mq_num_pend q + 1\<rparr>
                else q\<lparr>mq_num_held := mq_num_held q + 1\<rparr>) in
      q1\<lparr>mq_num_jobs := mq_num_jobs q1 + 1\<rparr>)"

definition exit_pending :: "job_state \<Rightarrow> mbd_queue \<Rightarrow> mbd_queue" where
  "exit_pending st q =
     (let q1 = (if st = JOB_PENDING then q\<lparr>mq_num_pend := mq_num_pend q - 1\<rparr>
                else q\<lparr>mq_num_held := mq_num_held q - 1\<rparr>) in
      q1\<lparr>mq_num_jobs := mq_num_jobs q1 - 1\<rparr>)"

definition job_move :: "env \<Rightarrow> wire_job_move option \<Rightarrow> int \<Rightarrow> wire_hdr \<Rightarrow> mbd \<Rightarrow> crash + bool \<times> mbd" where
  "job_move e dec chan hdr s =
     (let ack = (\<lambda>st t. (True, snd (enqueue_header e chan BATCH_JOB_MOVE_ACK st t))) in
      case dec of
        None \<Rightarrow> Inr (False, s)
      | Some wm \<Rightarrow>
      (case job_find s (wm_job_id wm) of
        None \<Rightarrow> Inr (ack ESRCH s)
      | Some p \<Rightarrow>
          let j = job_heap s p; st = jd_state j in
          if st \<noteq> JOB_PENDING \<and> st \<noteq> JOB_HELD then Inr (ack EINVAL s)
          else case ll_hash_search (queue_name_hash s) (wm_to_queue wm) of
            None \<Rightarrow> Inr (ack ESRCH s)
          | Some q \<Rightarrow>
              if jd_uid j \<noteq> wh_uid hdr \<and> \<not> is_manager s (wh_uid hdr) then Inr (ack EPERM s)
              else if \<not> queue_user_allowed (queue_heap s q) (jd_user j) then Inr (ack EPERM s)
              else
                bindE (on_queue p (exit_pending st) s) (\<lambda>s1.
                bindE (event_job_move e p (mq_name (queue_heap s1 q)) s1) (\<lambda>s2.
                  let s3 = upd_queue q (enter_pending st) (upd_job p (\<lambda>j. j\<lparr>jd_queue := Some q\<rparr>) s2) in
                  bindE (mbd_assert_counters (snd (ack MBD_OK s3))) (\<lambda>s4. Inr (True, s4))))))"

section \<open>Priority\<close>

record wire_job_priority =
  wp_job_id :: int
  wp_priority :: int

definition job_priority :: "env \<Rightarrow> wire_job_priority option \<Rightarrow> int \<Rightarrow> wire_hdr \<Rightarrow> mbd \<Rightarrow> crash + bool \<times> mbd" where
  "job_priority e dec chan hdr s =
     (let ack = enqueue_header e chan BATCH_JOB_PRIORITY_ACK in
      case dec of
        None \<Rightarrow> Inr (False, s)
      | Some wp \<Rightarrow>
      (case job_find s (wp_job_id wp) of
        None \<Rightarrow> Inr (ack ESRCH s)
      | Some p \<Rightarrow>
          let j = job_heap s p; mgr = is_manager s (wh_uid hdr) in
          if jd_state j = JOB_DONE \<or> jd_state j = JOB_EXITED then Inr (ack EINVAL s)
          else if jd_uid j \<noteq> wh_uid hdr \<and> \<not> mgr then Inr (ack EPERM s)
          else bindE (if mgr then Inr False else bindE (job_queue s p) (\<lambda>q.
                 Inr (mq_priority (queue_heap s q) < wp_priority wp))) (\<lambda>high.
            if high then Inr (ack EPERM s)
            else if wp_priority wp < 0 then Inr (ack EINVAL s)
            else if jd_priority j < wp_priority wp \<and> \<not> mgr then Inr (ack EPERM s)
            else if wp_priority wp = jd_priority j then Inr (ack MBD_OK s)
            else bindE (event_job_priority e p (jd_priority j)
                (upd_job p (\<lambda>j. j\<lparr>jd_priority := wp_priority wp\<rparr>) s)) (\<lambda>s1. Inr (ack MBD_OK s1)))))"

section \<open>Pending jobs keep the invariant\<close>

lemma finish_pending_job_step:
  assumes inv: "mbd_inv s" and env: "env_ok e" and p: "p \<in> set (job_lists s JOB_LIST_PEND)"
  shows "\<exists>t. finish_pending_job e p ws s = Inr (MBD_OK, t) \<and> mbd_inv t \<and> touches p s t \<and>
    jd_state (job_heap t p) = JOB_EXITED \<and>
    job_lists t = lists_move (job_lists s) p JOB_LIST_PEND JOB_LIST_FINISH"
proof -
  let ?j = "job_heap s p" and ?now = "e_now e"
  have now: "0 < ?now" using env by (simp add: env_ok_def)
  have ok: "job_ok (queue_list s) (host_list s) ?j" by (rule inv_parts(5) [OF inv p])
  have l: "jd_list_id ?j = JOB_LIST_PEND" using inv_parts(4) [OF inv p] by simp
  have st: "jd_state ?j = JOB_PENDING \<or> jd_state ?j = JOB_HELD" using ok l by (simp add: job_ok_def)
  obtain q where q: "q \<in> set (queue_list s)" "jd_queue ?j = Some q" using job_ok_queue [OF ok] by blast
  define j1 where "j1 = ?j\<lparr>jd_signal_time := ?now, jd_end_time := ?now, jd_state := JOB_EXITED\<rparr>"
  let ?Q = "(queue_heap s)(q := leave_pending (jd_state ?j) (queue_heap s q))"
  define s2 where "s2 = s\<lparr>queue_heap := ?Q, job_heap := (job_heap s)(p := j1)\<rparr>"
  obtain hp where hp: "job_deps_release p s2 = s2\<lparr>job_heap := hp\<rparr>" and m: "\<And>x. minor (job_heap s2 x) (hp x)"
    using job_deps_refcnt_minor [of s2 p "- 1"] unfolding job_deps_release_def by (rule minor_stepE) blast
  obtain a b where hpp: "hp p = j1\<lparr>jd_dep_refcnt := a, jd_array_element_cnt := b\<rparr>"
    using m [of p] by (auto simp: s2_def elim: minorE)
  have times: "jd_signal_time (hp p) = ?now" "jd_end_time (hp p) = ?now" by (simp_all add: hpp j1_def)
  define s3 where "s3 = s2\<lparr>job_heap := hp\<rparr>"
  obtain e1 where e1: "event_job_signal p ws s3 = Inr (s3\<lparr>manifest := manifest s3 @ [e1]\<rparr>)"
    using event_ok(1) [of s3 p ws] times now by (auto simp: s3_def)
  define s4 where "s4 = s3\<lparr>manifest := manifest s3 @ [e1]\<rparr>"
  obtain e2 where e2: "event_job_finish p s4 = Inr (s4\<lparr>manifest := manifest s4 @ [e2]\<rparr>)"
    using event_ok(2) [of s4 p] times now by (auto simp: s4_def s3_def)
  define u where "u = s\<lparr>queue_heap := ?Q, manifest := manifest s @ [e1, e2],
        job_lists := lists_move (job_lists s) p JOB_LIST_PEND JOB_LIST_FINISH,
        job_heap := hp(p := (hp p)\<lparr>jd_list_id := JOB_LIST_FINISH\<rparr>)\<rparr>"
  have x: "upd_job p (\<lambda>j. j\<lparr>jd_state := JOB_EXITED\<rparr>) (upd_queue q (leave_pending (jd_state ?j))
      (upd_job p (\<lambda>j. j\<lparr>jd_signal_time := ?now, jd_end_time := ?now\<rparr>) s)) = s2"
    by (simp add: s2_def j1_def upd_job_def upd_queue_def)
  have r: "finish_pending_job e p ws s = Inr (MBD_OK, job_array_element_finished p u)"
    using q(2) p by (simp add: finish_pending_job_def Let_def on_queue_def job_queue_def x hp s3_def [symmetric]
        e1 s4_def [symmetric] e2 job_move_list_def)
      (simp add: u_def s4_def s3_def s2_def upd_job_def)
  obtain hp2 where t: "job_array_element_finished p u = u\<lparr>job_heap := hp2\<rparr>"
    and m2: "\<And>x. minor (job_heap u x) (hp2 x)"
    by (rule minor_stepE [OF job_array_element_finished_minor [of "u" p]]) blast
  let ?t = "u\<lparr>job_heap := hp2\<rparr>"
  obtain a' b' where "hp2 p = (job_heap u p)\<lparr>jd_dep_refcnt := a', jd_array_element_cnt := b'\<rparr>"
    by (rule minorE [OF m2 [of p]])
  then have jp: "hp2 p = j1\<lparr>jd_list_id := JOB_LIST_FINISH, jd_dep_refcnt := a', jd_array_element_cnt := b'\<rparr>"
    by (simp add: u_def hpp)
  have others: "minor (job_heap s x) (hp2 x)" if "x \<noteq> p" for x
    using minor_trans [OF m [of x]] m2 [of x] that by (simp add: s2_def u_def)
  have "mbd_inv ?t"
  proof (rule inv_pend_move [OF inv p, where b = JOB_LIST_FINISH])
    show "job_ok (queue_list s) (host_list s) (job_heap ?t p)"
      using ok by (auto simp: jp j1_def job_ok_def run_hosts_are_def)
    show "queues_follow p s ?t"
    proof (rule queues_follow_upd [where q = q])
      show "queue_heap ?t = (queue_heap s)(q := leave_pending (jd_state ?j) (queue_heap s q))" by (simp add: u_def)
      show "q_ctr c (leave_pending (jd_state ?j) (queue_heap s q)) =
          q_ctr c (queue_heap s q) + (q_share c (job_heap ?t p) - q_share c ?j)" for c
        using st l by (cases c) (auto simp: jp j1_def leave_pending_def Let_def)
    qed (use q(2) in \<open>simp_all add: jp j1_def leave_pending_def Let_def\<close>)
  qed (simp_all add: minor_same_load [OF others] jp j1_def fixed_parts_def u_def)
  moreover have "touches p s ?t"
    unfolding touches_def
    by (rule conjI [OF keepsI [where p = p and a = JOB_LIST_PEND and b = JOB_LIST_FINISH]])
      (use now in \<open>simp_all add: others p jp j1_def u_def array_same_def times_ok_def leave_pending_def Let_def\<close>)
  ultimately show ?thesis using r by (simp add: t jp j1_def) (simp add: u_def)
qed

text \<open>Holding and releasing a pending job.\<close>

lemma pend_flip:
  assumes inv: "mbd_inv s" and p: "p \<in> set (job_lists s JOB_LIST_PEND)" and q: "jd_queue (job_heap s p) = Some q"
    and st: "st = JOB_PENDING \<or> st = JOB_HELD"
    and t: "t = s\<lparr>job_heap := (job_heap s)(p := (job_heap s p)\<lparr>jd_state := st, jd_signal_time := w\<rparr>),
      manifest := m, queue_heap := (queue_heap s)(q := x)\<rparr>"
    and f: "mq_host_hash x = mq_host_hash (queue_heap s q)" "mq_user_hash x = mq_user_hash (queue_heap s q)"
      "\<And>c. q_ctr c x = q_ctr c (queue_heap s q) +
        (q_share c ((job_heap s p)\<lparr>jd_state := st\<rparr>) - q_share c (job_heap s p))"
  shows "mbd_inv t" and "touches p s t" and "job_lists t = job_lists s"
proof -
  show "job_lists t = job_lists s" by (simp add: t)
  have l: "jd_list_id (job_heap s p) = JOB_LIST_PEND" using inv_parts(4) [OF inv p] by simp
  have sh: "q_share c (j\<lparr>jd_state := st, jd_signal_time := w\<rparr>) = q_share c (j\<lparr>jd_state := st\<rparr>)" for c j
    by (cases c) simp_all
  show "mbd_inv t"
  proof (rule inv_pend_move [OF inv p, where b = JOB_LIST_PEND])
    show "job_ok (queue_list s) (host_list s) (job_heap t p)"
      using inv_parts(5) [OF inv p] st l by (auto simp: t job_ok_def run_hosts_are_def)
    show "queues_follow p s t"
      by (rule queues_follow_upd [where q = q and f = "\<lambda>_. x"]) (simp_all add: t q f sh)
  qed (simp_all add: t l fixed_parts_def)
  show "touches p s t" unfolding touches_def
    by (rule conjI [OF keepsI [where p = p]]) (simp_all add: t f array_same_def times_ok_def)
qed

lemma stop_pending_job_step:
  assumes inv: "mbd_inv s" and env: "env_ok e" and p: "p \<in> set (job_lists s JOB_LIST_PEND)"
  shows "\<exists>t. stop_pending_job e p ws s = Inr (MBD_OK, t) \<and> mbd_inv t \<and> touches p s t \<and> job_lists t = job_lists s"
proof (cases "jd_state (job_heap s p) = JOB_HELD")
  case True
  then show ?thesis using inv by (simp add: stop_pending_job_def)
next
  case False
  let ?j = "job_heap s p"
  have now: "0 < e_now e" using env by (simp add: env_ok_def)
  have ok: "job_ok (queue_list s) (host_list s) ?j" by (rule inv_parts(5) [OF inv p])
  have l: "jd_list_id ?j = JOB_LIST_PEND" using inv_parts(4) [OF inv p] by simp
  have st: "jd_state ?j = JOB_PENDING" using ok l False by (simp add: job_ok_def)
  obtain q where q: "jd_queue ?j = Some q" using job_ok_queue [OF ok] by blast
  define s1 where "s1 = upd_job p (\<lambda>j. j\<lparr>jd_state := JOB_HELD, jd_signal_time := e_now e\<rparr>) s"
  obtain e1 where e1: "event_job_signal p ws s1 = Inr (s1\<lparr>manifest := manifest s1 @ [e1]\<rparr>)"
    using event_ok(1) [of s1 p ws] now by (auto simp: s1_def)
  define s2 where "s2 = s1\<lparr>manifest := manifest s1 @ [e1]\<rparr>"
  obtain e2 where e2: "event_job_pend_susp e p s2 = Inr (s2\<lparr>manifest := manifest s2 @ [e2]\<rparr>)"
    using event_ok(4) [OF now] by blast
  let ?f = "\<lambda>q. q\<lparr>mq_num_pend := mq_num_pend q - 1, mq_num_held := mq_num_held q + 1\<rparr>"
  define t where "t = s\<lparr>job_heap := (job_heap s)(p := ?j\<lparr>jd_state := JOB_HELD, jd_signal_time := e_now e\<rparr>),
      manifest := manifest s @ [e1, e2], queue_heap := (queue_heap s)(q := ?f (queue_heap s q))\<rparr>"
  have "stop_pending_job e p ws s = Inr (MBD_OK, t)"
    using False q
    by (simp add: stop_pending_job_def s1_def [symmetric] e1 s2_def [symmetric] e2 on_queue_def job_queue_def)
      (simp add: t_def s2_def s1_def upd_job_def upd_queue_def)
  moreover have ctr: "q_ctr c (?f (queue_heap s q)) = q_ctr c (queue_heap s q) +
      (q_share c (?j\<lparr>jd_state := JOB_HELD\<rparr>) - q_share c ?j)" for c
    using l st by (cases c) simp_all
  have "mbd_inv t" "touches p s t" "job_lists t = job_lists s"
    using pend_flip [OF inv p q _ t_def] ctr by simp_all
  ultimately show ?thesis by blast
qed

lemma resume_pending_job_step:
  assumes inv: "mbd_inv s" and env: "env_ok e" and p: "p \<in> set (job_lists s JOB_LIST_PEND)"
  shows "\<exists>t. resume_pending_job e p ws s = Inr (MBD_OK, t) \<and> mbd_inv t \<and> touches p s t \<and> job_lists t = job_lists s"
proof (cases "jd_state (job_heap s p) \<noteq> JOB_HELD")
  case True
  then show ?thesis using inv by (simp add: resume_pending_job_def)
next
  case False
  let ?j = "job_heap s p"
  have now: "0 < e_now e" using env by (simp add: env_ok_def)
  have ok: "job_ok (queue_list s) (host_list s) ?j" by (rule inv_parts(5) [OF inv p])
  have l: "jd_list_id ?j = JOB_LIST_PEND" using inv_parts(4) [OF inv p] by simp
  have st: "jd_state ?j = JOB_HELD" using False by simp
  obtain q where q: "jd_queue ?j = Some q" using job_ok_queue [OF ok] by blast
  define s1 where "s1 = upd_job p (\<lambda>j. j\<lparr>jd_state := JOB_PENDING, jd_signal_time := e_now e\<rparr>) s"
  obtain e1 where e1: "event_job_signal p ws s1 = Inr (s1\<lparr>manifest := manifest s1 @ [e1]\<rparr>)"
    using event_ok(1) [of s1 p ws] now by (auto simp: s1_def)
  define s2 where "s2 = s1\<lparr>manifest := manifest s1 @ [e1]\<rparr>"
  obtain e2 where e2: "event_job_pend_resume e p s2 = Inr (s2\<lparr>manifest := manifest s2 @ [e2]\<rparr>)"
    using event_ok(5) [OF now] by blast
  let ?f = "\<lambda>q. q\<lparr>mq_num_held := mq_num_held q - 1, mq_num_pend := mq_num_pend q + 1\<rparr>"
  define t where "t = s\<lparr>job_heap := (job_heap s)(p := ?j\<lparr>jd_state := JOB_PENDING, jd_signal_time := e_now e\<rparr>),
      manifest := manifest s @ [e1, e2], queue_heap := (queue_heap s)(q := ?f (queue_heap s q))\<rparr>"
  have "resume_pending_job e p ws s = Inr (MBD_OK, t)"
    using False q
    by (simp add: resume_pending_job_def s1_def [symmetric] e1 s2_def [symmetric] e2 on_queue_def job_queue_def)
      (simp add: t_def s2_def s1_def upd_job_def upd_queue_def)
  moreover have ctr: "q_ctr c (?f (queue_heap s q)) = q_ctr c (queue_heap s q) +
      (q_share c (?j\<lparr>jd_state := JOB_PENDING\<rparr>) - q_share c ?j)" for c
    using l st by (cases c) simp_all
  have "mbd_inv t" "touches p s t" "job_lists t = job_lists s"
    using pend_flip [OF inv p q _ t_def] ctr by simp_all
  ultimately show ?thesis by blast
qed

lemma signal_pending_job_step:
  assumes inv: "mbd_inv s" and env: "env_ok e" and p: "p \<in> set (job_lists s JOB_LIST_PEND)"
  shows "\<exists>cc t. signal_pending_job e p ws s = Inr (cc, t) \<and> mbd_inv t \<and> touches p s t \<and>
    (\<forall>x l. x \<noteq> p \<longrightarrow> x \<in> set (job_lists t l) \<longleftrightarrow> x \<in> set (job_lists s l))"
proof -
  have "\<exists>t. finish_pending_job e p ws s = Inr (MBD_OK, t) \<and> mbd_inv t \<and> touches p s t \<and>
      (\<forall>x l. x \<noteq> p \<longrightarrow> x \<in> set (job_lists t l) \<longleftrightarrow> x \<in> set (job_lists s l))"
    using finish_pending_job_step [OF assms, of ws] lists_move_mem [OF inv_parts(1) [OF inv] p] by auto
  then show ?thesis
    using inv stop_pending_job_step [OF assms, of ws] resume_pending_job_step [OF assms, of ws]
    by (auto simp: signal_pending_job_def)
qed

section \<open>Running jobs keep the invariant\<close>

lemma inv_same_load:
  assumes inv: "mbd_inv s" and t: "t = s\<lparr>job_heap := (job_heap s)(p := j), manifest := m, outq := o'\<rparr>"
    and j: "same_load (job_heap s p) j" "array_same (job_heap s p) j"
  shows "mbd_inv t" and "touches p s t" and "job_lists t = job_lists s"
proof -
  show "job_lists t = job_lists s" by (simp add: t)
  show "mbd_inv t" by (rule inv_frame [OF inv]) (use j(1) in \<open>simp_all add: t\<close>)
  show "touches p s t" unfolding touches_def
    by (rule conjI [OF keepsI [where p = p]]) (use j(2) in \<open>simp_all add: t\<close>)
qed

lemma run_first:
  assumes "mbd_inv s" and "p \<in> set (job_lists s JOB_LIST_RUN)"
  obtains h hs where "run_hosts_are (job_heap s p) (h # hs)" and "distinct (h # hs)"
    and "set (h # hs) \<subseteq> set (host_list s)" and "run_host s p 0 = Inr h"
proof -
  have "job_ok (queue_list s) (host_list s) (job_heap s p)" "jd_list_id (job_heap s p) = JOB_LIST_RUN"
    using inv_parts(4,5) [OF assms(1,2)] by simp_all
  then obtain hs where hs: "run_hosts_are (job_heap s p) hs" "distinct hs" "hs \<noteq> []" "set hs \<subseteq> set (host_list s)"
    by (auto simp: job_ok_def)
  then obtain h hs' where c: "hs = h # hs'" by (cases hs) auto
  show ?thesis
    by (rule that [of h hs']) (use hs run_host_nth [OF hs(1), of 0] in \<open>auto simp: c\<close>)
qed

lemma signal_running_job_step:
  assumes inv: "mbd_inv s" and env: "env_ok e" and p: "p \<in> set (job_lists s JOB_LIST_RUN)"
  shows "\<exists>cc t. signal_running_job e p ws s = Inr (cc, t) \<and> mbd_inv t \<and> touches p s t \<and> job_lists t = job_lists s"
proof -
  have now: "0 < e_now e" using env by (simp add: env_ok_def)
  obtain h where h: "run_host s p 0 = Inr h" by (rule run_first [OF inv p])
  let ?c = "mh_sbd_chan (host_heap s h)"
  show ?thesis
  proof (cases "?c < 0 \<or> \<not> e_sign_ok e \<or> \<not> e_send_ok e ?c BATCH_SBD_JOB_SIGNAL")
    case True
    then show ?thesis using h inv by (auto simp: signal_running_job_def Let_def enqueue_payload_def)
  next
    case False
    let ?m = "\<lparr>msg_chan = ?c, msg_op = BATCH_SBD_JOB_SIGNAL, msg_status = MBD_OK, msg_body = Sig_body ws\<rparr>"
    define s1 where "s1 = upd_job p (\<lambda>j. j\<lparr>jd_signal_time := e_now e\<rparr>) (s\<lparr>outq := outq s @ [?m]\<rparr>)"
    obtain e1 where e1: "event_job_signal p ws s1 = Inr (s1\<lparr>manifest := manifest s1 @ [e1]\<rparr>)"
      using event_ok(1) [of s1 p ws] now by (auto simp: s1_def)
    define t where "t = s\<lparr>job_heap := (job_heap s)(p := (job_heap s p)\<lparr>jd_signal_time := e_now e\<rparr>),
        manifest := manifest s @ [e1], outq := outq s @ [?m]\<rparr>"
    have "signal_running_job e p ws s = Inr (MBD_OK, s1\<lparr>manifest := manifest s1 @ [e1]\<rparr>)"
      using False h by (simp add: signal_running_job_def Let_def enqueue_payload_def s1_def [symmetric] e1)
    moreover have "s1\<lparr>manifest := manifest s1 @ [e1]\<rparr> = t" by (simp add: s1_def t_def upd_job_def)
    moreover have "mbd_inv t" "touches p s t" "job_lists t = job_lists s"
      by (rule inv_same_load [OF inv t_def]; simp add: same_load_def array_same_def times_ok_def)+
    ultimately show ?thesis by auto
  qed
qed

lemma signal_one_job_step:
  assumes inv: "mbd_inv s" and env: "env_ok e" and p: "p \<in> set (all_jobs s)"
  shows "\<exists>cc t. signal_one_job e uid p req s = Inr (cc, t) \<and> mbd_inv t \<and> steps_by uid s t"
proof -
  note sl = state_list [OF inv p]
  have fits: "state_fits (jd_list_id (job_heap s p)) (jd_state (job_heap s p))"
    using inv p by (simp add: mbd_inv_def job_ok_def)
  let ?st = "jd_state (job_heap s p)"
  have st: "?st \<in> {JOB_PENDING, JOB_HELD, JOB_RUNNING, JOB_SUSPENDED, JOB_DONE, JOB_EXITED}"
    using fits by (cases "jd_list_id (job_heap s p)") auto
  show ?thesis
  proof (cases "?st = JOB_PENDING \<or> ?st = JOB_HELD")
    case True
    then have "p \<in> set (job_lists s JOB_LIST_PEND)" using sl(1) by simp
    then obtain cc t where "signal_pending_job e p (req\<lparr>sg_job_id := jd_job_id (job_heap s p)\<rparr>) s = Inr (cc, t)"
      "mbd_inv t" "may_change uid s p \<Longrightarrow> steps_by uid s t"
      using signal_pending_job_step [OF inv env] touches_steps_by by blast
    then show ?thesis using True inv by (auto simp: signal_one_job_def Let_def may_change_def)
  next
    case False
    show ?thesis
    proof (cases "?st = JOB_RUNNING \<or> ?st = JOB_SUSPENDED")
      case True
      then have "p \<in> set (job_lists s JOB_LIST_RUN)" using sl(2) by simp
      then obtain cc t where "signal_running_job e p (req\<lparr>sg_job_id := jd_job_id (job_heap s p)\<rparr>) s = Inr (cc, t)"
        "mbd_inv t" "may_change uid s p \<Longrightarrow> steps_by uid s t"
        using signal_running_job_step [OF inv env] touches_steps_by by blast
      then show ?thesis using True inv by (auto simp: signal_one_job_def Let_def may_change_def)
    next
      case False
      then show ?thesis using st \<open>\<not> (?st = JOB_PENDING \<or> ?st = JOB_HELD)\<close> inv
        by (auto simp: signal_one_job_def Let_def)
    qed
  qed
qed

section \<open>Signals to many jobs keep the invariant\<close>

text \<open>The range of an array fits the loops over it.\<close>

definition head_ok :: "job_data \<Rightarrow> bool" where
  "head_ok j \<longleftrightarrow> (jd_array_id j = jd_job_id j \<longrightarrow> jd_array_index j = jd_array_start j \<and> 0 < jd_array_stride j \<and>
     - 2147483648 \<le> jd_array_start j \<and> in_s32 (jd_array_end j + jd_array_stride j))"

definition arrays_ok :: "mbd \<Rightarrow> bool" where
  "arrays_ok s \<longleftrightarrow> (\<forall>p \<in> set (all_jobs s). head_ok (job_heap s p))"

lemma arrays_ok_keeps: "keeps s t \<Longrightarrow> arrays_ok t = arrays_ok s"
  by (simp add: arrays_ok_def keeps_def head_ok_def array_same_def times_ok_def)

lemma job_find_array_total:
  assumes "mbd_inv s" and "arrays_ok s"
  shows "\<exists>r. job_find_array s a i = Inr r \<and> (\<forall>p. r = Some p \<longrightarrow> p \<in> set (all_jobs s))"
proof (cases "\<exists>h. job_find s a = Some h \<and> jd_array_id (job_heap s h) = jd_job_id (job_heap s h)")
  case False
  then show ?thesis by (cases "job_find s a") (simp_all add: job_find_array_def)
next
  case True
  then obtain h where h: "job_find s a = Some h" "jd_array_id (job_heap s h) = jd_job_id (job_heap s h)" by blast
  let ?j = "job_heap s h"
  have hk: "0 < jd_array_stride ?j" "in_s32 (jd_array_end ?j + jd_array_stride ?j)" "- 2147483648 \<le> jd_array_start ?j"
    using assms(2) inv_find(1) [OF assms(1) h(1)] h(2) by (auto simp: arrays_ok_def head_ok_def)
  obtain r where r: "array_loop (find_body i (job_find s)) (jd_array_start ?j) (jd_array_end ?j) (jd_array_stride ?j)
      (jd_job_id ?j) = Inr r"
    using array_loop_total [where P = "\<lambda>_ _. True" and f = "find_body i (job_find s)", OF _ hk] by fastforce
  have "case r of Inl b \<Rightarrow> \<forall>p. b = Some p \<longrightarrow> p \<in> set (all_jobs s) | Inr _ \<Rightarrow> \<exists>k > jd_array_end ?j. True"
    by (rule array_loop_inv [OF r, where P = "\<lambda>_ _. True"])
      (use inv_find(1) [OF assms(1)] in \<open>auto split: if_splits\<close>)
  then show ?thesis using h r by (cases r) (auto simp: job_find_array_def)
qed

lemma signal_array_step:
  assumes inv: "mbd_inv s" and env: "env_ok e" and h: "head_ok (job_heap s p)"
    "jd_array_id (job_heap s p) = jd_job_id (job_heap s p)"
  shows "\<exists>n t. signal_array e uid p req s = Inr (n, t) \<and> mbd_inv t \<and> steps_by uid s t"
proof -
  let ?j = "job_heap s p" and ?f = "signal_array_element e uid req"
  let ?P = "\<lambda>(k::int) r. case r of (job_id, n, u) \<Rightarrow> mbd_inv u \<and> steps_by uid s u"
  have hk: "0 < jd_array_stride ?j" "in_s32 (jd_array_end ?j + jd_array_stride ?j)" "- 2147483648 \<le> jd_array_start ?j"
    using h by (auto simp: head_ok_def)
  have step: "\<exists>r'. ?f i r = Inr (Inr r') \<and> ?P (i + jd_array_stride ?j) r'" if P: "?P i r" for i r
  proof -
    obtain job_id n u where r: "r = (job_id, n, u)" by (cases r)
    have iu: "mbd_inv u" "steps_by uid s u" using P by (simp_all add: r)
    show ?thesis
    proof (cases "job_find u job_id")
      case None
      then show ?thesis using iu by (simp add: signal_array_element_def r)
    next
      case (Some x)
      obtain cc t where t: "signal_one_job e uid x req u = Inr (cc, t)" "mbd_inv t" "steps_by uid u t"
        using signal_one_job_step [OF iu(1) env inv_find(1) [OF iu(1) Some]] by blast
      show ?thesis
        using iu Some t(1,2) steps_by_trans [OF iu(2) t(3)] by (simp add: signal_array_element_def r Let_def)
    qed
  qed
  have start: "?P (jd_array_start ?j) (jd_job_id ?j, 0, s)" using inv by simp
  obtain r where r: "array_loop ?f (jd_array_start ?j) (jd_array_end ?j) (jd_array_stride ?j) (jd_job_id ?j, 0, s) = Inr r"
    using array_loop_total [where P = ?P and f = ?f, OF start hk] step by fastforce
  have "case r of Inl b \<Rightarrow> False | Inr r' \<Rightarrow> \<exists>k > jd_array_end ?j. ?P k r'"
  proof (rule array_loop_inv [OF r, where P = ?P])
    show "?P (jd_array_start ?j) (jd_job_id ?j, 0, s)" by (rule start)
  next
    fix i x b assume "?P i x" "?f i x = Inr (Inl b)"
    then show False using step [of x i] by force
  next
    fix i x x' assume "?P i x" "?f i x = Inr (Inr x')"
    then show "?P (i + jd_array_stride ?j) x'" using step [of x i] by force
  qed
  then show ?thesis using r by (cases r) (auto simp: signal_array_def Let_def)
qed

lemma scan_pend_step:
  assumes "mbd_inv s" and "env_ok e" and "distinct ps" and "set ps \<subseteq> set (job_lists s JOB_LIST_PEND)"
  shows "\<exists>m t. foldE (scan_pend e uid req) ps (n, s) = Inr (m, t) \<and> mbd_inv t \<and> steps_by uid s t"
  using assms
proof (induction ps arbitrary: n s)
  case Nil
  then show ?case by simp
next
  case (Cons p ps)
  have p: "p \<in> set (job_lists s JOB_LIST_PEND)" using Cons.prems(4) by simp
  have pa: "p \<in> set (all_jobs s)" using inv_parts(4) [OF Cons.prems(1) p] by simp
  have st: "jd_state (job_heap s p) = JOB_PENDING \<or> jd_state (job_heap s p) = JOB_HELD"
    using state_list(1) [OF Cons.prems(1) pa] p by simp
  obtain m t where t: "scan_pend e uid req p (n, s) = Inr (m, t)" "mbd_inv t" "steps_by uid s t"
      "set ps \<subseteq> set (job_lists t JOB_LIST_PEND)"
  proof (cases "jd_uid (job_heap s p) \<noteq> uid \<and> \<not> is_manager s uid")
    case True
    then show ?thesis
      by (intro that [of n s]) (use st Cons.prems in \<open>simp_all add: scan_pend_def res_simps Let_def\<close>)
  next
    case False
    obtain cc t where r: "signal_pending_job e p (req\<lparr>sg_job_id := jd_job_id (job_heap s p)\<rparr>) s = Inr (cc, t)"
      "mbd_inv t" "steps_by uid s t" "\<forall>x l. x \<noteq> p \<longrightarrow> x \<in> set (job_lists t l) \<longleftrightarrow> x \<in> set (job_lists s l)"
      using signal_pending_job_step [OF Cons.prems(1,2) p] touches_steps_by [of p s _ uid] False
      unfolding may_change_def by blast
    have "x \<in> set (job_lists t JOB_LIST_PEND)" if "x \<in> set ps" for x
      using r(4) [rule_format, of x JOB_LIST_PEND] that Cons.prems(3,4) by auto
    then have "set ps \<subseteq> set (job_lists t JOB_LIST_PEND)" by blast
    then show ?thesis
      by (intro that [of "n + 1" t]) (use r(1-3) False st in \<open>auto simp: scan_pend_def res_simps Let_def\<close>)
  qed
  from Cons.IH [OF t(2) Cons.prems(2) _ t(4), of m] Cons.prems(3)
  obtain m' t' where "foldE (scan_pend e uid req) ps (m, t) = Inr (m', t')" "mbd_inv t'" "steps_by uid t t'" by auto
  then show ?case using t(1) steps_by_trans [OF t(3)] by auto
qed

lemma scan_run_step:
  assumes "mbd_inv s" and "env_ok e" and "set ps \<subseteq> set (job_lists s JOB_LIST_RUN)"
  shows "\<exists>m t. foldE (scan_run e uid req) ps (n, s) = Inr (m, t) \<and> mbd_inv t \<and> steps_by uid s t"
  using assms
proof (induction ps arbitrary: n s)
  case Nil
  then show ?case by simp
next
  case (Cons p ps)
  have p: "p \<in> set (job_lists s JOB_LIST_RUN)" using Cons.prems(3) by simp
  have pa: "p \<in> set (all_jobs s)" using inv_parts(4) [OF Cons.prems(1) p] by simp
  have st: "jd_state (job_heap s p) = JOB_RUNNING \<or> jd_state (job_heap s p) = JOB_SUSPENDED"
    using state_list(2) [OF Cons.prems(1) pa] p by simp
  obtain h where h: "run_host s p 0 = Inr h" by (rule run_first [OF Cons.prems(1) p])
  obtain m t where t: "scan_run e uid req p (n, s) = Inr (m, t)" "mbd_inv t" "steps_by uid s t" "job_lists t = job_lists s"
  proof (cases "mh_sbd_chan (host_heap s h) < 0 \<or> jd_uid (job_heap s p) \<noteq> uid \<and> \<not> is_manager s uid")
    case True
    then show ?thesis
      by (intro that [of n s]) (use st h Cons.prems in \<open>auto simp: scan_run_def res_simps Let_def\<close>)
  next
    case False
    obtain cc t where r: "signal_running_job e p (req\<lparr>sg_job_id := jd_job_id (job_heap s p)\<rparr>) s = Inr (cc, t)"
      "mbd_inv t" "steps_by uid s t" "job_lists t = job_lists s"
      using signal_running_job_step [OF Cons.prems(1,2) p] touches_steps_by [of p s _ uid] False
      unfolding may_change_def by blast
    then show ?thesis
      by (intro that [of "n + 1" t]) (use False st h in \<open>auto simp: scan_run_def res_simps Let_def\<close>)
  qed
  from Cons.IH [OF t(2) Cons.prems(2), of m] Cons.prems(3) t(4)
  obtain m' t' where "foldE (scan_run e uid req) ps (m, t) = Inr (m', t')" "mbd_inv t'" "steps_by uid t t'" by auto
  then show ?case using t(1) steps_by_trans [OF t(3)] by auto
qed

lemma signal_jobs_scan_step:
  assumes "mbd_inv s" and "env_ok e"
  shows "\<exists>n t. signal_jobs_scan e uid req s = Inr (n, t) \<and> mbd_inv t \<and> steps_by uid s t"
proof -
  have "distinct (job_lists s JOB_LIST_PEND)" using inv_parts(1) [OF assms(1)] by (simp add: all_jobs_def)
  then obtain n u where u: "foldE (scan_pend e uid req) (job_lists s JOB_LIST_PEND) (0, s) = Inr (n, u)"
    "mbd_inv u" "steps_by uid s u" using scan_pend_step [OF assms] by blast
  obtain m t where "foldE (scan_run e uid req) (job_lists u JOB_LIST_RUN) (n, u) = Inr (m, t)" "mbd_inv t" "steps_by uid u t"
    using scan_run_step [OF u(2) assms(2)] by blast
  then show ?thesis using u(1) steps_by_trans [OF u(3)] by (simp add: signal_jobs_scan_def)
qed

lemma steps_by_enqueue [simp]: "steps_by uid s (snd (enqueue_header e c op st t)) = steps_by uid s t"
  "steps_by uid s (snd (enqueue_payload e c op st b t)) = steps_by uid s t"
  by (simp_all add: enqueue_header_def enqueue_payload_def steps_by_def keeps_def all_jobs_def)

lemma signal_found_step:
  assumes "mbd_inv s" and "env_ok e" and "p \<in> set (all_jobs s)"
  shows "\<exists>b t. signal_found e chan hdr p req s = Inr (b, t) \<and> mbd_inv t \<and> steps_by (wh_uid hdr) s t"
proof -
  obtain cc u where u: "signal_one_job e (wh_uid hdr) p req s = Inr (cc, u)" "mbd_inv u" "steps_by (wh_uid hdr) s u"
    using signal_one_job_step [OF assms] by blast
  let ?r = "enqueue_header e chan BATCH_JOB_SIGNAL_ACK cc u"
  show ?thesis
    by (rule exI [of _ "fst ?r"], rule exI [of _ "snd ?r"]) (use u in \<open>simp add: signal_found_def\<close>)
qed

lemma inv_pair:
  assumes "mbd_inv u" and "steps_by uid s u"
  shows "\<exists>b t. enqueue_header e chan op st u = (b, t) \<and> mbd_inv t \<and> steps_by uid s t"
  using assms by (cases "enqueue_header e chan op st u") (metis inv_enqueue(2) steps_by_enqueue(1) snd_conv)

lemma jobs_signal_step:
  assumes inv: "mbd_inv s" and env: "env_ok e" and arr: "arrays_ok s"
  shows "\<exists>b t. jobs_signal e dec chan hdr s = Inr (b, t) \<and> mbd_inv t \<and> steps_by (wh_uid hdr) s t"
proof (cases dec)
  case None
  then show ?thesis using inv_pair [OF inv steps_by_refl] by (simp add: jobs_signal_def)
next
  case (Some r0)
  let ?uid = "wh_uid hdr" and ?ack = "BATCH_JOB_SIGNAL_ACK"
  define req where "req = r0\<lparr>sg_uid := ?uid\<rparr>"
  have r: "sg_job_id req = sg_job_id r0" "sg_array_index req = sg_array_index r0" by (simp_all add: req_def)
  consider (all) "sg_job_id req = 0" | (elem) "sg_job_id req \<noteq> 0" "sg_array_index req \<noteq> 0"
    | (one) "sg_job_id req \<noteq> 0" "sg_array_index req = 0" by blast
  then show ?thesis
  proof cases
    case all
    obtain n t where t: "signal_jobs_scan e ?uid req s = Inr (n, t)" "mbd_inv t" "steps_by (wh_uid hdr) s t"
      using signal_jobs_scan_step [OF inv env] by blast
    show ?thesis
      using inv_pair [OF t(2,3)] t(1) all r by (simp add: jobs_signal_def Some Let_def req_def)
  next
    case elem
    obtain x where x: "job_find_array s (sg_job_id req) (sg_array_index req) = Inr x"
      "\<forall>p. x = Some p \<longrightarrow> p \<in> set (all_jobs s)" using job_find_array_total [OF inv arr] by blast
    show ?thesis
    proof (cases x)
      case None
      then show ?thesis
        using inv_pair [OF inv steps_by_refl] x(1) elem r by (simp add: jobs_signal_def Some Let_def)
    next
      case (Some p)
      then show ?thesis
        using signal_found_step [OF inv env, of p] x elem r
        by (simp add: jobs_signal_def \<open>dec = Some r0\<close> Let_def)
    qed
  next
    case one
    show ?thesis
    proof (cases "job_find s (sg_job_id req)")
      case None
      then show ?thesis
        using inv_pair [OF inv steps_by_refl] one r by (simp add: jobs_signal_def Some Let_def)
    next
      case p: (Some p)
      have pa: "p \<in> set (all_jobs s)" by (rule inv_find(1) [OF inv p])
      show ?thesis
      proof (cases "jd_array_id (job_heap s p) \<noteq> 0 \<and> jd_array_id (job_heap s p) = jd_job_id (job_heap s p)")
        case False
        then show ?thesis
          using signal_found_step [OF inv env pa] one r p
          by (auto simp: jobs_signal_def \<open>dec = Some r0\<close> Let_def)
      next
        case True
        have h: "head_ok (job_heap s p)" using arr pa by (simp add: arrays_ok_def)
        obtain n u where u: "signal_array e ?uid p req s = Inr (n, u)" "mbd_inv u" "steps_by (wh_uid hdr) s u"
          using signal_array_step [OF inv env h] True by blast
        have "p \<in> set (all_jobs u)" using u(3) pa by (simp add: steps_by_def keeps_def)
        from signal_found_step [OF u(2) env this, of chan hdr req]
        obtain b t where "signal_found e chan hdr p req u = Inr (b, t)" "mbd_inv t" "steps_by (wh_uid hdr) s t"
          using steps_by_trans [OF u(3)] by blast
        then show ?thesis
          using True h inv_pair [OF u(2,3), of e chan ?ack MBD_OK] one r p u(1)
          by (simp add: jobs_signal_def \<open>dec = Some r0\<close> Let_def res_simps head_ok_def req_def)
      qed
    qed
  qed
qed

section \<open>Move and priority keep the invariant\<close>

lemma exit_enter_ctr:
  "q_ctr c (exit_pending st x) = q_ctr c x - (case c of Q_jobs \<Rightarrow> 1 | Q_pend \<Rightarrow> of_bool (st = JOB_PENDING)
     | Q_held \<Rightarrow> of_bool (st \<noteq> JOB_PENDING) | _ \<Rightarrow> 0)"
  "q_ctr c (enter_pending st x) = q_ctr c x + (case c of Q_jobs \<Rightarrow> 1 | Q_pend \<Rightarrow> of_bool (st = JOB_PENDING)
     | Q_held \<Rightarrow> of_bool (st \<noteq> JOB_PENDING) | _ \<Rightarrow> 0)"
  "mq_host_hash (exit_pending st x) = mq_host_hash x" "mq_host_hash (enter_pending st x) = mq_host_hash x"
  "mq_user_hash (exit_pending st x) = mq_user_hash x" "mq_user_hash (enter_pending st x) = mq_user_hash x"
  by (cases c; simp add: exit_pending_def enter_pending_def Let_def)+

lemma move_queues:
  assumes inv: "mbd_inv s" and p: "p \<in> set (job_lists s JOB_LIST_PEND)" and q0: "jd_queue (job_heap s p) = Some q0"
    and q: "q \<in> set (queue_list s)"
    and t: "t = s\<lparr>queue_heap := ((queue_heap s)(q0 := exit_pending st (queue_heap s q0)))
        (q := enter_pending st (((queue_heap s)(q0 := exit_pending st (queue_heap s q0))) q)),
      manifest := m, job_heap := (job_heap s)(p := (job_heap s p)\<lparr>jd_queue := Some q\<rparr>), outq := o'\<rparr>"
    and st: "st = jd_state (job_heap s p)"
  shows "mbd_inv t" and "touches p s t"
proof -
  let ?j = "job_heap s p"
  have l: "jd_list_id ?j = JOB_LIST_PEND" using inv_parts(4) [OF inv p] by simp
  have s2: "jd_state ?j = JOB_PENDING \<or> jd_state ?j = JOB_HELD"
    using inv_parts(5) [OF inv p] l by (simp add: job_ok_def)
  have w: "q_weight c x ?j = (if x = q0 then (case c of Q_jobs \<Rightarrow> 1 | Q_pend \<Rightarrow> of_bool (st = JOB_PENDING)
      | Q_held \<Rightarrow> of_bool (st \<noteq> JOB_PENDING) | _ \<Rightarrow> 0) else 0)"
    "q_weight c x (?j\<lparr>jd_queue := Some q\<rparr>) = (if x = q then (case c of Q_jobs \<Rightarrow> 1 | Q_pend \<Rightarrow> of_bool (st = JOB_PENDING)
      | Q_held \<Rightarrow> of_bool (st \<noteq> JOB_PENDING) | _ \<Rightarrow> 0) else 0)" for c x
    using q0 l s2 by (cases c; auto simp: q_weight_def st)+
  show "mbd_inv t"
  proof (rule inv_pend_move [OF inv p, where b = JOB_LIST_PEND])
    show "job_ok (queue_list s) (host_list s) (job_heap t p)"
      using inv_parts(5) [OF inv p] q l by (auto simp: t job_ok_def run_hosts_are_def)
    show "queues_follow p s t"
      by (auto simp: queues_follow_def t w exit_enter_ctr)
  qed (simp_all add: t l fixed_parts_def)
  show "touches p s t" unfolding touches_def
    by (rule conjI [OF keepsI [where p = p]]) (simp_all add: t exit_enter_ctr array_same_def times_ok_def)
qed

lemma keeps_touches_enqueue [simp]:
  "touches p s (snd (enqueue_header e c op st t)) = touches p s t"
  by (simp add: enqueue_header_def enqueue_payload_def touches_def keeps_def all_jobs_def)

definition moved :: "jptr \<Rightarrow> qptr \<Rightarrow> mbd \<Rightarrow> mbd \<Rightarrow> bool" where
  "moved p q s t \<longleftrightarrow> touches p s t \<and> jd_queue (job_heap t p) = Some q \<and>
     jd_state (job_heap t p) = jd_state (job_heap s p) \<and> job_lists t = job_lists s"

lemma job_move_step:
  assumes inv: "mbd_inv s" and env: "env_ok e"
  shows "\<exists>b t. job_move e dec chan hdr s = Inr (b, t) \<and> mbd_inv t \<and> keeps s t \<and>
    (job_heap t = job_heap s \<and> queue_heap t = queue_heap s \<and> job_lists t = job_lists s \<or>
     (\<exists>wm p q. dec = Some wm \<and> job_find s (wm_job_id wm) = Some p \<and> may_change (wh_uid hdr) s p \<and>
        ll_hash_search (queue_name_hash s) (wm_to_queue wm) = Some q \<and>
        queue_user_allowed (queue_heap s q) (jd_user (job_heap s p)) \<and> moved p q s t))"
proof -
  have ack: "mbd_inv t \<and> keeps s t \<and> job_heap t = job_heap s \<and> queue_heap t = queue_heap s \<and> job_lists t = job_lists s"
    if "t = snd (enqueue_header e chan BATCH_JOB_MOVE_ACK st s)" for t st
    using inv by (simp add: that enqueue_header_def enqueue_payload_def keeps_def array_same_def all_jobs_def)
  show ?thesis
  proof (cases "\<exists>wm p q. dec = Some wm \<and> job_find s (wm_job_id wm) = Some p \<and> may_change (wh_uid hdr) s p \<and>
      ll_hash_search (queue_name_hash s) (wm_to_queue wm) = Some q \<and>
      (jd_state (job_heap s p) = JOB_PENDING \<or> jd_state (job_heap s p) = JOB_HELD) \<and>
      queue_user_allowed (queue_heap s q) (jd_user (job_heap s p))")
    case False
    then have "job_move e dec chan hdr s = Inr (False, s) \<or>
        (\<exists>st. job_move e dec chan hdr s = Inr (True, snd (enqueue_header e chan BATCH_JOB_MOVE_ACK st s)))"
      by (cases dec; cases "job_find s (wm_job_id (the dec))";
          cases "ll_hash_search (queue_name_hash s) (wm_to_queue (the dec))")
        (auto simp: job_move_def Let_def may_change_def)
    then show ?thesis using inv ack [OF refl] by auto
  next
    case True
    then obtain wm p q where d: "dec = Some wm" and p: "job_find s (wm_job_id wm) = Some p"
      and mc: "may_change (wh_uid hdr) s p" and q: "ll_hash_search (queue_name_hash s) (wm_to_queue wm) = Some q"
      and st: "jd_state (job_heap s p) = JOB_PENDING \<or> jd_state (job_heap s p) = JOB_HELD"
      and al: "queue_user_allowed (queue_heap s q) (jd_user (job_heap s p))" by blast
    let ?j = "job_heap s p" and ?st = "jd_state (job_heap s p)"
    have pp: "p \<in> set (job_lists s JOB_LIST_PEND)" using state_list(1) [OF inv inv_find(1) [OF inv p]] st by simp
    have ql: "q \<in> set (queue_list s)" using inv q by (simp add: mbd_inv_def names_ok_def)
    obtain q0 where q0: "jd_queue ?j = Some q0" using job_ok_queue [OF inv_find(4) [OF inv p]] by blast
    have now: "0 < e_now e" using env by (simp add: env_ok_def)
    define s1 where "s1 = upd_queue q0 (exit_pending ?st) s"
    obtain ev where ev: "event_job_move e p (mq_name (queue_heap s1 q)) s1 = Inr (s1\<lparr>manifest := manifest s1 @ [ev]\<rparr>)"
      using event_ok(8) [OF now, of s1 p q0] q0 by (auto simp: s1_def)
    define s3 where "s3 = upd_queue q (enter_pending ?st) (upd_job p (\<lambda>j. j\<lparr>jd_queue := Some q\<rparr>)
      (s1\<lparr>manifest := manifest s1 @ [ev]\<rparr>))"
    define t where "t = snd (enqueue_header e chan BATCH_JOB_MOVE_ACK MBD_OK s3)"
    have te: "t = s\<lparr>queue_heap := ((queue_heap s)(q0 := exit_pending ?st (queue_heap s q0)))
        (q := enter_pending ?st (((queue_heap s)(q0 := exit_pending ?st (queue_heap s q0))) q)),
      manifest := manifest s @ [ev], job_heap := (job_heap s)(p := ?j\<lparr>jd_queue := Some q\<rparr>), outq := outq t\<rparr>"
      by (simp add: t_def s3_def s1_def enqueue_header_def enqueue_payload_def upd_queue_def upd_job_def)
    note mv = move_queues [OF inv pp q0 ql te refl]
    have g: "\<not> (?st \<noteq> JOB_PENDING \<and> ?st \<noteq> JOB_HELD)"
      "\<not> (jd_uid ?j \<noteq> wh_uid hdr \<and> \<not> is_manager s (wh_uid hdr))"
      using st mc by (auto simp: may_change_def)
    have "job_move e dec chan hdr s = Inr (True, t)"
      using q0 unfolding job_move_def Let_def d
      by (simp only: option.case p q g if_False al not_True_eq_False)
        (simp add: on_queue_def job_queue_def s1_def [symmetric] ev s3_def [symmetric] t_def [symmetric]
          inv_assert_counters [OF mv(1)])
    moreover have "moved p q s t" using mv(2) by (simp add: moved_def) (subst te, simp)+
    ultimately show ?thesis using mv d p q al mc unfolding touches_def by blast
  qed
qed

lemma job_priority_step:
  assumes inv: "mbd_inv s" and env: "env_ok e"
  shows "\<exists>b t. job_priority e dec chan hdr s = Inr (b, t) \<and> mbd_inv t \<and> keeps s t \<and>
    (job_heap t = job_heap s \<or>
     (\<exists>wp p q. dec = Some wp \<and> job_find s (wp_job_id wp) = Some p \<and> jd_queue (job_heap s p) = Some q \<and>
        touches p s t \<and> job_heap t p = (job_heap s p)\<lparr>jd_priority := wp_priority wp\<rparr> \<and> 0 \<le> wp_priority wp \<and>
        (is_manager s (wh_uid hdr) \<or> jd_uid (job_heap s p) = wh_uid hdr \<and>
           wp_priority wp < jd_priority (job_heap s p) \<and> wp_priority wp \<le> mq_priority (queue_heap s q))))"
proof -
  let ?ack = "\<lambda>st u. enqueue_header e chan BATCH_JOB_PRIORITY_ACK st u"
  have ack: "\<exists>b t. ?ack st s = (b, t) \<and> mbd_inv t \<and> keeps s t \<and> job_heap t = job_heap s" for st
    using inv by (cases "?ack st s")
      (auto simp: enqueue_header_def enqueue_payload_def keeps_def array_same_def all_jobs_def split: if_splits)
  show ?thesis
  proof (cases "\<exists>wp p. dec = Some wp \<and> job_find s (wp_job_id wp) = Some p")
    case False
    then show ?thesis using ack inv by (cases dec) (auto simp: job_priority_def)
  next
    case True
    then obtain wp p where d: "dec = Some wp" and p: "job_find s (wp_job_id wp) = Some p" by blast
    let ?j = "job_heap s p" and ?n = "wp_priority wp" and ?mgr = "is_manager s (wh_uid hdr)"
    obtain q where q: "jd_queue ?j = Some q" using job_ok_queue [OF inv_find(4) [OF inv p]] by blast
    have now: "0 < e_now e" using env by (simp add: env_ok_def)
    define s1 where "s1 = upd_job p (\<lambda>j. j\<lparr>jd_priority := ?n\<rparr>) s"
    obtain ev where ev: "event_job_priority e p (jd_priority ?j) s1 = Inr (s1\<lparr>manifest := manifest s1 @ [ev]\<rparr>)"
      using event_ok(7) [OF now] by blast
    define u where "u = s1\<lparr>manifest := manifest s1 @ [ev]\<rparr>"
    have ue: "u = s\<lparr>job_heap := (job_heap s)(p := ?j\<lparr>jd_priority := ?n\<rparr>), manifest := manifest s @ [ev], outq := outq s\<rparr>"
      by (simp add: u_def s1_def upd_job_def)
    have u: "mbd_inv u" "touches p s u"
      by (rule inv_same_load [OF inv ue]; simp add: same_load_def array_same_def times_ok_def)+
    define ok where "ok \<longleftrightarrow> \<not> (jd_state ?j = JOB_DONE \<or> jd_state ?j = JOB_EXITED) \<and> (jd_uid ?j = wh_uid hdr \<or> ?mgr) \<and>
      (?mgr \<or> ?n \<le> mq_priority (queue_heap s q)) \<and> 0 \<le> ?n \<and> (?mgr \<or> ?n \<le> jd_priority ?j) \<and> ?n \<noteq> jd_priority ?j"
    show ?thesis
    proof (cases ok)
      case False
      then have "\<exists>st. job_priority e dec chan hdr s = Inr (?ack st s)"
        using d p q
        by (cases ?mgr; cases "jd_state ?j = JOB_DONE \<or> jd_state ?j = JOB_EXITED"; cases "jd_uid ?j = wh_uid hdr")
          (auto simp: job_priority_def Let_def job_queue_def ok_def)
      then obtain st where r: "job_priority e dec chan hdr s = Inr (?ack st s)" by blast
      obtain b t where "?ack st s = (b, t)" "mbd_inv t" "keeps s t" "job_heap t = job_heap s" using ack by blast
      then show ?thesis using r by auto
    next
      case True
      then have "job_priority e dec chan hdr s = Inr (?ack MBD_OK u)"
        using d p q by (auto simp: job_priority_def Let_def job_queue_def ok_def s1_def [symmetric] ev u_def)
      moreover have "touches p s (snd (?ack MBD_OK u))" "mbd_inv (snd (?ack MBD_OK u))" using u by simp_all
      moreover have "job_heap (snd (?ack MBD_OK u)) p = ?j\<lparr>jd_priority := ?n\<rparr>"
        by (simp add: enqueue_header_def enqueue_payload_def ue)
      moreover have "keeps s (snd (?ack MBD_OK u))" using calculation(2) by (simp add: touches_def)
      ultimately show ?thesis
        using True d p q by (cases "?ack MBD_OK u") (auto simp: ok_def)
    qed
  qed
qed

section \<open>Properties\<close>


lemma ex_arrays_ok: "arrays_ok ex_mbd"
  by (simp add: arrays_ok_def head_ok_def ex_defs)

lemma ex_env_ok: "env_ok ex_env"
  by (simp add: env_ok_def ex_env_def)


text \<open>
  C5. Killing a pending job ends it: for SIGTERM, SIGINT and SIGKILL the job goes to
  the end of the finished list in state EXIT, no other job moves or changes but for
  the counts kept for other jobs, and the counters stay right.
\<close>

theorem kill_pending_finishes:
  assumes "mbd_inv s" and "env_ok e" and "p \<in> set (job_lists s JOB_LIST_PEND)"
    and "sg_sig ws \<in> {SIGTERM, SIGINT, SIGKILL}"
  shows "\<exists>t. signal_pending_job e p ws s = Inr (MBD_OK, t) \<and> mbd_inv t \<and>
    jd_state (job_heap t p) = JOB_EXITED \<and>
    job_lists t = lists_move (job_lists s) p JOB_LIST_PEND JOB_LIST_FINISH \<and>
    (\<forall>x. x \<noteq> p \<longrightarrow> minor (job_heap s x) (job_heap t x))"
  using finish_pending_job_step [OF assms(1-3), of ws] assms(4)
  by (auto simp: signal_pending_job_def touches_def)

theorem kill_pending_finishes_witness:
  "\<exists>t. signal_pending_job ex_env 0 \<lparr>sg_job_id = 1, sg_array_index = 0, sg_sig = 9, sg_uid = 1000\<rparr> ex_mbd =
    Inr (MBD_OK, t) \<and> mbd_inv t \<and> jd_state (job_heap t 0) = JOB_EXITED \<and>
    job_lists t JOB_LIST_PEND = [] \<and> job_lists t JOB_LIST_FINISH = [2, 0]"
  using kill_pending_finishes [OF ex_mbd_inv ex_env_ok,
      of 0 "\<lparr>sg_job_id = 1, sg_array_index = 0, sg_sig = 9, sg_uid = 1000\<rparr>"]
  by (auto simp: SIGKILL_def lists_move_def Let_def)

text \<open>
  C6. A move either changes nothing but the answer, or puts exactly the named job,
  pending or held as before, under the counters of the named queue, for its owner
  or a manager and only when the queue admits the job's user. The cross check of
  the counters that ends the handler passes.
\<close>

theorem job_move_correct:
  assumes "mbd_inv s" and "env_ok e"
  shows "\<exists>b t. job_move e dec chan hdr s = Inr (b, t) \<and> mbd_inv t \<and>
    (job_heap t = job_heap s \<and> queue_heap t = queue_heap s \<and> job_lists t = job_lists s \<or>
     (\<exists>wm p q. dec = Some wm \<and> job_find s (wm_job_id wm) = Some p \<and> may_change (wh_uid hdr) s p \<and>
        ll_hash_search (queue_name_hash s) (wm_to_queue wm) = Some q \<and>
        queue_user_allowed (queue_heap s q) (jd_user (job_heap s p)) \<and> moved p q s t))"
  using job_move_step [OF assms] by blast

theorem job_move_correct_witness:
  "\<exists>b t. job_move ex_env (Some \<lparr>wm_job_id = 1, wm_to_queue = ''normal''\<rparr>) 9 ex_hdr ex_mbd = Inr (b, t) \<and> mbd_inv t"
  using job_move_correct [OF ex_mbd_inv ex_env_ok, of "Some \<lparr>wm_job_id = 1, wm_to_queue = ''normal''\<rparr>" 9 ex_hdr]
  by blast



end
