(* ===== verification/Mbd_Files.thy ===== *)
theory Mbd_Files
  imports Mbd_Register
begin

text \<open>
  The files of a job read back for its dispatch (\<open>read_sidecar\<close>, \<open>read_script\<close> of
  \<open>src/batch/mbd/sbd.c\<close>) and the strings built for the execution daemon
  (\<open>build_hosts_str\<close>, \<open>build_gpu_assigned_str\<close>). The main result is that the fields
  of a submit request come back from the sidecar file; the mode mask does not.
\<close>

declare fmt_oct.simps [simp del]

section \<open>Sidecar file\<close>

definition starts_with :: "string \<Rightarrow> string \<Rightarrow> bool" where
  "starts_with pre line \<longleftrightarrow> take (length pre) line = pre"

definition sidecar_line :: "env \<Rightarrow> string \<Rightarrow> wire_job_start \<Rightarrow> wire_job_start" where
  "sidecar_line e line ws =
     (if starts_with ''IN_FILE='' line then ws\<lparr>wt_in_file := cfield 4096 (drop 8 line)\<rparr>
      else if starts_with ''OUT_FILE='' line then ws\<lparr>wt_out_file := cfield 4096 (drop 9 line)\<rparr>
      else if starts_with ''ERR_FILE='' line then ws\<lparr>wt_err_file := cfield 4096 (drop 9 line)\<rparr>
      else if starts_with ''HOME_DIR='' line then ws\<lparr>wt_home_dir := cfield 4096 (drop 9 line)\<rparr>
      else if starts_with ''UMASK='' line then
        ws\<lparr>wt_umask := word_of_int (case ll_atoi (drop 6 line) of Some u \<Rightarrow> u | None \<Rightarrow> e_garbage e)\<rparr>
      else if starts_with ''CWD='' line then ws\<lparr>wt_cwd := cfield 4096 (drop 4 line)\<rparr>
      else if starts_with ''COMMAND='' line then ws\<lparr>wt_command := cfield 512 (drop 8 line)\<rparr>
      else ws)"

text \<open>The buffer of a line has \<^verbatim>\<open>PATH_MAX + 16\<close> bytes.\<close>

function read_sidecar_loop :: "env \<Rightarrow> string \<Rightarrow> wire_job_start \<Rightarrow> wire_job_start" where
  "read_sidecar_loop e fp ws =
     (case fgets 4112 fp of
        None \<Rightarrow> ws
      | Some (line, fp') \<Rightarrow> read_sidecar_loop e fp' (sidecar_line e (takeWhile (\<lambda>c. c \<noteq> CHR 0x0A) line) ws))"
  by pat_completeness auto

termination
  by (relation "measure (\<lambda>(e, fp, ws). length fp)") (auto dest: fgets_shorter)

declare read_sidecar_loop.simps [simp del]

text \<open>The cleared start message \<open>mbd_dispatch_job\<close> begins with.\<close>

definition zero_start :: wire_job_start where
  "zero_start = \<lparr>wt_job_id = 0, wt_uid = 0, wt_gid = 0, wt_umask = 0, wt_job_name = [], wt_queue = [], wt_username = [],
     wt_home_dir = [], wt_cwd = [], wt_command = [], wt_in_file = [], wt_out_file = [], wt_err_file = [],
     wt_hosts = [], wt_term_time = 0, wt_gpus_per_host = 0, wt_ncpus = 0, wt_mem_mb = 0, wt_gpu_model = [],
     wt_gpu_assigned = [], wt_script = []\<rparr>"

definition read_sidecar :: "env \<Rightarrow> int \<Rightarrow> wire_job_start \<Rightarrow> mbd \<Rightarrow> wire_job_start option" where
  "read_sidecar e job_id ws s =
     (if \<not> e_read_ok e job_id then None
      else map_option (\<lambda>fp. read_sidecar_loop e fp ws) (submit_files s job_id))"

definition read_script :: "env \<Rightarrow> int \<Rightarrow> mbd \<Rightarrow> string option" where
  "read_script e job_id s =
     (case script_files s job_id of
        None \<Rightarrow> None
      | Some data \<Rightarrow> if data = [] then None else if \<not> e_read_ok e job_id then None else Some data)"

section \<open>Strings for the execution daemon\<close>

definition host_entry :: "mbd \<Rightarrow> jptr \<Rightarrow> nat \<Rightarrow> string \<Rightarrow> crash + string" where
  "host_entry s p i buf =
     bindE (run_host s p i) (\<lambda>h.
       Inr (fst (ll_strlcat buf
         (cfield 80 ((if 0 < i then '','' else []) @ mh_name (host_heap s h) @ '':'' @
            fmt_ld (jr_num_cpus (jd_res (job_heap s p))))) 8192)))"

definition build_hosts_str :: "mbd \<Rightarrow> jptr \<Rightarrow> crash + string" where
  "build_hosts_str s p = foldE (host_entry s p) [0..<nat (jd_run_nhosts (job_heap s p))] []"

text \<open>The devices that are free are taken in order until the number asked for is reached.\<close>

fun assign_gpus :: "int \<Rightarrow> int \<Rightarrow> gpu_id list \<Rightarrow> string \<Rightarrow> gpu_id list \<times> string" where
  "assign_gpus n assigned [] buf = ([], buf)"
| "assign_gpus n assigned (d # ds) buf =
     (if gi_in_use d then (let (r, b) = assign_gpus n assigned ds buf in (d # r, b))
      else
        let b1 = (if 0 < assigned then fst (ll_strlcat buf '','' 64) else buf);
            b2 = fst (ll_strlcat b1 (cfield 16 (fmt_ld (gi_id d))) 64) in
        if assigned + 1 = n then (mark_gpu True d # ds, b2)
        else let (r, b) = assign_gpus n (assigned + 1) ds b2 in (mark_gpu True d # r, b))"

definition build_gpu_assigned_str :: "mbd_gpu \<Rightarrow> int \<Rightarrow> crash + mbd_gpu \<times> string" where
  "build_gpu_assigned_str g num_gpus =
     bindE (assertE Assert_failed (num_gpus \<le> int (length (gp_ids g)))) (\<lambda>_.
       let (ids, buf) = assign_gpus num_gpus 0 (gp_ids g) [] in Inr (g\<lparr>gp_ids := ids\<rparr>, buf))"

section \<open>Reading back a sidecar file\<close>

lemma loop_line:
  assumes "\<forall>c \<in> set l. c \<noteq> CHR 0x0A" and "length l < 4111"
  shows "read_sidecar_loop e (l @ newline @ r) ws = read_sidecar_loop e r (sidecar_line e l ws)"
proof -
  have "fgets 4112 (l @ newline @ r) = Some (l @ newline, r)"
    by (rule fgets_line) (use assms in auto)
  moreover have "takeWhile (\<lambda>c. c \<noteq> CHR 0x0A) (l @ newline) = l"
    using assms(1) by (simp add: newline_def takeWhile_append)
  ultimately show ?thesis by (subst read_sidecar_loop.simps) simp
qed

lemma loop_end: "read_sidecar_loop e [] ws = ws"
  by (subst read_sidecar_loop.simps) (simp add: fgets_def)

text \<open>One line of the file as it is written.\<close>

definition plain :: "string \<Rightarrow> bool" where
  "plain v \<longleftrightarrow> (\<forall>c \<in> set v. c \<noteq> CHR 0x0A) \<and> length v < 4096"

lemma loop_kv:
  assumes "plain v" and "(\<forall>c \<in> set k. c \<noteq> CHR 0x0A) \<and> length k \<le> 12"
  shows "read_sidecar_loop e (kv_line k v @ r) ws = read_sidecar_loop e r (sidecar_line e (k @ ''='' @ v) ws)"
  using loop_line [of "k @ ''='' @ v" e r ws] assms by (auto simp: kv_line_def plain_def)

lemma fmt_nat_length: "n < 10 ^ k \<Longrightarrow> 0 < k \<Longrightarrow> length (fmt_nat n) \<le> k"
proof (induction n arbitrary: k rule: fmt_nat.induct)
  case (1 n)
  show ?case
  proof (cases "n < 10")
    case True
    then show ?thesis using "1.prems"(2) by (subst fmt_nat.simps) simp
  next
    case False
    then obtain m where m: "k = Suc m" "0 < m" using "1.prems" by (cases k; cases "k - 1") auto
    then have "n div 10 < 10 ^ m" using "1.prems"(1) by (simp add: less_mult_imp_div_less mult.commute)
    from "1.IH" [OF False this m(2)] False show ?thesis by (subst fmt_nat.simps) (simp add: m(1))
  qed
qed

lemma fmt_oct_digits: "c \<in> set (fmt_oct n) \<Longrightarrow> isdigit c"
proof (induction n rule: fmt_oct.induct)
  case (1 n)
  show ?case
  proof (cases "n < 8")
    case True
    then show ?thesis using "1.prems" by (subst (asm) fmt_oct.simps) simp
  next
    case False
    then have "c \<in> set (fmt_oct (n div 8)) \<or> c = digit_char (n mod 8)"
      using "1.prems" False by (subst (asm) fmt_oct.simps) auto
    then show ?thesis using "1.IH" [OF False] by (auto simp: mod_less_divisor less_le_trans)
  qed
qed

lemma fmt_oct_length: "n < 8 ^ k \<Longrightarrow> 0 < k \<Longrightarrow> length (fmt_oct n) \<le> k"
proof (induction n arbitrary: k rule: fmt_oct.induct)
  case (1 n)
  show ?case
  proof (cases "n < 8")
    case True
    then show ?thesis using "1.prems"(2) by (subst fmt_oct.simps) simp
  next
    case False
    then obtain m where m: "k = Suc m" "0 < m" using "1.prems" by (cases k; cases "k - 1") auto
    then have "n div 8 < 8 ^ m" using "1.prems"(1) by (simp add: less_mult_imp_div_less mult.commute)
    from "1.IH" [OF False this m(2)] False show ?thesis by (subst fmt_oct.simps) (simp add: m(1))
  qed
qed

lemma plain_fmt_ld:
  assumes "- 18446744073709551616 < i" and "i < 18446744073709551616"
  shows "plain (fmt_ld i)"
proof -
  have "length (fmt_nat n) \<le> 20" if "n < 18446744073709551616" for n
    by (rule fmt_nat_length) (use that in simp_all)
  then have "length (fmt_nat (nat i)) \<le> 20" "length (fmt_nat (nat (- i))) \<le> 20" using assms by simp_all
  then have "length (fmt_ld i) \<le> 21" by (simp add: fmt_ld_def)
  moreover have "c \<noteq> CHR 0x0A" if "c \<in> set (fmt_ld i)" for c
    using set_fmt_ld [OF that] by (auto simp: isdigit_def)
  ultimately show ?thesis by (auto simp: plain_def)
qed

lemma plain_word: "plain (fmt_ld (uint (w :: u64)))" "plain (fmt_ld (uint (v :: u32)))"
proof -
  have "- 18446744073709551616 < uint w" "- 18446744073709551616 < uint v"
    by (rule less_le_trans [OF _ uint_ge_0], simp)+
  then show "plain (fmt_ld (uint w))" "plain (fmt_ld (uint v))"
    using uint_lt2p [of w] uint_lt2p [of v] by (simp_all add: plain_fmt_ld)
qed

lemma plain_oct: "plain (fmt_oct (unat (w :: u32)))"
proof -
  have "unat w < 8 ^ 11" using unsigned_less [of w, where ?'a = nat] by simp
  then have "length (fmt_oct (unat w)) \<le> 11" by (intro fmt_oct_length) simp_all
  moreover have "c \<noteq> CHR 0x0A" if "c \<in> set (fmt_oct (unat w))" for c
    using fmt_oct_digits [OF that] by (auto simp: isdigit_def)
  ultimately show ?thesis by (auto simp: plain_def)
qed

text \<open>A request whose strings fit their fields and hold no newline, and numbers of their type.\<close>

definition submit_plain :: "job_data \<Rightarrow> wire_job_submit \<Rightarrow> bool" where
  "submit_plain j ws \<longleftrightarrow>
     list_all plain [ws_username ws, ws_name ws, ws_queue ws, ws_project ws, ws_submit_host ws, ws_home_dir ws,
       ws_cwd ws, ws_command ws, ws_in_file ws, ws_out_file ws, ws_err_file ws, ws_depend_cond ws, ws_machines ws,
       ws_gpu_model ws, ws_comment ws, ws_tokenpool ws] \<and>
     list_all in_s64 [jd_job_id j, jd_uid j, jd_gid j, ws_num_cpus ws, ws_num_hosts ws, ws_num_gpus ws,
       ws_begin_time ws, ws_term_time ws]"

lemma plain_s64: "in_s64 i \<Longrightarrow> plain (fmt_ld i)"
  by (rule plain_fmt_ld) (auto simp: in_s64_def)

lemma sidecar_other:
  "sidecar_line e (''JOB_ID'' @ ''='' @ v) ws = ws" "sidecar_line e (''UID'' @ ''='' @ v) ws = ws"
  "sidecar_line e (''GID'' @ ''='' @ v) ws = ws" "sidecar_line e (''USERNAME'' @ ''='' @ v) ws = ws"
  "sidecar_line e (''NAME'' @ ''='' @ v) ws = ws" "sidecar_line e (''QUEUE'' @ ''='' @ v) ws = ws"
  "sidecar_line e (''PROJECT'' @ ''='' @ v) ws = ws" "sidecar_line e (''SUBMIT_HOST'' @ ''='' @ v) ws = ws"
  "sidecar_line e (''NUM_CPUS'' @ ''='' @ v) ws = ws" "sidecar_line e (''NUM_NHOSTS'' @ ''='' @ v) ws = ws"
  "sidecar_line e (''NUM_GPUS'' @ ''='' @ v) ws = ws" "sidecar_line e (''MEM_MB'' @ ''='' @ v) ws = ws"
  "sidecar_line e (''FLAGS'' @ ''='' @ v) ws = ws" "sidecar_line e (''BEGIN_TIME'' @ ''='' @ v) ws = ws"
  "sidecar_line e (''TERM_TIME'' @ ''='' @ v) ws = ws" "sidecar_line e (''DEPEND_COND'' @ ''='' @ v) ws = ws"
  "sidecar_line e (''MACHINES'' @ ''='' @ v) ws = ws" "sidecar_line e (''GPU_MODEL'' @ ''='' @ v) ws = ws"
  "sidecar_line e (''COMMENT'' @ ''='' @ v) ws = ws" "sidecar_line e (''TOKENPOOL'' @ ''='' @ v) ws = ws"
  by (simp_all add: sidecar_line_def starts_with_def)

lemma sidecar_keys:
  "sidecar_line e (''IN_FILE'' @ ''='' @ v) ws = ws\<lparr>wt_in_file := cfield 4096 v\<rparr>"
  "sidecar_line e (''OUT_FILE'' @ ''='' @ v) ws = ws\<lparr>wt_out_file := cfield 4096 v\<rparr>"
  "sidecar_line e (''ERR_FILE'' @ ''='' @ v) ws = ws\<lparr>wt_err_file := cfield 4096 v\<rparr>"
  "sidecar_line e (''HOME_DIR'' @ ''='' @ v) ws = ws\<lparr>wt_home_dir := cfield 4096 v\<rparr>"
  "sidecar_line e (''UMASK'' @ ''='' @ v) ws =
     ws\<lparr>wt_umask := word_of_int (case ll_atoi v of Some u \<Rightarrow> u | None \<Rightarrow> e_garbage e)\<rparr>"
  "sidecar_line e (''CWD'' @ ''='' @ v) ws = ws\<lparr>wt_cwd := cfield 4096 v\<rparr>"
  "sidecar_line e (''COMMAND'' @ ''='' @ v) ws = ws\<lparr>wt_command := cfield 512 v\<rparr>"
  by (simp_all add: sidecar_line_def starts_with_def)

lemma sidecar_read_back:
  assumes "submit_plain j ws"
  shows "read_sidecar_loop e (sidecar_text j ws) w =
    w\<lparr>wt_home_dir := ws_home_dir ws, wt_cwd := ws_cwd ws, wt_command := cfield 512 (ws_command ws),
      wt_in_file := ws_in_file ws, wt_out_file := ws_out_file ws, wt_err_file := ws_err_file ws,
      wt_umask := word_of_int (case ll_atoi (fmt_oct (unat (ws_umask ws))) of Some u \<Rightarrow> u | None \<Rightarrow> e_garbage e)\<rparr>"
proof -
  note p = assms [unfolded submit_plain_def list.pred_inject conj_assoc]
  have c: "plain v \<Longrightarrow> cfield 4096 v = v" for v by (simp add: plain_def cfield_take)
  have k: "read_sidecar_loop e (kv_line k v) u = sidecar_line e (k @ ''='' @ v) u"
    if "plain v" "(\<forall>c \<in> set k. c \<noteq> CHR 0x0A) \<and> length k \<le> 12" for k v u
    using loop_kv [OF that, of e "[]" u] by (simp add: loop_end)
  show ?thesis
    unfolding sidecar_text_def append_assoc
    using p by (simp add: loop_kv k plain_s64 plain_word plain_oct sidecar_other sidecar_keys c
        del: append.simps)
qed

section \<open>Assigning devices\<close>

lemma assign_gpus_count:
  assumes "0 < n - k" and "n - k \<le> int (length (filter (\<lambda>d. \<not> gi_in_use d) ds))"
  shows "int (length (filter (\<lambda>d. \<not> gi_in_use d) (fst (assign_gpus n k ds buf)))) =
      int (length (filter (\<lambda>d. \<not> gi_in_use d) ds)) - (n - k)"
    and "length (fst (assign_gpus n k ds buf)) = length ds"
    and "i < length ds \<Longrightarrow> gi_id (fst (assign_gpus n k ds buf) ! i) = gi_id (ds ! i) \<and>
      (gi_in_use (ds ! i) \<longrightarrow> gi_in_use (fst (assign_gpus n k ds buf) ! i))"
proof -
  have "int (length (filter (\<lambda>d. \<not> gi_in_use d) (fst (assign_gpus n k ds buf)))) =
      int (length (filter (\<lambda>d. \<not> gi_in_use d) ds)) - (n - k) \<and>
    length (fst (assign_gpus n k ds buf)) = length ds \<and>
    (\<forall>i < length ds. gi_id (fst (assign_gpus n k ds buf) ! i) = gi_id (ds ! i) \<and>
      (gi_in_use (ds ! i) \<longrightarrow> gi_in_use (fst (assign_gpus n k ds buf) ! i)))"
    using assms
  proof (induction n k ds buf rule: assign_gpus.induct)
    case (1 n k buf)
    then show ?case by simp
  next
    case (2 n k d ds buf)
    show ?case
    proof (cases "gi_in_use d")
      case True
      then show ?thesis using "2.IH"(1) "2.prems" by (auto simp: case_prod_beta nth_Cons split: nat.splits)
    next
      case False
      let ?b = "if 0 < k then fst (ll_strlcat buf '','' 64) else buf"
      let ?b2 = "fst (ll_strlcat ?b (cfield 16 (fmt_ld (gi_id d))) 64)"
      show ?thesis
      proof (cases "k + 1 = n")
        case True
        then show ?thesis using False by (auto simp: Let_def mark_gpu_def nth_Cons split: nat.splits)
      next
        case neq: False
        then have "0 < n - (k + 1)" "n - (k + 1) \<le> int (length (filter (\<lambda>d. \<not> gi_in_use d) ds))"
          using "2.prems" False by simp_all
        from "2.IH"(2) [OF False refl refl neq this] False neq show ?thesis
          by (auto simp: Let_def case_prod_beta mark_gpu_def nth_Cons split: nat.splits)
      qed
    qed
  qed
  then show "int (length (filter (\<lambda>d. \<not> gi_in_use d) (fst (assign_gpus n k ds buf)))) =
      int (length (filter (\<lambda>d. \<not> gi_in_use d) ds)) - (n - k)"
    "length (fst (assign_gpus n k ds buf)) = length ds"
    "i < length ds \<Longrightarrow> gi_id (fst (assign_gpus n k ds buf) ! i) = gi_id (ds ! i) \<and>
      (gi_in_use (ds ! i) \<longrightarrow> gi_in_use (fst (assign_gpus n k ds buf) ! i))" by auto
qed

section \<open>Properties\<close>



text \<open>
  C33. The mode mask does not survive: it is written in octal and read as a decimal
  number, so that a job submitted under mask 022 is started under mask 026.
\<close>

theorem umask_not_restored:
  "ws_umask ex_ws = 18 \<and> wt_umask (read_sidecar_loop e (sidecar_text ex_pend ex_ws) w) = 22"
proof -
  have p: "submit_plain ex_pend ex_ws"
    by (simp add: submit_plain_def plain_def ex_ws_def ex_pend_def ex_job_def in_s64_def zero_job_def)
  have "fmt_oct 18 = fmt_ld 22"
    by (simp add: fmt_oct.simps fmt_nat.simps fmt_ld_def)
  then have "ll_atoi (fmt_oct 18) = Some 22" by (simp add: ll_atoi_fmt_ld in_s32_def)
  then show ?thesis by (simp add: sidecar_read_back [OF p]) (simp add: ex_ws_def)
qed


definition ex_gpu :: mbd_gpu where
  "ex_gpu = \<lparr>gp_model = ''a100'', gp_gpu_ids = ''0,1'',
     gp_ids = [\<lparr>gi_id = 0, gi_in_use = False\<rparr>, \<lparr>gi_id = 1, gi_in_use = False\<rparr>]\<rparr>"


text \<open>
  C34. Releasing devices looks at the first ones of the host, not at the ones the job
  holds: when two jobs with one device each run on a host with two devices, the
  second release fails its assertion and ends the daemon.
\<close>

theorem gpu_release_aborts:
  "bindE (build_gpu_assigned_str ex_gpu 1) (\<lambda>(g1, _).
   bindE (build_gpu_assigned_str g1 1) (\<lambda>(g2, _).
   bindE (gpu_ids_mark_free g2 1) (\<lambda>g3. gpu_ids_mark_free g3 1))) = Inl Assert_failed"
  by (simp add: ex_gpu_def build_gpu_assigned_str_def gpu_ids_mark_free_def res_simps Let_def mark_gpu_def
      case_prod_beta)

end
