(* ===== verification/Mbd_Sched.thy ===== *)
theory Mbd_Sched
  imports Mbd_Files Mbd_Signal
begin

text \<open>
  The scheduler (\<open>src/batch/mbd/sched.c\<close>) and the dispatch of a job to its first
  host (\<open>mbd_dispatch_job\<close> of \<open>src/batch/mbd/sbd.c\<close>): the order of the pending jobs,
  the choice of hosts, the start message, and the charging of hosts, queues and
  token pools. The main result is that a scheduling round cannot fail and keeps the
  invariant, so no host is ever given more than it has.
\<close>

section \<open>Order of the pending jobs\<close>

text \<open>The differences are \<open>int\<close> values: they wrap at the width of the type.\<close>

definition queue_priority :: "mbd \<Rightarrow> jptr \<Rightarrow> int" where
  "queue_priority s p = (case jd_queue (job_heap s p) of Some q \<Rightarrow> mq_priority (queue_heap s q) | None \<Rightarrow> 0)"

definition pend_job_cmp :: "mbd \<Rightarrow> jptr \<Rightarrow> jptr \<Rightarrow> int" where
  "pend_job_cmp s a b =
     (let ja = job_heap s a; jb = job_heap s b;
          r1 = s32 (queue_priority s b - queue_priority s a);
          r2 = s32 (jd_priority jb - jd_priority ja) in
      if r1 \<noteq> 0 then r1
      else if r2 \<noteq> 0 then r2
      else if jd_job_id ja < jd_job_id jb then - 1
      else if jd_job_id jb < jd_job_id ja then 1
      else 0)"

definition host_plan_cmp :: "mbd \<Rightarrow> hptr \<Rightarrow> hptr \<Rightarrow> int" where
  "host_plan_cmp s a b = s32 (mh_free_cpu (host_heap s a) - mh_free_cpu (host_heap s b))"

section \<open>Candidates\<close>

definition is_candidate :: "mbd_host \<Rightarrow> bool" where
  "is_candidate h \<longleftrightarrow> mh_state h = HOST_OK \<and> 0 \<le> mh_sbd_chan h \<and> 0 < mh_free_cpu h"

definition mark_candidate :: "hptr \<Rightarrow> int \<times> mbd \<Rightarrow> int \<times> mbd" where
  "mark_candidate h r =
     (case r of (free_slots, s) \<Rightarrow>
      let ok = is_candidate (host_heap s h) in
      (if ok then free_slots + mh_free_cpu (host_heap s h) else free_slots,
       upd_host h (\<lambda>x. x\<lparr>mh_candidate := ok\<rparr>) s))"

definition mark_candidates :: "mbd \<Rightarrow> int \<times> mbd" where
  "mark_candidates s = fold mark_candidate (host_list s) (0, s)"

definition job_is_ready :: "env \<Rightarrow> job_data \<Rightarrow> bool" where
  "job_is_ready e j \<longleftrightarrow>
     jd_state j = JOB_PENDING \<and> \<not> (0 < jd_begin_time j \<and> e_now e < jd_begin_time j)"

definition host_in_queue_group :: "mbd \<Rightarrow> qptr \<Rightarrow> hptr \<Rightarrow> bool" where
  "host_in_queue_group s q h \<longleftrightarrow> ll_hash_contains (mq_host_hash (queue_heap s q)) (mh_name (host_heap s h))"

record pend_diag =
  dg_not_ready :: int
  dg_queue_closed :: int
  dg_no_token :: int
  dg_not_in_queue :: int
  dg_no_hosts :: int
  dg_no_gpus :: int
  dg_gpu_model :: int
  dg_exclusive :: int
  dg_no_mem :: int
  dg_no_storage :: int
  dg_no_cpus :: int
  dg_host_overflow :: int

definition zero_diag :: pend_diag where
  "zero_diag = \<lparr>dg_not_ready = 0, dg_queue_closed = 0, dg_no_token = 0, dg_not_in_queue = 0, dg_no_hosts = 0,
     dg_no_gpus = 0, dg_gpu_model = 0, dg_exclusive = 0, dg_no_mem = 0, dg_no_storage = 0, dg_no_cpus = 0,
     dg_host_overflow = 0\<rparr>"

definition diag_reason :: "pend_diag \<Rightarrow> pend_reason" where
  "diag_reason d =
     (if dg_exclusive d \<noteq> 0 then PEND_HOST_EXCLUSIVE
      else if dg_gpu_model d \<noteq> 0 then PEND_GPU_MODEL
      else if dg_no_gpus d \<noteq> 0 then PEND_NOT_ENOUGH_GPUS
      else if dg_no_mem d \<noteq> 0 then PEND_NOT_ENOUGH_MEM
      else if dg_no_storage d \<noteq> 0 then PEND_NOT_ENOUGH_STORAGE
      else if dg_no_cpus d \<noteq> 0 then PEND_NOT_ENOUGH_CPUS
      else if dg_not_in_queue d \<noteq> 0 then PEND_NO_HOSTS
      else PEND_NO_HOSTS)"

definition host_has_gpu_count :: "mbd_host \<Rightarrow> job_data \<Rightarrow> int" where
  "host_has_gpu_count h j =
     (let n = gpu_ids_count_free (mh_gpu h) in if jr_num_gpus (jd_res j) \<le> n then n else 0)"

definition host_has_gpu_model_and_count :: "mbd_host \<Rightarrow> job_data \<Rightarrow> int" where
  "host_has_gpu_model_and_count h j =
     (if gp_model (mh_gpu h) \<noteq> jr_gpu_model (jd_res j) then 0
      else let n = gpu_ids_count_free (mh_gpu h) in if jr_num_gpus (jd_res j) \<le> n then n else 0)"

definition host_meets_requirements :: "mbd_host \<Rightarrow> job_data \<Rightarrow> pend_diag \<Rightarrow> bool \<times> pend_diag" where
  "host_meets_requirements h j d =
     (if \<not> mh_candidate h then (False, d)
      else if mh_exclusive h then (False, d\<lparr>dg_exclusive := dg_exclusive d + 1\<rparr>)
      else if has_flag (jd_flags j) JOB_FLAG_EXCLUSIVE \<and> 0 < mh_num_jobs h
      then (False, d\<lparr>dg_exclusive := dg_exclusive d + 1\<rparr>)
      else if mh_free_cpu h < jr_num_cpus (jd_res j) then (False, d\<lparr>dg_no_cpus := dg_no_cpus d + 1\<rparr>)
      else if mh_free_mem_mb h < jr_mem_mb (jd_res j) then (False, d\<lparr>dg_no_mem := dg_no_mem d + 1\<rparr>)
      else if mh_free_storage_mb h < jr_storage_mb (jd_res j)
      then (False, d\<lparr>dg_no_storage := dg_no_storage d + 1\<rparr>)
      else if 0 < jr_num_gpus (jd_res j) \<and> host_has_gpu_count h j = 0
      then (False, d\<lparr>dg_no_gpus := dg_no_gpus d + 1\<rparr>)
      else if jr_gpu_model (jd_res j) \<noteq> [] \<and> host_has_gpu_model_and_count h j = 0
      then (False, d\<lparr>dg_gpu_model := dg_gpu_model d + 1\<rparr>)
      else (True, d))"

section \<open>Host plans\<close>

text \<open>
  The plan array has one cell per configured host. A plan is the list of the hosts
  written so far; writing past the array is out of bounds.
\<close>

definition plan_put :: "mbd \<Rightarrow> hptr \<Rightarrow> hptr list \<Rightarrow> crash + hptr list" where
  "plan_put s h plan =
     (if length plan < length (host_list s) then Inr (plan @ [h]) else Inl Out_of_bounds)"

definition plan_host :: "mbd \<Rightarrow> job_data \<Rightarrow> hptr \<Rightarrow> hptr list \<times> pend_diag \<Rightarrow> crash + hptr list \<times> pend_diag" where
  "plan_host s j h r =
     (case r of (plan, d) \<Rightarrow>
      case host_meets_requirements (host_heap s h) j d of
        (False, d') \<Rightarrow> Inr (plan, d')
      | (True, d') \<Rightarrow> bindE (plan_put s h plan) (\<lambda>plan'. Inr (plan', d')))"

text \<open>The loop over an iterator of a table: it returns each entry once.\<close>

fun iter_entries :: "nat \<Rightarrow> 'v ll_hash \<Rightarrow> 'v ll_hash_iter \<Rightarrow> 'v ll_hash_entry list" where
  "iter_entries 0 ht it = []"
| "iter_entries (Suc n) ht it =
     (case ll_hash_iter_next ht it of (None, it') \<Rightarrow> [] | (Some x, it') \<Rightarrow> x # iter_entries n ht it')"

definition all_entries :: "'v ll_hash \<Rightarrow> 'v ll_hash_entry list" where
  "all_entries ht = iter_entries (Suc (length (concat (buckets ht)))) ht (ll_hash_iter_init ht)"

definition plan_machine ::
  "mbd \<Rightarrow> job_data \<Rightarrow> qptr \<Rightarrow> string \<Rightarrow> hptr list \<times> pend_diag \<Rightarrow> crash + hptr list \<times> pend_diag" where
  "plan_machine s j q key r =
     (case ll_hash_search (mq_host_hash (queue_heap s q)) key of
        None \<Rightarrow> Inr (fst r, (snd r)\<lparr>dg_not_in_queue := dg_not_in_queue (snd r) + 1\<rparr>)
      | Some h \<Rightarrow> plan_host s j h r)"

definition plan_listed ::
  "mbd \<Rightarrow> job_data \<Rightarrow> qptr \<Rightarrow> hptr \<Rightarrow> hptr list \<times> pend_diag \<Rightarrow> crash + hptr list \<times> pend_diag" where
  "plan_listed s j q h r =
     (if \<not> host_in_queue_group s q h
      then Inr (fst r, (snd r)\<lparr>dg_not_in_queue := dg_not_in_queue (snd r) + 1\<rparr>)
      else plan_host s j h r)"

text \<open>
  The check that the host string of the start message will fit, and the copy of the
  first \<open>need\<close> hosts of the plan into the job.
\<close>

definition hosts_len :: "mbd \<Rightarrow> hptr list \<Rightarrow> nat" where
  "hosts_len s hs = sum_list (map (\<lambda>h. length (mh_name (host_heap s h)) + 16) hs)"

definition commit_plan :: "jptr \<Rightarrow> int \<Rightarrow> hptr list \<Rightarrow> pend_diag \<Rightarrow> mbd \<Rightarrow> crash + bool \<times> pend_diag \<times> mbd" where
  "commit_plan p need plan d s =
     (let nh = nat (jr_num_hosts (jd_res (job_heap s p))); k = nat need;
          rh = jd_run_hosts (job_heap s p) in
      if length plan < nh then Inl Null_deref
      else if 8192 \<le> hosts_len s (take nh plan)
      then Inr (False, d\<lparr>dg_host_overflow := dg_host_overflow d + 1\<rparr>, s)
      else if length rh < k then Inl Out_of_bounds
      else if int k \<noteq> need then Inl Assert_failed
      else Inr (True, d, upd_job p (\<lambda>j. j\<lparr>jd_run_nhosts := int k,
             jd_run_hosts := map Some (take k plan) @ drop k rh\<rparr>) s))"

definition build_host_plan_machines :: "jptr \<Rightarrow> mbd \<Rightarrow> crash + bool \<times> pend_diag \<times> mbd" where
  "build_host_plan_machines p s =
     bindE (job_queue s p) (\<lambda>q.
       let j = job_heap s p; m = jr_machines (jd_res j); need = int (ll_hash_count m) in
       bindE (foldE (plan_machine s j q) (map fst (all_entries m)) ([], zero_diag)) (\<lambda>(plan, d).
         if int (length plan) < need then Inr (False, d, s) else commit_plan p need plan d s))"

definition build_host_plan :: "jptr \<Rightarrow> mbd \<Rightarrow> crash + bool \<times> pend_diag \<times> mbd" where
  "build_host_plan p s =
     (let j = job_heap s p in
      if 0 < ll_hash_count (jr_machines (jd_res j)) then build_host_plan_machines p s
      else
        bindE (if host_list s = [] then Inr ([], zero_diag)
          else bindE (job_queue s p) (\<lambda>q. foldE (plan_listed s j q) (host_list s) ([], zero_diag))) (\<lambda>(plan, d).
          if int (length plan) < jr_num_hosts (jd_res j) then Inr (False, d, s)
          else commit_plan p (jr_num_hosts (jd_res j)) (qsort (host_plan_cmp s) plan) d s))"

section \<open>Dispatch\<close>

definition fill_start :: "jptr \<Rightarrow> qptr \<Rightarrow> string \<Rightarrow> mbd \<Rightarrow> wire_job_start \<Rightarrow> wire_job_start" where
  "fill_start p q hosts s ws =
     (let j = job_heap s p in
      ws\<lparr>wt_job_id := jd_job_id j, wt_uid := jd_uid j, wt_gid := jd_gid j, wt_term_time := jd_term_time j,
        wt_gpus_per_host := jr_num_gpus (jd_res j), wt_ncpus := jr_num_cpus (jd_res j),
        wt_mem_mb := jr_mem_mb (jd_res j), wt_job_name := cfield 256 (jd_name j),
        wt_queue := cfield 64 (mq_name (queue_heap s q)), wt_username := cfield 64 (jd_user j),
        wt_gpu_model := cfield 64 (jr_gpu_model (jd_res j)), wt_hosts := hosts\<rparr>)"

text \<open>The devices are taken from the first host only, and before the message can fail.\<close>

definition dispatch_gpus :: "jptr \<Rightarrow> hptr \<Rightarrow> wire_job_start \<Rightarrow> mbd \<Rightarrow> crash + wire_job_start \<times> mbd" where
  "dispatch_gpus p h ws s =
     (let n = jr_num_gpus (jd_res (job_heap s p)) in
      if 0 < n then
        bindE (build_gpu_assigned_str (mh_gpu (host_heap s h)) n) (\<lambda>(g, buf).
          Inr (ws\<lparr>wt_gpu_assigned := buf\<rparr>,
            upd_job p (\<lambda>j. j\<lparr>jd_gpu_assigned := cfield 64 buf\<rparr>) (upd_host h (\<lambda>x. x\<lparr>mh_gpu := g\<rparr>) s)))
      else Inr (ws, s))"

definition mbd_dispatch_job :: "env \<Rightarrow> jptr \<Rightarrow> mbd \<Rightarrow> crash + bool \<times> mbd" where
  "mbd_dispatch_job e p s =
     (let job_id = jd_job_id (job_heap s p) in
      bindE (run_host s p 0) (\<lambda>h.
      bindE (assertE Assert_failed (0 < mh_sbd_chan (host_heap s h))) (\<lambda>_.
      case read_sidecar e job_id zero_start s of
        None \<Rightarrow> Inl Abort_called
      | Some ws0 \<Rightarrow>
      (case read_script e job_id s of
        None \<Rightarrow> Inl Abort_called
      | Some script \<Rightarrow>
        bindE (job_queue s p) (\<lambda>q.
        bindE (build_hosts_str s p) (\<lambda>hosts.
        bindE (dispatch_gpus p h (fill_start p q hosts s (ws0\<lparr>wt_script := script\<rparr>)) s) (\<lambda>(ws, s1).
          if \<not> e_sign_ok e then Inr (False, s1)
          else case enqueue_payload e (mh_sbd_chan (host_heap s h)) BATCH_NEW_JOB MBD_OK (Start_body ws) s1 of
              (False, s2) \<Rightarrow> Inr (False, s2)
            | (True, s2) \<Rightarrow>
                bindE (event_job_start p
                  (upd_job p (\<lambda>j. j\<lparr>jd_dispatch_time := e_now e, jd_state := JOB_RUNNING\<rparr>) s2)) (\<lambda>s3.
                bindE (job_move_list p JOB_LIST_PEND JOB_LIST_RUN s3) (\<lambda>s4. Inr (True, s4))))))))))"

section \<open>A scheduling round\<close>

definition set_reason :: "jptr \<Rightarrow> pend_reason \<Rightarrow> mbd \<Rightarrow> mbd" where
  "set_reason p r s = upd_job p (\<lambda>j. j\<lparr>jd_pend_reason := r\<rparr>) s"

text \<open>What a dispatched job takes; the result is the number of slots it uses.\<close>

definition charge_job :: "jptr \<Rightarrow> mbd \<Rightarrow> crash + int option \<times> mbd" where
  "charge_job p s =
     (let s1 = (if jd_deps (job_heap s p) \<noteq> [] then job_deps_release p s else s) in
      bindE (host_update_resources p s1) (\<lambda>s2.
      let s3 = token_alloc p s2; j = job_heap s3 p; used = jr_num_cpus (jd_res j) * jd_run_nhosts j in
      bindE (on_queue p (\<lambda>q. q\<lparr>mq_num_run := mq_num_run q + 1, mq_num_pend := mq_num_pend q - 1,
          mq_num_cpus_used := mq_num_cpus_used q + used,
          mq_num_hosts_used := mq_num_hosts_used q + jd_run_nhosts j\<rparr>) s3) (\<lambda>s4.
        Inr (Some used, s4))))"

definition schedule_job :: "env \<Rightarrow> jptr \<Rightarrow> mbd \<Rightarrow> crash + int option \<times> mbd" where
  "schedule_job e p s =
     (if \<not> job_is_ready e (job_heap s p) then Inr (None, set_reason p PEND_JOB_NOT_READY s)
      else bindE (job_queue s p) (\<lambda>q.
        if mq_state (queue_heap s q) = QUEUE_CLOSED then Inr (None, set_reason p PEND_QUEUE_CLOSED s)
        else if \<not> tokens_available p s then Inr (None, set_reason p PEND_TOKENS s)
        else bindE (job_dep_satisfied p s) (\<lambda>ok.
          if \<not> ok then Inr (None, set_reason p PEND_DEPEND s)
          else bindE (build_host_plan p s) (\<lambda>(found, d, s1).
            if \<not> found then Inr (None, set_reason p (diag_reason d) s1)
            else bindE (mbd_dispatch_job e p (set_reason p PEND_NONE s1)) (\<lambda>(sent, s2).
              if \<not> sent then Inr (None, s2) else charge_job p s2)))))"

fun schedule_loop :: "env \<Rightarrow> jptr list \<Rightarrow> int \<Rightarrow> mbd \<Rightarrow> crash + mbd" where
  "schedule_loop e [] free_slots s = Inr s"
| "schedule_loop e (p # ps) free_slots s =
     bindE (schedule_job e p s) (\<lambda>(r, s1).
       case r of
         None \<Rightarrow> schedule_loop e ps free_slots s1
       | Some used \<Rightarrow>
           if free_slots - used \<le> 0 then Inr s1 else schedule_loop e ps (free_slots - used) s1)"

text \<open>The pending list as \<open>ll_list_sort_buf\<close> leaves it: a list of fewer than two entries is not touched.\<close>

definition sorted_pend :: "mbd \<Rightarrow> jptr list" where
  "sorted_pend s = (let pend = job_lists s JOB_LIST_PEND in if length pend < 2 then pend else qsort (pend_job_cmp s) pend)"

text \<open>
  The sort buffer holds \<^verbatim>\<open>SCHED_SORT_BUF_MAX\<close> pointers; sorting two or more jobs looks
  at the queue of each. The loop keeps the successor before it handles a job, so it
  passes the jobs of the sorted list in order.
\<close>

definition schedule :: "env \<Rightarrow> mbd \<Rightarrow> crash + mbd" where
  "schedule e s =
     (if job_lists s JOB_LIST_PEND = [] then Inr s
      else
        let (free_slots, s1) = mark_candidates s; pend = job_lists s1 JOB_LIST_PEND in
        if free_slots = 0 then Inr s1
        else if 2 \<le> length pend \<and> 131072 < length pend then Inl Out_of_bounds
        else if 2 \<le> length pend \<and> list_ex (\<lambda>p. jd_queue (job_heap s1 p) = None) pend then Inl Null_deref
        else
          bindE (schedule_loop e (sorted_pend s1) free_slots
            (s1\<lparr>job_lists := (job_lists s1)(JOB_LIST_PEND := sorted_pend s1)\<rparr>)) mbd_assert_counters)"

section \<open>Host plans are sound\<close>

lemma iter_entries_rest:
  assumes "nbuckets ht = length (buckets ht)" and "length (ll_hash_iter_rest ht it) < n"
  shows "iter_entries n ht it = ll_hash_iter_rest ht it"
  using assms(2)
proof (induction n arbitrary: it)
  case 0
  then show ?case by simp
next
  case (Suc n)
  have r: "ll_hash_iter_rest ht it = tl (it_entry it) @ concat (drop (it_bucket it) (buckets ht))"
    by (simp add: ll_hash_iter_rest_def)
  note sp = ll_hash_iter_skip_spec [OF assms(1), where es = "tl (it_entry it)" and b = "it_bucket it", folded r]
  obtain o' it' where nx: "ll_hash_iter_skip ht (it_bucket it) (tl (it_entry it)) = (o', it')" by fastforce
  show ?case
  proof (cases "ll_hash_iter_rest ht it")
    case Nil
    then show ?thesis using sp nx by (simp add: ll_hash_iter_next_def)
  next
    case (Cons x xs)
    then have "o' = Some x" "ll_hash_iter_rest ht it' = xs" using sp nx by simp_all
    with Suc Cons nx show ?thesis by (simp add: ll_hash_iter_next_def)
  qed
qed

lemma all_entries_concat: "ll_hash_wf ht \<Longrightarrow> all_entries ht = concat (buckets ht)"
  using iter_entries_rest [of ht "ll_hash_iter_init ht"]
  by (simp add: all_entries_def ll_hash_iter_init_rest ll_hash_wf_def del: iter_entries.simps)

text \<open>What the requirements say about a host of a plan.\<close>

definition host_serves :: "mbd_host \<Rightarrow> job_data \<Rightarrow> bool" where
  "host_serves x j \<longleftrightarrow> mh_candidate x \<and> host_fits x j \<and>
     (0 < jr_num_gpus (jd_res j) \<longrightarrow> jr_num_gpus (jd_res j) \<le> gpu_ids_count_free (mh_gpu x))"

lemma host_meets_serves:
  assumes "host_meets_requirements x j d = (True, d')"
  shows "host_serves x j"
  using assms
  by (auto simp: host_meets_requirements_def host_serves_def host_fits_def host_has_gpu_count_def Let_def
      split: if_splits)

lemma plan_put_ok:
  assumes "distinct (h # plan)" and "set (h # plan) \<subseteq> set (host_list s)"
  shows "plan_put s h plan = Inr (plan @ [h])"
proof -
  have "length (h # plan) \<le> card (set (host_list s))"
    using assms by (metis List.finite_set card_mono distinct_card)
  then have "length plan < length (host_list s)" using card_length [of "host_list s"] by simp
  then show ?thesis by (simp add: plan_put_def)
qed

text \<open>
  Both loops over hosts pick at most one host per item, different hosts for
  different items; they end with hosts that serve the job.
\<close>

lemma plan_fold:
  assumes "\<And>x r. x \<in> set xs \<Longrightarrow> (\<exists>d. f x r = Inr (fst r, d)) \<or> (\<exists>h. g x = Some h \<and> f x r = plan_host s j h r)"
    and "\<And>x h. x \<in> set xs \<Longrightarrow> g x = Some h \<Longrightarrow> h \<in> set (host_list s) \<and> h \<notin> set plan"
    and "\<And>x y h. x \<in> set xs \<Longrightarrow> y \<in> set xs \<Longrightarrow> g x = Some h \<Longrightarrow> g y = Some h \<Longrightarrow> x = y"
    and "distinct xs" and "distinct plan" and "set plan \<subseteq> set (host_list s)"
    and "\<And>h. h \<in> set plan \<Longrightarrow> host_serves (host_heap s h) j"
  shows "\<exists>plan' d'. foldE f xs (plan, d) = Inr (plan', d') \<and> distinct plan' \<and>
    set plan' \<subseteq> set (host_list s) \<and> (\<forall>h \<in> set plan'. host_serves (host_heap s h) j) \<and>
    set plan' \<subseteq> set plan \<union> {h. \<exists>x \<in> set xs. g x = Some h}"
  using assms
proof (induction xs arbitrary: plan d)
  case Nil
  then show ?case by auto
next
  case (Cons x xs)
  have skip: ?case if "f x (plan, d) = Inr (plan, d1)" for d1
  proof -
    have "\<exists>plan' d'. foldE f xs (plan, d1) = Inr (plan', d') \<and> distinct plan' \<and>
      set plan' \<subseteq> set (host_list s) \<and> (\<forall>h \<in> set plan'. host_serves (host_heap s h) j) \<and>
      set plan' \<subseteq> set plan \<union> {h. \<exists>x \<in> set xs. g x = Some h}"
    proof (rule Cons.IH)
      show "(\<exists>d. f y r = Inr (fst r, d)) \<or> (\<exists>h. g y = Some h \<and> f y r = plan_host s j h r)" if "y \<in> set xs" for y r
        using Cons.prems(1) [of y r] that by simp
      show "k \<in> set (host_list s) \<and> k \<notin> set plan" if "y \<in> set xs" "g y = Some k" for y k
        using Cons.prems(2) [of y k] that by simp
      show "y = z" if "y \<in> set xs" "z \<in> set xs" "g y = Some k" "g z = Some k" for y z k
        using Cons.prems(3) [of y z k] that by simp
    qed (use Cons.prems(4-) in auto)
    then show ?thesis using that by force
  qed
  consider (none) d1 where "f x (plan, d) = Inr (plan, d1)"
    | (host) h where "g x = Some h" "f x (plan, d) = plan_host s j h (plan, d)"
    using Cons.prems(1) [of x "(plan, d)"] by auto
  then show ?case
  proof cases
    case none
    then show ?thesis by (rule skip)
  next
    case host
    obtain b d1 where m: "host_meets_requirements (host_heap s h) j d = (b, d1)" by fastforce
    show ?thesis
    proof (cases b)
      case False
      then show ?thesis using skip [of d1] host(2) m by (simp add: plan_host_def)
    next
      case True
      have h: "h \<in> set (host_list s)" "h \<notin> set plan" using Cons.prems(2) [OF _ host(1)] by simp_all
      have put: "f x (plan, d) = Inr (plan @ [h], d1)"
        using host(2) m True plan_put_ok [of h plan s] h Cons.prems(5,6) by (simp add: plan_host_def)
      have "\<exists>plan' d'. foldE f xs (plan @ [h], d1) = Inr (plan', d') \<and> distinct plan' \<and>
        set plan' \<subseteq> set (host_list s) \<and> (\<forall>h \<in> set plan'. host_serves (host_heap s h) j) \<and>
        set plan' \<subseteq> set (plan @ [h]) \<union> {h. \<exists>x \<in> set xs. g x = Some h}"
      proof (rule Cons.IH)
        show "(\<exists>d. f y r = Inr (fst r, d)) \<or> (\<exists>h. g y = Some h \<and> f y r = plan_host s j h r)" if "y \<in> set xs" for y r
          using Cons.prems(1) [of y r] that by simp
        show "k \<in> set (host_list s) \<and> k \<notin> set (plan @ [h])" if "y \<in> set xs" "g y = Some k" for y k
          using Cons.prems(2) [of y k] Cons.prems(3) [of x y h] Cons.prems(4) that host(1) by auto
        show "host_serves (host_heap s k) j" if "k \<in> set (plan @ [h])" for k
          using that Cons.prems(7) host_meets_serves [of _ j d d1] m True by auto
        show "y = z" if "y \<in> set xs" "z \<in> set xs" "g y = Some k" "g z = Some k" for y z k
          using Cons.prems(3) [of y z k] that by simp
      qed (use Cons.prems(4-6) h in auto)
      then show ?thesis using put host(1) by force
    qed
  qed
qed

text \<open>The hosts a plan gives a job.\<close>

definition plan_for :: "mbd \<Rightarrow> jptr \<Rightarrow> qptr \<Rightarrow> hptr list \<Rightarrow> bool" where
  "plan_for s p q hs \<longleftrightarrow> distinct hs \<and> set hs \<subseteq> set (host_list s) \<and>
     int (length hs) = jr_num_hosts (jd_res (job_heap s p)) \<and>
     (\<forall>h \<in> set hs. host_serves (host_heap s h) (job_heap s p) \<and> host_in_queue_group s q h)"

definition planned :: "jptr \<Rightarrow> hptr list \<Rightarrow> mbd \<Rightarrow> mbd" where
  "planned p hs s = upd_job p (\<lambda>j. j\<lparr>jd_run_nhosts := int (length hs), jd_run_hosts := map Some hs\<rparr>) s"

lemma commit_plan_result:
  assumes ok: "job_ok (queue_list s) (host_list s) (job_heap s p)"
    and need: "need = jr_num_hosts (jd_res (job_heap s p))" "need \<le> int (length plan)"
    and plan: "distinct plan" "set plan \<subseteq> set (host_list s)"
      "\<And>h. h \<in> set plan \<Longrightarrow> host_serves (host_heap s h) (job_heap s p) \<and> host_in_queue_group s q h"
  shows "\<exists>d'. commit_plan p need plan d s = Inr (False, d', s) \<or>
    (\<exists>hs. plan_for s p q hs \<and> commit_plan p need plan d s = Inr (True, d', planned p hs s))"
proof -
  let ?j = "job_heap s p" and ?k = "nat need"
  have k: "length (jd_run_hosts ?j) = ?k" "int ?k = need" using ok need by (simp_all add: job_ok_def)
  have le: "?k \<le> length plan" using need(2) by linarith
  have "plan_for s p q (take ?k plan)"
    using plan le need(1) k(2) by (auto simp: plan_for_def dest: in_set_takeD)
  moreover have "commit_plan p need plan d s = Inr (True, d, planned p (take ?k plan) s)"
    if "\<not> 8192 \<le> hosts_len s (take ?k plan)"
    using that le k need(1) by (simp add: commit_plan_def Let_def planned_def min_def)
  moreover have "commit_plan p need plan d s = Inr (False, d\<lparr>dg_host_overflow := dg_host_overflow d + 1\<rparr>, s)"
    if "8192 \<le> hosts_len s (take ?k plan)"
    using that le need(1) by (simp add: commit_plan_def Let_def)
  ultimately show ?thesis by blast
qed

lemma build_host_plan_result:
  assumes inv: "mbd_inv s" and p: "p \<in> set (job_lists s JOB_LIST_PEND)" and q: "jd_queue (job_heap s p) = Some q"
  shows "\<exists>d. build_host_plan p s = Inr (False, d, s) \<or>
    (\<exists>hs. plan_for s p q hs \<and> build_host_plan p s = Inr (True, d, planned p hs s))"
proof -
  let ?j = "job_heap s p" and ?m = "jr_machines (jd_res (job_heap s p))"
  note ok = inv_parts(5) [OF inv p]
  have ql: "q \<in> set (queue_list s)" using ok q by (auto simp: job_ok_def)
  have nm: "h \<in> set (host_list s) \<and> mh_name (host_heap s h) = k"
    if "ll_hash_search (mq_host_hash (queue_heap s q)) k = Some h" for k h
    using inv_parts(3) [OF inv] ql that by (simp add: names_ok_def)
  have grp: "host_in_queue_group s q h" if "ll_hash_search (mq_host_hash (queue_heap s q)) k = Some h" for k h
    using nm [OF that] that
    by (auto simp: host_in_queue_group_def ll_hash_search_def ll_hash_contains_def split: option.splits)
  show ?thesis
  proof (cases "0 < ll_hash_count ?m")
    case True
    have wf: "ll_hash_wf ?m" and n: "jr_num_hosts (jd_res ?j) = int (ll_hash_count ?m)"
      using ok True by (simp_all add: job_ok_def)
    let ?g = "ll_hash_search (mq_host_hash (queue_heap s q))"
    have "\<exists>plan d. foldE (plan_machine s ?j q) (map fst (all_entries ?m)) ([], zero_diag) = Inr (plan, d) \<and>
      distinct plan \<and> set plan \<subseteq> set (host_list s) \<and> (\<forall>h \<in> set plan. host_serves (host_heap s h) ?j) \<and>
      set plan \<subseteq> set [] \<union> {h. \<exists>x \<in> set (map fst (all_entries ?m)). ?g x = Some h}"
    proof (rule plan_fold)
      show "(\<exists>d. plan_machine s ?j q x r = Inr (fst r, d)) \<or> (\<exists>h. ?g x = Some h \<and> plan_machine s ?j q x r = plan_host s ?j h r)"
        for x r by (cases "?g x") (simp_all add: plan_machine_def)
      show "distinct (map fst (all_entries ?m))" using ll_hash_entries_spec(1) [OF wf] by (simp add: all_entries_concat wf)
      show "x = y" if "?g x = Some h" "?g y = Some h" for x y h
        using nm [OF that(1)] nm [OF that(2)] by simp
    qed (use nm in auto)
    then obtain plan d where f: "foldE (plan_machine s ?j q) (map fst (all_entries ?m)) ([], zero_diag) = Inr (plan, d)"
      and pl: "distinct plan" "set plan \<subseteq> set (host_list s)" "\<forall>h \<in> set plan. host_serves (host_heap s h) ?j"
        "\<forall>h \<in> set plan. host_in_queue_group s q h"
      using grp by force
    have b: "build_host_plan p s = (if int (length plan) < int (ll_hash_count ?m) then Inr (False, d, s)
        else commit_plan p (int (ll_hash_count ?m)) plan d s)"
      using True f q by (simp add: build_host_plan_def build_host_plan_machines_def job_queue_def Let_def)
    show ?thesis
      using commit_plan_result [OF ok n [symmetric], of plan q d] pl b by (cases "int (length plan) < int (ll_hash_count ?m)") auto
  next
    case False
    let ?g = "\<lambda>h. if host_in_queue_group s q h then Some h else None"
    have "\<exists>plan d. foldE (plan_listed s ?j q) (host_list s) ([], zero_diag) = Inr (plan, d) \<and>
      distinct plan \<and> set plan \<subseteq> set (host_list s) \<and> (\<forall>h \<in> set plan. host_serves (host_heap s h) ?j) \<and>
      set plan \<subseteq> set [] \<union> {h. \<exists>x \<in> set (host_list s). ?g x = Some h}"
    proof (rule plan_fold)
      show "(\<exists>d. plan_listed s ?j q x r = Inr (fst r, d)) \<or> (\<exists>h. ?g x = Some h \<and> plan_listed s ?j q x r = plan_host s ?j h r)"
        for x r by (simp add: plan_listed_def)
      show "distinct (host_list s)" using inv_parts(3) [OF inv] by (simp add: names_ok_def)
    qed (auto split: if_splits)
    then obtain plan d where f: "foldE (plan_listed s ?j q) (host_list s) ([], zero_diag) = Inr (plan, d)"
      and pl: "distinct plan" "set plan \<subseteq> set (host_list s)" "\<forall>h \<in> set plan. host_serves (host_heap s h) ?j"
        "\<forall>h \<in> set plan. host_in_queue_group s q h"
      by (force split: if_splits)
    let ?s = "qsort (host_plan_cmp s) plan" and ?n = "jr_num_hosts (jd_res ?j)"
    have b: "build_host_plan p s = (if int (length plan) < ?n then Inr (False, d, s) else commit_plan p ?n ?s d s)"
      using False f q by (auto simp: build_host_plan_def job_queue_def Let_def)
    show ?thesis
      using commit_plan_result [OF ok refl, of ?s q d] pl b
      by (cases "int (length plan) < ?n") (auto simp: qs.sort_set qs.sort_length qs.sort_distinct)
  qed
qed

section \<open>Dispatch is total\<close>

lemma foldE_ex: "(\<And>x b. x \<in> set xs \<Longrightarrow> \<exists>b'. f x b = Inr b') \<Longrightarrow> \<exists>b'. foldE f xs b = Inr b'"
proof (induction xs arbitrary: b)
  case (Cons x xs)
  then obtain b' where "f x b = Inr b'" by fastforce
  with Cons show ?case by simp
qed simp

lemma event_job_start_ok:
  assumes "run_hosts_are (job_heap s p) hs" and "0 < jd_dispatch_time (job_heap s p)"
  shows "\<exists>ev. event_job_start p s = Inr (s\<lparr>manifest := manifest s @ [ev]\<rparr>)"
proof -
  have n: "nat (jd_run_nhosts (job_heap s p)) = length hs" using assms(1) by (simp add: run_hosts_are_def)
  obtain b where "foldE (append_host_name s p) [0..<length hs] [] = Inr b"
    using foldE_ex [of "[0..<length hs]" "append_host_name s p" "[]"] run_host_nth [OF assms(1)]
    by (auto simp: append_host_name_def)
  then show ?thesis using assms(2) by (auto simp: event_job_start_def Let_def n intro!: log_append_ex)
qed

lemma build_hosts_str_ok: "run_hosts_are (job_heap s p) hs \<Longrightarrow> \<exists>b. build_hosts_str s p = Inr b"
  using foldE_ex [of "[0..<length hs]" "host_entry s p" "[]"] run_host_nth [of s p hs]
  by (auto simp: host_entry_def build_hosts_str_def run_hosts_are_def)

definition gpu_taken :: "jptr \<Rightarrow> hptr \<Rightarrow> mbd_gpu \<Rightarrow> string \<Rightarrow> mbd \<Rightarrow> mbd" where
  "gpu_taken p h g a s = upd_job p (\<lambda>j. j\<lparr>jd_gpu_assigned := a\<rparr>) (upd_host h (\<lambda>x. x\<lparr>mh_gpu := g\<rparr>) s)"

lemma gpu_taken_same: "gpu_taken p h (mh_gpu (host_heap s h)) (jd_gpu_assigned (job_heap s p)) s = s"
  by (simp add: gpu_taken_def upd_job_def upd_host_def)

lemma dispatch_gpus_ok:
  assumes "0 < jr_num_gpus (jd_res (job_heap s p)) \<Longrightarrow>
    jr_num_gpus (jd_res (job_heap s p)) \<le> gpu_ids_count_free (mh_gpu (host_heap s h))"
  shows "\<exists>g a ws'. dispatch_gpus p h ws s = Inr (ws', gpu_taken p h g a s) \<and> wt_job_id ws' = wt_job_id ws"
proof (cases "0 < jr_num_gpus (jd_res (job_heap s p))")
  case False
  then have "dispatch_gpus p h ws s = Inr (ws, gpu_taken p h (mh_gpu (host_heap s h)) (jd_gpu_assigned (job_heap s p)) s)"
    unfolding gpu_taken_same by (simp add: dispatch_gpus_def Let_def)
  then show ?thesis by blast
next
  case True
  let ?g = "mh_gpu (host_heap s h)" and ?n = "jr_num_gpus (jd_res (job_heap s p))"
  have "length (filter (\<lambda>d. \<not> gi_in_use d) (gp_ids ?g)) \<le> length (gp_ids ?g)" by (rule length_filter_le)
  then have "?n \<le> int (length (gp_ids ?g))" using assms [OF True] unfolding gpu_ids_count_free_def by linarith
  then show ?thesis
    using True by (auto simp: dispatch_gpus_def Let_def build_gpu_assigned_str_def res_simps gpu_taken_def
        case_prod_beta)
qed

text \<open>The files a dispatch reads.\<close>

definition files_ready :: "env \<Rightarrow> int \<Rightarrow> mbd \<Rightarrow> bool" where
  "files_ready e i s \<longleftrightarrow> e_read_ok e i \<and> submit_files s i \<noteq> None \<and>
     (case script_files s i of None \<Rightarrow> False | Some d \<Rightarrow> d \<noteq> [])"

definition started :: "env \<Rightarrow> jptr \<Rightarrow> int \<Rightarrow> wire_job_start \<Rightarrow> log_event \<Rightarrow> mbd \<Rightarrow> mbd" where
  "started e p c ws ev s =
     (let s2 = s\<lparr>outq := outq s @ [\<lparr>msg_chan = c, msg_op = BATCH_NEW_JOB, msg_status = MBD_OK, msg_body = Start_body ws\<rparr>]\<rparr>;
          s3 = upd_job p (\<lambda>j. j\<lparr>jd_dispatch_time := e_now e, jd_state := JOB_RUNNING\<rparr>) s2;
          s4 = s3\<lparr>manifest := manifest s3 @ [ev]\<rparr> in
      upd_job p (\<lambda>j. j\<lparr>jd_list_id := JOB_LIST_RUN\<rparr>)
        (s4\<lparr>job_lists := lists_move (job_lists s4) p JOB_LIST_PEND JOB_LIST_RUN\<rparr>))"

lemma mbd_dispatch_job_result:
  assumes hs: "run_hosts_are (job_heap s p) (h # hs)" and chan: "0 < mh_sbd_chan (host_heap s h)"
    and files: "files_ready e (jd_job_id (job_heap s p)) s" and q: "jd_queue (job_heap s p) = Some q"
    and gpu: "0 < jr_num_gpus (jd_res (job_heap s p)) \<Longrightarrow>
      jr_num_gpus (jd_res (job_heap s p)) \<le> gpu_ids_count_free (mh_gpu (host_heap s h))"
    and p: "p \<in> set (job_lists s JOB_LIST_PEND)" and now: "0 < e_now e"
  shows "\<exists>g a. mbd_dispatch_job e p s = Inr (False, gpu_taken p h g a s) \<and>
      \<not> (e_sign_ok e \<and> e_send_ok e (mh_sbd_chan (host_heap s h)) BATCH_NEW_JOB) \<or>
    (\<exists>ws ev. wt_job_id ws = jd_job_id (job_heap s p) \<and>
       mbd_dispatch_job e p s = Inr (True, started e p (mh_sbd_chan (host_heap s h)) ws ev (gpu_taken p h g a s)))"
proof -
  let ?i = "jd_job_id (job_heap s p)" and ?c = "mh_sbd_chan (host_heap s h)"
  obtain ws0 script where f: "read_sidecar e ?i zero_start s = Some ws0" "read_script e ?i s = Some script"
    using files by (auto simp: files_ready_def read_sidecar_def read_script_def split: option.splits)
  have h: "run_host s p 0 = Inr h" using run_host_nth [OF hs, of 0] by simp
  obtain hosts where hosts: "build_hosts_str s p = Inr hosts" using build_hosts_str_ok [OF hs] by blast
  let ?w = "fill_start p q hosts s (ws0\<lparr>wt_script := script\<rparr>)"
  obtain g a ws where ws: "dispatch_gpus p h ?w s = Inr (ws, gpu_taken p h g a s)" "wt_job_id ws = ?i"
    using dispatch_gpus_ok [OF gpu, of ?w] by (auto simp: fill_start_def Let_def)
  define v where "v = gpu_taken p h g a s"
  have v: "p \<in> set (job_lists v JOB_LIST_PEND)" "run_hosts_are (job_heap v p) (h # hs)"
    using p hs by (simp_all add: v_def gpu_taken_def run_hosts_are_def)
  let ?s2 = "v\<lparr>outq := outq v @ [\<lparr>msg_chan = ?c, msg_op = BATCH_NEW_JOB, msg_status = MBD_OK, msg_body = Start_body ws\<rparr>]\<rparr>"
  define s3 where "s3 = upd_job p (\<lambda>j. j\<lparr>jd_dispatch_time := e_now e, jd_state := JOB_RUNNING\<rparr>) ?s2"
  have "run_hosts_are (job_heap s3 p) (h # hs)" "0 < jd_dispatch_time (job_heap s3 p)"
    using v(2) now by (simp_all add: s3_def run_hosts_are_def)
  then obtain ev where ev: "event_job_start p s3 = Inr (s3\<lparr>manifest := manifest s3 @ [ev]\<rparr>)"
    using event_job_start_ok by blast
  have mv: "job_move_list p JOB_LIST_PEND JOB_LIST_RUN (s3\<lparr>manifest := manifest s3 @ [ev]\<rparr>) = Inr (started e p ?c ws ev v)"
    using v(1) by (simp add: job_move_list_def started_def Let_def s3_def)
  have "mbd_dispatch_job e p s = (if \<not> e_sign_ok e then Inr (False, v)
      else if e_send_ok e ?c BATCH_NEW_JOB then Inr (True, started e p ?c ws ev v) else Inr (False, v))"
    using chan f ws(1) mv ev by (simp add: mbd_dispatch_job_def Let_def h hosts res_simps job_queue_def q
        v_def [symmetric] enqueue_payload_def s3_def [symmetric])
  then show ?thesis using ws(2) unfolding v_def by (cases "e_sign_ok e \<and> e_send_ok e ?c BATCH_NEW_JOB") auto
qed

section \<open>A scheduling step keeps the invariant\<close>

text \<open>What a step of the scheduler leaves alone, for every job, host and queue.\<close>

definition sched_kept :: "mbd \<Rightarrow> mbd \<Rightarrow> bool" where
  "sched_kept s t \<longleftrightarrow> keeps s t \<and>
     (\<forall>x. jd_deps (job_heap t x) = jd_deps (job_heap s x) \<and> jd_queue (job_heap t x) = jd_queue (job_heap s x)) \<and>
     (\<forall>h. mh_sbd_chan (host_heap t h) = mh_sbd_chan (host_heap s h) \<and>
        mh_name (host_heap t h) = mh_name (host_heap s h) \<and>
        (mh_candidate (host_heap t h) \<longrightarrow> mh_candidate (host_heap s h))) \<and>
     (\<forall>q. mq_state (queue_heap t q) = mq_state (queue_heap s q) \<and>
        mq_host_hash (queue_heap t q) = mq_host_hash (queue_heap s q)) \<and>
     set (outq s) \<subseteq> set (outq t)"

lemma sched_kept_refl [simp]: "sched_kept s s"
  by (simp add: sched_kept_def)

lemma sched_kept_trans: "sched_kept s t \<Longrightarrow> sched_kept t u \<Longrightarrow> sched_kept s u"
  unfolding sched_kept_def using keeps_trans by auto

definition launch_job :: "env \<Rightarrow> hptr list \<Rightarrow> string \<Rightarrow> job_data \<Rightarrow> job_data" where
  "launch_job e hs a j = j\<lparr>jd_run_nhosts := int (length hs), jd_run_hosts := map Some hs, jd_pend_reason := PEND_NONE,
     jd_gpu_assigned := a, jd_dispatch_time := e_now e, jd_state := JOB_RUNNING, jd_list_id := JOB_LIST_RUN\<rparr>"

lemma launch_eq:
  "started e p c ws ev (gpu_taken p h g a (set_reason p PEND_NONE (planned p hs s))) =
   s\<lparr>job_heap := (job_heap s)(p := launch_job e hs a (job_heap s p)),
     job_lists := lists_move (job_lists s) p JOB_LIST_PEND JOB_LIST_RUN,
     host_heap := (host_heap s)(h := (host_heap s h)\<lparr>mh_gpu := g\<rparr>), manifest := manifest s @ [ev],
     outq := outq s @ [\<lparr>msg_chan = c, msg_op = BATCH_NEW_JOB, msg_status = MBD_OK, msg_body = Start_body ws\<rparr>]\<rparr>"
  by (rule mbd.equality)
    (simp_all add: started_def gpu_taken_def set_reason_def planned_def launch_job_def upd_job_def upd_host_def Let_def)

lemma charge_gpu: "charge_host j (x\<lparr>mh_gpu := g\<rparr>) = (charge_host j x)\<lparr>mh_gpu := g\<rparr>"
  by (simp add: charge_host_def Let_def)

lemma charge_same: "jd_res j' = jd_res j \<Longrightarrow> jd_flags j' = jd_flags j \<Longrightarrow> charge_host j' = charge_host j"
  by (simp add: charge_host_def fun_eq_iff)

text \<open>The counters of the queue, as \<open>schedule\<close> changes them.\<close>

definition queue_launch :: "int \<Rightarrow> int \<Rightarrow> mbd_queue \<Rightarrow> mbd_queue" where
  "queue_launch used n q = q\<lparr>mq_num_run := mq_num_run q + 1, mq_num_pend := mq_num_pend q - 1,
     mq_num_cpus_used := mq_num_cpus_used q + used, mq_num_hosts_used := mq_num_hosts_used q + n\<rparr>"

lemma charge_job_result:
  assumes hs: "run_hosts_are (job_heap w p) hs" "distinct hs" and q: "jd_queue (job_heap w p) = Some q"
  obtains t hp hh ph where
    "charge_job p w = Inr (Some (jr_num_cpus (jd_res (job_heap w p)) * int (length hs)), t)"
    and "t = w\<lparr>job_heap := hp, host_heap := hh, pool_heap := ph,
      queue_heap := (queue_heap w)(q := queue_launch (jr_num_cpus (jd_res (job_heap w p)) * int (length hs))
        (int (length hs)) (queue_heap w q))\<rparr>"
    and "\<And>x. minor (job_heap w x) (hp x)"
    and "\<And>h. hh h = (if h \<in> set hs then charge_host (job_heap w p) (host_heap w h) else host_heap w h)"
    and "\<And>k. tp_free (ph k) = tp_free (pool_heap w k) -
      token_weight (token_pool_name_hash w) k (jr_tokens (jd_res (job_heap w p)))"
    and "\<And>k. tp_total (ph k) = tp_total (pool_heap w k)"
proof -
  define w1 where "w1 = (if jd_deps (job_heap w p) \<noteq> [] then job_deps_release p w else w)"
  have "minor_step w w1" using job_deps_refcnt_minor [of w p "- 1"] by (simp add: w1_def job_deps_release_def)
  then obtain hp where w1: "w1 = w\<lparr>job_heap := hp\<rparr>" and m: "\<And>x. minor (job_heap w x) (hp x)"
    by (rule minor_stepE) blast
  obtain a b where hpp: "hp p = (job_heap w p)\<lparr>jd_dep_refcnt := a, jd_array_element_cnt := b\<rparr>"
    by (rule minorE [OF m])
  have hs1: "run_hosts_are (job_heap w1 p) hs" using hs(1) by (simp add: w1 hpp run_hosts_are_def)
  obtain w2 where f: "foldE (host_loop (\<lambda>j h. Inr (charge_host j h)) p) hs w1 = Inr w2"
    using host_loop_total [OF _ hs(2), of "\<lambda>j h. Inr (charge_host j h)" w1 p] by auto
  from host_loop_result [OF f hs(2)] have w2: "w2 = w1\<lparr>host_heap := host_heap w2\<rparr>"
    and o: "\<And>h. h \<notin> set hs \<Longrightarrow> host_heap w2 h = host_heap w h"
    and i: "\<And>h. h \<in> set hs \<Longrightarrow> host_heap w2 h = charge_host (job_heap w p) (host_heap w h)"
    using charge_same [of "hp p" "job_heap w p"] by (auto simp: w1 hpp)
  have u: "host_update_resources p w1 = Inr w2" using host_update_resources_loop [OF hs1] f by simp
  have w2': "w2 = w\<lparr>job_heap := hp, host_heap := host_heap w2\<rparr>" using w2 by (simp add: w1)
  obtain ph where ta: "token_alloc p w2 = w2\<lparr>pool_heap := ph\<rparr>"
    and ph: "\<And>k. tp_free (ph k) = tp_free (pool_heap w2 k) -
      token_weight (token_pool_name_hash w2) k (jr_tokens (jd_res (job_heap w2 p)))"
      "\<And>k. tp_total (ph k) = tp_total (pool_heap w2 k)"
    by (rule token_alloc_result [of p w2]) blast
  have j2: "job_heap w2 = hp" "pool_heap w2 = pool_heap w" "token_pool_name_hash w2 = token_pool_name_hash w"
    "queue_heap w2 = queue_heap w"
    by (subst w2', simp)+
  define t where "t = w2\<lparr>pool_heap := ph, queue_heap := (queue_heap w)(q := queue_launch
      (jr_num_cpus (jd_res (job_heap w p)) * int (length hs)) (int (length hs)) (queue_heap w q))\<rparr>"
  have n: "jd_run_nhosts (job_heap w p) = int (length hs)" using hs(1) by (simp add: run_hosts_are_def)
  have c: "charge_job p w = Inr (Some (jr_num_cpus (jd_res (job_heap w p)) * int (length hs)), t)"
    using q by (simp add: charge_job_def w1_def [symmetric] u ta Let_def on_queue_def job_queue_def j2 hpp n
        upd_queue_def t_def queue_launch_def)
  show thesis
  proof (rule that [where t = t and hp = hp and hh = "host_heap w2" and ph = ph])
    show "t = w\<lparr>job_heap := hp, host_heap := host_heap w2, pool_heap := ph,
      queue_heap := (queue_heap w)(q := queue_launch (jr_num_cpus (jd_res (job_heap w p)) * int (length hs))
        (int (length hs)) (queue_heap w q))\<rparr>"
      unfolding t_def by (subst w2') simp
    show "host_heap w2 h = (if h \<in> set hs then charge_host (job_heap w p) (host_heap w h) else host_heap w h)" for h
      using o i by simp
  qed (use c m ph in \<open>simp_all add: j2 hpp\<close>)
qed

text \<open>The evidence for a dispatched job: why it could start, where it runs, and its start message.\<close>

definition dispatched :: "env \<Rightarrow> mbd \<Rightarrow> mbd \<Rightarrow> jptr \<Rightarrow> bool" where
  "dispatched e s t p \<longleftrightarrow> job_is_ready e (job_heap s p) \<and>
     (\<exists>q h hs. jd_queue (job_heap s p) = Some q \<and> mq_state (queue_heap s q) \<noteq> QUEUE_CLOSED \<and>
        run_hosts_are (job_heap t p) (h # hs) \<and> distinct (h # hs) \<and>
        (\<forall>x \<in> set (h # hs). x \<in> set (host_list s) \<and> host_in_queue_group s q x) \<and>
        (\<exists>ws. wt_job_id ws = jd_job_id (job_heap s p) \<and>
          \<lparr>msg_chan = mh_sbd_chan (host_heap s h), msg_op = BATCH_NEW_JOB, msg_status = MBD_OK,
            msg_body = Start_body ws\<rparr> \<in> set (outq t)))"

lemma launch_step:
  assumes inv: "mbd_inv s" and p: "p \<in> set (job_lists s JOB_LIST_PEND)" and q: "jd_queue (job_heap s p) = Some q"
    and plan: "plan_for s p q (h # hs)" and ready: "job_is_ready e (job_heap s p)"
    and w: "w = started e p (mh_sbd_chan (host_heap s h)) ws ev
      (gpu_taken p h g a (set_reason p PEND_NONE (planned p (h # hs) s)))"
    and ws: "wt_job_id ws = jd_job_id (job_heap s p)" and now: "0 < e_now e" and open_q: "mq_state (queue_heap s q) \<noteq> QUEUE_CLOSED"
  shows "\<exists>used t. charge_job p w = Inr (Some used, t) \<and> mbd_inv t \<and> sched_kept s t \<and>
    (\<forall>x. x \<noteq> p \<longrightarrow> minor (job_heap s x) (job_heap t x)) \<and>
    job_lists t = lists_move (job_lists s) p JOB_LIST_PEND JOB_LIST_RUN \<and> dispatched e s t p"
proof -
  let ?hs = "h # hs" and ?j = "job_heap s p" and ?jw = "launch_job e (h # hs) a (job_heap s p)"
  let ?Q = "queue_launch (jr_num_cpus (jd_res ?j) * int (length ?hs)) (int (length ?hs))"
  note we = w [unfolded launch_eq]
  note ok = inv_parts(5) [OF inv p]
  have l: "jd_list_id ?j = JOB_LIST_PEND" using inv_parts(4) [OF inv p] by simp
  have st: "jd_state ?j = JOB_PENDING" using ready by (simp add: job_is_ready_def)
  have pl: "distinct ?hs" "set ?hs \<subseteq> set (host_list s)" "int (length ?hs) = jr_num_hosts (jd_res ?j)"
    "\<And>x. x \<in> set ?hs \<Longrightarrow> host_fits (host_heap s x) ?j \<and> host_in_queue_group s q x"
    using plan by (auto simp: plan_for_def host_serves_def)
  have hsw: "run_hosts_are (job_heap w p) ?hs" "jd_queue (job_heap w p) = Some q"
    using q by (simp_all add: we launch_job_def run_hosts_are_def)
  obtain t hp hh ph where c: "charge_job p w = Inr (Some (jr_num_cpus (jd_res (job_heap w p)) * int (length ?hs)), t)"
    and t: "t = w\<lparr>job_heap := hp, host_heap := hh, pool_heap := ph,
      queue_heap := (queue_heap w)(q := queue_launch (jr_num_cpus (jd_res (job_heap w p)) * int (length ?hs))
        (int (length ?hs)) (queue_heap w q))\<rparr>"
    and m: "\<And>x. minor (job_heap w x) (hp x)"
    and hh: "\<And>x. hh x = (if x \<in> set ?hs then charge_host (job_heap w p) (host_heap w x) else host_heap w x)"
    and ph: "\<And>k. tp_free (ph k) = tp_free (pool_heap w k) -
      token_weight (token_pool_name_hash w) k (jr_tokens (jd_res (job_heap w p)))"
      "\<And>k. tp_total (ph k) = tp_total (pool_heap w k)"
    by (rule charge_job_result [OF hsw(1) pl(1) hsw(2)]) blast
  obtain n1 n2 where "hp p = (job_heap w p)\<lparr>jd_dep_refcnt := n1, jd_array_element_cnt := n2\<rparr>" by (rule minorE [OF m])
  then have jp: "hp p = ?jw\<lparr>jd_dep_refcnt := n1, jd_array_element_cnt := n2\<rparr>" by (simp add: we)
  have jf: "jd_res (hp p) = jd_res ?j" "jd_flags (hp p) = jd_flags ?j" "jd_state (hp p) = JOB_RUNNING"
    "jd_list_id (hp p) = JOB_LIST_RUN" "jd_queue (hp p) = Some q" "jd_job_id (hp p) = jd_job_id ?j"
    "jd_run_nhosts (hp p) = int (length ?hs)" "jd_run_hosts (hp p) = map Some ?hs" "jd_deps (hp p) = jd_deps ?j"
    "array_same ?j (hp p)"
    using q now by (simp_all add: jp launch_job_def array_same_def times_ok_def)
  have others: "minor (job_heap s x) (hp x)" if "x \<noteq> p" for x using m [of x] that by (simp add: we)
  have tf: "job_heap t = hp" "host_heap t = hh" "pool_heap t = ph"
    "queue_heap t = (queue_heap s)(q := queue_launch (jr_num_cpus (jd_res ?j) * int (length ?hs))
        (int (length ?hs)) (queue_heap s q))"
    "job_lists t = lists_move (job_lists s) p JOB_LIST_PEND JOB_LIST_RUN"
    "outq t = outq w" "host_list t = host_list s" "fixed_parts s t" "submit_files t = submit_files s"
    "script_files t = script_files s" "job_id_hash t = job_id_hash s" "mgr_uid t = mgr_uid s"
    "host_name_hash t = host_name_hash s" "sbd_chan_hash t = sbd_chan_hash s" "queue_list t = queue_list s"
    unfolding t fixed_parts_def by (simp_all add: we launch_job_def)
  have ch: "charge_host ?jw = charge_host (hp p)"
    by (rule charge_same) (simp_all add: jf launch_job_def)
  have taken: "\<exists>g' d. host_heap t x = (if x \<in> set ?hs then charge_host (job_heap t p) (host_heap s x)
      else host_heap s x)\<lparr>mh_candidate := d, mh_gpu := g'\<rparr>" for x
  proof (cases "x = h")
    case True
    show ?thesis
      by (rule exI [of _ g], rule exI [of _ "mh_candidate (charge_host (hp p) (host_heap s h))"])
        (simp add: True tf hh ch charge_gpu we)
  next
    case False
    let ?y = "if x \<in> set ?hs then charge_host (hp p) (host_heap s x) else host_heap s x"
    show ?thesis
      by (rule exI [of _ "mh_gpu ?y"], rule exI [of _ "mh_candidate ?y"]) (use False in \<open>simp add: tf hh ch we\<close>)
  qed
  have "mbd_inv t"
  proof (rule inv_enter_run [OF inv p _ pl(2)])
    show "run_hosts_are (job_heap t p) ?hs" by (simp add: tf run_hosts_are_def jf)
    show "job_ok (queue_list s) (host_list s) (job_heap t p)"
      unfolding job_ok_def tf jf
    proof (intro conjI impI)
      show "\<exists>q' \<in> set (queue_list s). Some q = Some q'" using ok q by (auto simp: job_ok_def)
      show "\<exists>hs'. run_hosts_are (hp p) hs' \<and> distinct hs' \<and> set hs' \<subseteq> set (host_list s) \<and>
          (JOB_LIST_RUN = JOB_LIST_RUN \<longrightarrow> hs' \<noteq> [])"
        by (rule exI [of _ ?hs]) (use pl(1,2) in \<open>simp add: run_hosts_are_def jf\<close>)
      show "length (map Some ?hs) = nat (jr_num_hosts (jd_res ?j))" using pl(3) by simp
      show "int (length ?hs) = 0 \<or> int (length ?hs) = jr_num_hosts (jd_res ?j)" using pl(3) by simp
      show "int (length ?hs) \<noteq> 0" by simp
    qed (use ok in \<open>simp_all add: job_ok_def\<close>)
    show "queues_follow p s t"
    proof (rule queues_follow_upd [where q = q and f = ?Q])
      show "q_ctr c (?Q (queue_heap s q)) = q_ctr c (queue_heap s q) + (q_share c (job_heap t p) - q_share c ?j)" for c
        by (cases c) (simp_all add: queue_launch_def tf jf l st)
    qed (simp_all add: tf jf q queue_launch_def)
    show "host_fits (host_heap s x) (job_heap t p)" if "x \<in> set ?hs" for x
      using pl(4) [OF that] by (simp add: host_fits_def tf jf)
  qed (use ph taken in \<open>simp_all add: tf jf minor_same_load [OF others]\<close>, simp_all add: we launch_job_def)
  moreover have chan: "mh_sbd_chan (host_heap t x) = mh_sbd_chan (host_heap s x)" for x
    by (auto simp: tf hh we charge_host_def Let_def)
  moreover have "keeps s t"
    by (rule keepsI [where p = p and a = JOB_LIST_PEND and b = JOB_LIST_RUN])
      (simp_all add: chan, simp_all add: tf jf others p queue_launch_def)
  moreover have "sched_kept s t"
    unfolding sched_kept_def
  proof (intro conjI allI)
    show "keeps s t" by fact
    fix x
    show "jd_deps (job_heap t x) = jd_deps (job_heap s x)" "jd_queue (job_heap t x) = jd_queue (job_heap s x)"
      using others [of x] jf q by (cases "x = p"; auto simp: tf minor_def)+
    show "mh_sbd_chan (host_heap t x) = mh_sbd_chan (host_heap s x)" "mh_name (host_heap t x) = mh_name (host_heap s x)"
      "mh_candidate (host_heap t x) \<longrightarrow> mh_candidate (host_heap s x)"
      by (auto simp: tf hh we charge_host_def Let_def split: if_splits)
    show "mq_state (queue_heap t x) = mq_state (queue_heap s x)" "mq_host_hash (queue_heap t x) = mq_host_hash (queue_heap s x)"
      by (simp_all add: tf queue_launch_def)
    show "set (outq s) \<subseteq> set (outq t)" by (auto simp: tf we)
  qed
  moreover have "dispatched e s t p"
    unfolding dispatched_def
  proof (intro conjI exI)
    show "run_hosts_are (job_heap t p) (h # hs)" by (simp add: tf run_hosts_are_def jf)
    show "\<lparr>msg_chan = mh_sbd_chan (host_heap s h), msg_op = BATCH_NEW_JOB, msg_status = MBD_OK,
            msg_body = Start_body ws\<rparr> \<in> set (outq t)" by (simp add: tf we)
  qed (use ready q open_q pl ws in auto)
  ultimately show ?thesis using c tf(1,5) others by auto
qed

text \<open>A round in which a pending job stays pending.\<close>

definition stays :: "jptr \<Rightarrow> mbd \<Rightarrow> mbd \<Rightarrow> bool" where
  "stays p s t \<longleftrightarrow> mbd_inv t \<and> sched_kept s t \<and> job_lists t = job_lists s \<and>
     (\<forall>x. x \<noteq> p \<longrightarrow> minor (job_heap s x) (job_heap t x))"

lemma stays_upd:
  assumes inv: "mbd_inv s" and p: "p \<in> set (job_lists s JOB_LIST_PEND)"
    and t: "t = s\<lparr>job_heap := (job_heap s)(p := j), host_heap := (host_heap s)(h := (host_heap s h)\<lparr>mh_gpu := g\<rparr>)\<rparr>"
    and j: "jd_res j = jd_res (job_heap s p)" "jd_flags j = jd_flags (job_heap s p)" "jd_state j = jd_state (job_heap s p)"
      "jd_list_id j = jd_list_id (job_heap s p)" "jd_queue j = jd_queue (job_heap s p)" "jd_deps j = jd_deps (job_heap s p)"
      "length (jd_run_hosts j) = length (jd_run_hosts (job_heap s p))" "array_same (job_heap s p) j"
      "\<exists>hs. run_hosts_are j hs \<and> distinct hs \<and> set hs \<subseteq> set (host_list s)"
      "jd_run_nhosts j = jd_run_nhosts (job_heap s p) \<or> jd_run_nhosts j = jr_num_hosts (jd_res (job_heap s p))"
      "jd_dispatch_time j = jd_dispatch_time (job_heap s p)"
  shows "stays p s t"
proof -
  let ?u = "s\<lparr>job_heap := (job_heap s)(p := j)\<rparr>"
  have l: "jd_list_id (job_heap s p) = JOB_LIST_PEND" using inv_parts(4) [OF inv p] by simp
  have id: "jd_job_id j = jd_job_id (job_heap s p)" using j(8) by (simp add: array_same_def times_ok_def)
  have "mbd_inv ?u"
  proof (rule inv_pend_move [OF inv p, where b = JOB_LIST_PEND])
    show "job_ok (queue_list s) (host_list s) (job_heap ?u p)"
      using inv_parts(5) [OF inv p] l j(9,10) by (auto simp add: job_ok_def j(1-8,11))
    have "q_share c j = q_share c (job_heap s p)" for c using l by (cases c) (simp_all add: j)
    then show "queues_follow p s ?u" by (simp add: queues_follow_def q_weight_def j)
  qed (simp_all add: id j l fixed_parts_def)
  then have "mbd_inv t" by (rule inv_frame) (simp_all add: t)
  moreover have "keeps s t" by (rule keepsI [where p = p]) (simp_all add: t j)
  ultimately show ?thesis by (simp add: stays_def sched_kept_def t j)
qed

lemma stays_reason:
  assumes "mbd_inv s" and "p \<in> set (job_lists s JOB_LIST_PEND)"
  shows "stays p s (set_reason p r s)"
  by (rule stays_upd [OF assms, where h = 0 and g = "mh_gpu (host_heap s 0)" and j = "(job_heap s p)\<lparr>jd_pend_reason := r\<rparr>"])
    (use inv_parts(5) [OF assms] in \<open>auto simp: set_reason_def upd_job_def array_same_def times_ok_def job_ok_def run_hosts_are_def\<close>)

lemma stays_failed:
  assumes "mbd_inv s" and "p \<in> set (job_lists s JOB_LIST_PEND)" and "plan_for s p q hs"
  shows "stays p s (gpu_taken p h g a (set_reason p PEND_NONE (planned p hs s)))"
proof (rule stays_upd [OF assms(1,2), where h = h and g = g and
      j = "(job_heap s p)\<lparr>jd_run_nhosts := int (length hs), jd_run_hosts := map Some hs, jd_pend_reason := PEND_NONE,
        jd_gpu_assigned := a\<rparr>"])
  show "gpu_taken p h g a (set_reason p PEND_NONE (planned p hs s)) =
    s\<lparr>job_heap := (job_heap s)(p := (job_heap s p)\<lparr>jd_run_nhosts := int (length hs), jd_run_hosts := map Some hs,
       jd_pend_reason := PEND_NONE, jd_gpu_assigned := a\<rparr>),
      host_heap := (host_heap s)(h := (host_heap s h)\<lparr>mh_gpu := g\<rparr>)\<rparr>"
    by (rule mbd.equality) (simp_all add: gpu_taken_def set_reason_def planned_def upd_job_def upd_host_def)
  have "length (jd_run_hosts (job_heap s p)) = nat (jr_num_hosts (jd_res (job_heap s p)))"
    using inv_parts(5) [OF assms(1,2)] by (simp add: job_ok_def)
  then show "length (jd_run_hosts ((job_heap s p)\<lparr>jd_run_nhosts := int (length hs), jd_run_hosts := map Some hs,
      jd_pend_reason := PEND_NONE, jd_gpu_assigned := a\<rparr>)) = length (jd_run_hosts (job_heap s p))"
    using assms(3) by (simp add: plan_for_def) linarith
  show "\<exists>hs'. run_hosts_are ((job_heap s p)\<lparr>jd_run_nhosts := int (length hs), jd_run_hosts := map Some hs,
      jd_pend_reason := PEND_NONE, jd_gpu_assigned := a\<rparr>) hs' \<and> distinct hs' \<and> set hs' \<subseteq> set (host_list s)"
    by (rule exI [of _ hs]) (use assms(3) in \<open>simp add: run_hosts_are_def plan_for_def\<close>)
qed (use assms(3) in \<open>simp_all add: array_same_def times_ok_def plan_for_def\<close>)

text \<open>
  What a round needs of its surroundings: a clock, the files of the pending jobs, and
  conditions whose evaluation fits the stack.
\<close>

definition deps_fit :: "job_dep list \<Rightarrow> bool" where
  "deps_fit ds \<longleftrightarrow> ds = [] \<or> (\<exists>r x. calls_ok r x \<and> cells x \<le> DEP_MAX_STACK \<and> ds = postfix x)"

definition sched_ok :: "env \<Rightarrow> mbd \<Rightarrow> bool" where
  "sched_ok e s \<longleftrightarrow> 0 < e_now e \<and>
     (\<forall>p \<in> set (job_lists s JOB_LIST_PEND). files_ready e (jd_job_id (job_heap s p)) s \<and>
        deps_fit (jd_deps (job_heap s p)))"

definition chans_ok :: "mbd \<Rightarrow> bool" where
  "chans_ok s \<longleftrightarrow> (\<forall>h \<in> set (host_list s). mh_candidate (host_heap s h) \<longrightarrow> 0 < mh_sbd_chan (host_heap s h))"

lemma job_dep_satisfied_ok: "deps_fit (jd_deps (job_heap s p)) \<Longrightarrow> \<exists>b. job_dep_satisfied p s = Inr b"
  by (auto simp: deps_fit_def job_dep_satisfied_def dep_list_eval_postfix split: sum.splits)

lemma sched_ok_kept:
  assumes "sched_kept s t" and "set (job_lists t JOB_LIST_PEND) \<subseteq> set (job_lists s JOB_LIST_PEND)"
  shows "sched_ok e s \<Longrightarrow> sched_ok e t" and "chans_ok s \<Longrightarrow> chans_ok t"
  using assms
  by (auto simp: sched_ok_def chans_ok_def sched_kept_def keeps_def files_ready_def array_same_def times_ok_def)

text \<open>Nothing keeps the job from starting.\<close>

definition startable :: "env \<Rightarrow> jptr \<Rightarrow> mbd \<Rightarrow> bool" where
  "startable e p s \<longleftrightarrow> job_is_ready e (job_heap s p) \<and>
     (\<exists>q. jd_queue (job_heap s p) = Some q \<and> mq_state (queue_heap s q) \<noteq> QUEUE_CLOSED) \<and>
     tokens_available p s \<and> job_dep_satisfied p s = Inr True \<and> (\<exists>d u. build_host_plan p s = Inr (True, d, u)) \<and>
     e_sign_ok e \<and> (\<forall>c. e_send_ok e c BATCH_NEW_JOB)"

lemma schedule_job_step:
  assumes inv: "mbd_inv s" and ok: "sched_ok e s" "chans_ok s" and p: "p \<in> set (job_lists s JOB_LIST_PEND)"
  shows "(\<exists>t. schedule_job e p s = Inr (None, t) \<and> stays p s t \<and> \<not> startable e p s) \<or>
    (\<exists>used t. schedule_job e p s = Inr (Some used, t) \<and> mbd_inv t \<and> sched_kept s t \<and>
      (\<forall>x. x \<noteq> p \<longrightarrow> minor (job_heap s x) (job_heap t x)) \<and>
      job_lists t = lists_move (job_lists s) p JOB_LIST_PEND JOB_LIST_RUN \<and> dispatched e s t p)"
proof -
  let ?j = "job_heap s p"
  note jok = inv_parts(5) [OF inv p]
  obtain q where q: "jd_queue ?j = Some q" using job_ok_queue [OF jok] by blast
  have f: "files_ready e (jd_job_id ?j) s" "deps_fit (jd_deps ?j)" "0 < e_now e" using ok(1) p by (simp_all add: sched_ok_def)
  obtain sat where sat: "job_dep_satisfied p s = Inr sat" using job_dep_satisfied_ok [OF f(2)] by blast
  note st = stays_reason [OF inv p]
  show ?thesis
  proof (cases "job_is_ready e ?j \<and> mq_state (queue_heap s q) \<noteq> QUEUE_CLOSED \<and> tokens_available p s \<and> sat")
    case False
    then have "\<not> startable e p s" by (auto simp: startable_def q sat)
    then show ?thesis using False st by (auto simp: schedule_job_def job_queue_def q sat)
  next
    case True
    then have c: "schedule_job e p s = bindE (build_host_plan p s) (\<lambda>(found, d, s1).
        if \<not> found then Inr (None, set_reason p (diag_reason d) s1)
        else bindE (mbd_dispatch_job e p (set_reason p PEND_NONE s1)) (\<lambda>(sent, s2).
          if \<not> sent then Inr (None, s2) else charge_job p s2))"
      by (simp add: schedule_job_def job_queue_def q sat)
    obtain d where "build_host_plan p s = Inr (False, d, s) \<or>
        (\<exists>hs. plan_for s p q hs \<and> build_host_plan p s = Inr (True, d, planned p hs s))"
      using build_host_plan_result [OF inv p q] by blast
    then show ?thesis
    proof (elim disjE exE conjE)
      assume "build_host_plan p s = Inr (False, d, s)"
      then show ?thesis using st by (simp add: c startable_def)
    next
      fix hs0 assume pl0: "plan_for s p q hs0" and b: "build_host_plan p s = Inr (True, d, planned p hs0 s)"
      have "hs0 \<noteq> []" using pl0 jok by (auto simp: plan_for_def job_ok_def)
      then obtain h hs where hs: "hs0 = h # hs" by (cases hs0) auto
      note pl = pl0 [unfolded hs]
      define u where "u = set_reason p PEND_NONE (planned p (h # hs) s)"
      have u: "job_heap u p = ?j\<lparr>jd_run_nhosts := int (length (h # hs)), jd_run_hosts := map Some (h # hs),
          jd_pend_reason := PEND_NONE\<rparr>" "host_heap u = host_heap s" "job_lists u = job_lists s"
        "submit_files u = submit_files s" "script_files u = script_files s"
        by (simp_all add: u_def set_reason_def planned_def)
      have "h \<in> set (host_list s)" "host_serves (host_heap s h) ?j" using pl by (auto simp: plan_for_def)
      then have hc: "0 < mh_sbd_chan (host_heap u h)" "0 < jr_num_gpus (jd_res (job_heap u p)) \<Longrightarrow>
          jr_num_gpus (jd_res (job_heap u p)) \<le> gpu_ids_count_free (mh_gpu (host_heap u h))"
        using ok(2) by (simp_all add: chans_ok_def host_serves_def u)
      have "run_hosts_are (job_heap u p) (h # hs)" "files_ready e (jd_job_id (job_heap u p)) u"
        "jd_queue (job_heap u p) = Some q" "p \<in> set (job_lists u JOB_LIST_PEND)"
        using f(1) q p by (simp_all add: u run_hosts_are_def files_ready_def)
      from mbd_dispatch_job_result [OF this(1) hc(1) this(2,3) hc(2) this(4) f(3)]
      obtain g a where "mbd_dispatch_job e p u = Inr (False, gpu_taken p h g a u) \<and>
          \<not> (e_sign_ok e \<and> e_send_ok e (mh_sbd_chan (host_heap s h)) BATCH_NEW_JOB) \<or>
        (\<exists>ws ev. wt_job_id ws = jd_job_id ?j \<and>
         mbd_dispatch_job e p u = Inr (True, started e p (mh_sbd_chan (host_heap s h)) ws ev (gpu_taken p h g a u)))"
        by (auto simp: u)
      then show ?thesis
      proof (elim disjE exE conjE)
        assume "mbd_dispatch_job e p u = Inr (False, gpu_taken p h g a u)"
          "\<not> (e_sign_ok e \<and> e_send_ok e (mh_sbd_chan (host_heap s h)) BATCH_NEW_JOB)"
        then show ?thesis
          using stays_failed [OF inv p pl, of h g a] by (auto simp: c b hs u_def [symmetric] startable_def)
      next
        fix ws ev
        assume ws: "wt_job_id ws = jd_job_id ?j"
          and m: "mbd_dispatch_job e p u = Inr (True, started e p (mh_sbd_chan (host_heap s h)) ws ev (gpu_taken p h g a u))"
        from launch_step [OF inv p q pl _ u_def [THEN arg_cong, of "\<lambda>u. started e p (mh_sbd_chan (host_heap s h)) ws ev (gpu_taken p h g a u)"] ws f(3)] True
        show ?thesis by (simp add: c b hs u_def [symmetric] m)
      qed
    qed
  qed
qed

section \<open>A round keeps the invariant\<close>

lemma dispatched_before:
  assumes "sched_kept s s'" and "minor (job_heap s p) (job_heap s' p)" and "dispatched e s' t p"
  shows "dispatched e s t p"
proof -
  obtain n m where j: "job_heap s' p = (job_heap s p)\<lparr>jd_dep_refcnt := n, jd_array_element_cnt := m\<rparr>"
    by (rule minorE [OF assms(2)])
  show ?thesis
    using assms(1,3) by (auto simp: dispatched_def job_is_ready_def j sched_kept_def keeps_def host_in_queue_group_def)
qed

lemma dispatched_after:
  assumes "sched_kept t t'" and "minor (job_heap t p) (job_heap t' p)" and "dispatched e s t p"
  shows "dispatched e s t' p"
proof -
  obtain n m where j: "job_heap t' p = (job_heap t p)\<lparr>jd_dep_refcnt := n, jd_array_element_cnt := m\<rparr>"
    by (rule minorE [OF assms(2)])
  have "run_hosts_are (job_heap t' p) hs = run_hosts_are (job_heap t p) hs" for hs by (simp add: run_hosts_are_def j)
  then show ?thesis using assms(1,3) unfolding dispatched_def sched_kept_def by blast
qed

definition round_step :: "env \<Rightarrow> jptr list \<Rightarrow> mbd \<Rightarrow> mbd \<Rightarrow> bool" where
  "round_step e ps s t \<longleftrightarrow> mbd_inv t \<and> sched_kept s t \<and>
     (\<forall>x. x \<notin> set ps \<longrightarrow> minor (job_heap s x) (job_heap t x) \<and>
        (\<forall>l. x \<in> set (job_lists t l) \<longleftrightarrow> x \<in> set (job_lists s l))) \<and>
     (\<forall>x \<in> set ps. x \<in> set (job_lists t JOB_LIST_PEND) \<or>
        x \<in> set (job_lists t JOB_LIST_RUN) \<and> dispatched e s t x)"

lemma round_step_stays:
  assumes s: "stays p s s'" and p: "p \<in> set (job_lists s JOB_LIST_PEND)" "p \<notin> set ps" and r: "round_step e ps s' t"
  shows "round_step e (p # ps) s t"
proof -
  note s = s [unfolded stays_def] and r = r [unfolded round_step_def]
  have "sched_kept s t" using s r sched_kept_trans by blast
  moreover have "minor (job_heap s x) (job_heap t x)" if "x \<notin> set (p # ps)" for x
    using s r that minor_trans [of "job_heap s x" "job_heap s' x" "job_heap t x"] by simp
  moreover have "dispatched e s t x" if "x \<in> set ps" "dispatched e s' t x" for x
    by (rule dispatched_before [OF _ _ that(2)]) (use s p that in auto)
  moreover have "x \<in> set (job_lists t l) \<longleftrightarrow> x \<in> set (job_lists s l)" if "x \<notin> set ps" for x l
    using s r that by simp
  ultimately show ?thesis using r p unfolding round_step_def by auto
qed

lemma round_step_launch:
  assumes kept: "sched_kept s s'" and others: "\<And>x. x \<noteq> p \<Longrightarrow> minor (job_heap s x) (job_heap s' x)"
    and lists: "job_lists s' = lists_move (job_lists s) p JOB_LIST_PEND JOB_LIST_RUN" and d: "dispatched e s s' p"
    and inv: "mbd_inv s" and p: "p \<in> set (job_lists s JOB_LIST_PEND)" "p \<notin> set ps" and r: "round_step e ps s' t"
  shows "round_step e (p # ps) s t"
proof -
  note r = r [unfolded round_step_def]
  note mem = lists_move_mem [OF inv_parts(1) [OF inv] p(1)]
  have "sched_kept s t" using kept r sched_kept_trans by blast
  moreover have "minor (job_heap s x) (job_heap t x)" if "x \<notin> set (p # ps)" for x
    using others r that minor_trans [of "job_heap s x" "job_heap s' x" "job_heap t x"] by simp
  moreover have "dispatched e s t x" if "x \<in> set ps" "dispatched e s' t x" for x
    by (rule dispatched_before [OF kept others that(2)]) (use p that in auto)
  moreover have "x \<in> set (job_lists t l) \<longleftrightarrow> x \<in> set (job_lists s l)" if "x \<notin> set (p # ps)" for x l
    using r that mem [of x JOB_LIST_RUN l] by (simp add: lists)
  moreover have "dispatched e s t p" "p \<in> set (job_lists t JOB_LIST_RUN)"
    using dispatched_after [OF _ _ d, of t] r p mem [of p JOB_LIST_RUN JOB_LIST_RUN] by (auto simp: lists)
  ultimately show ?thesis using r unfolding round_step_def by auto
qed

lemma round_step_refl:
  assumes "mbd_inv s" and "set ps \<subseteq> set (job_lists s JOB_LIST_PEND)"
  shows "round_step e ps s s"
  using assms by (auto simp: round_step_def)

lemma schedule_loop_step:
  assumes "mbd_inv s" and "sched_ok e s" and "chans_ok s" and "distinct ps"
    and "set ps \<subseteq> set (job_lists s JOB_LIST_PEND)"
  shows "\<exists>t. schedule_loop e ps free_slots s = Inr t \<and> round_step e ps s t"
  using assms
proof (induction ps arbitrary: s free_slots)
  case Nil
  then show ?case using round_step_refl [of s "[]" e] by simp
next
  case (Cons p ps)
  then have p: "p \<in> set (job_lists s JOB_LIST_PEND)" "p \<notin> set ps" by simp_all
  note mem = lists_move_mem [OF inv_parts(1) [OF Cons.prems(1)] p(1)]
  from schedule_job_step [OF Cons.prems(1-3) p(1)] show ?case
  proof (elim disjE exE conjE)
    fix s' assume c: "schedule_job e p s = Inr (None, s')" and st: "stays p s s'"
    note st' = st [unfolded stays_def]
    have "\<exists>t. schedule_loop e ps free_slots s' = Inr t \<and> round_step e ps s' t"
      by (rule Cons.IH) (use st' sched_ok_kept [of s s'] Cons.prems in auto)
    then show ?case using round_step_stays [OF st p] c by auto
  next
    fix used s'
    assume c: "schedule_job e p s = Inr (Some used, s')" and i: "mbd_inv s'" and k: "sched_kept s s'"
      and m: "\<forall>x. x \<noteq> p \<longrightarrow> minor (job_heap s x) (job_heap s' x)"
      and l: "job_lists s' = lists_move (job_lists s) p JOB_LIST_PEND JOB_LIST_RUN" and d: "dispatched e s s' p"
    have sub: "set ps \<subseteq> set (job_lists s' JOB_LIST_PEND)"
      "set (job_lists s' JOB_LIST_PEND) \<subseteq> set (job_lists s JOB_LIST_PEND)"
      using Cons.prems(5) p mem [of _ JOB_LIST_RUN JOB_LIST_PEND] by (auto simp: l split: if_splits)
    have "\<exists>t. schedule_loop e ps (free_slots - used) s' = Inr t \<and> round_step e ps s' t"
      by (rule Cons.IH) (use i sched_ok_kept [OF k sub(2)] Cons.prems sub(1) in auto)
    then have "\<exists>t. (if free_slots - used \<le> 0 then Inr s' else schedule_loop e ps (free_slots - used) s') = Inr t \<and>
        round_step e ps s' t"
      using round_step_refl [OF i sub(1), of e] by auto
    then show ?case using round_step_launch [OF k _ l d Cons.prems(1) p] m c by auto
  qed
qed

lemma fold_mark_candidate:
  "fold mark_candidate hs (n, s) =
    (n + tally (\<lambda>h. if is_candidate (host_heap s h) then mh_free_cpu (host_heap s h) else 0) hs,
     s\<lparr>host_heap := (\<lambda>h. if h \<in> set hs then (host_heap s h)\<lparr>mh_candidate := is_candidate (host_heap s h)\<rparr>
       else host_heap s h)\<rparr>)"
proof (induction hs arbitrary: n s)
  case Nil
  then show ?case by simp
next
  case (Cons h hs)
  let ?s = "upd_host h (\<lambda>x. x\<lparr>mh_candidate := is_candidate (host_heap s h)\<rparr>) s"
  have i: "is_candidate (x\<lparr>mh_candidate := b\<rparr>) = is_candidate x" for x b by (simp add: is_candidate_def)
  let ?f = "\<lambda>s h. if is_candidate (host_heap s h) then mh_free_cpu (host_heap s h) else 0"
  have c: "tally (?f ?s) hs = tally (?f s) hs" by (rule tally_cong) (simp add: i)
  have step: "mark_candidate h (n, s) = (n + ?f s h, ?s)" by (simp add: mark_candidate_def Let_def)
  have hp: "?s\<lparr>host_heap := (\<lambda>k. if k \<in> set hs then (host_heap ?s k)\<lparr>mh_candidate := is_candidate (host_heap ?s k)\<rparr>
      else host_heap ?s k)\<rparr> = s\<lparr>host_heap := (\<lambda>k. if k \<in> set (h # hs)
        then (host_heap s k)\<lparr>mh_candidate := is_candidate (host_heap s k)\<rparr> else host_heap s k)\<rparr>"
    by (rule mbd.equality) (auto simp: i fun_eq_iff upd_host_def)
  show ?case unfolding fold_Cons o_apply step Cons.IH c hp by simp
qed

lemma mark_candidates_result:
  obtains n hh where "mark_candidates s = (n, s\<lparr>host_heap := hh\<rparr>)"
    and "\<And>h. \<exists>b. hh h = (host_heap s h)\<lparr>mh_candidate := b\<rparr>"
    and "\<And>h. h \<in> set (host_list s) \<Longrightarrow> mh_candidate (hh h) = is_candidate (host_heap s h)"
proof (rule that)
  let ?hh = "\<lambda>h. if h \<in> set (host_list s) then (host_heap s h)\<lparr>mh_candidate := is_candidate (host_heap s h)\<rparr>
       else host_heap s h"
  show "mark_candidates s = (0 + tally (\<lambda>h. if is_candidate (host_heap s h) then mh_free_cpu (host_heap s h) else 0) (host_list s),
      s\<lparr>host_heap := ?hh\<rparr>)"
    unfolding mark_candidates_def by (rule fold_mark_candidate)
  show "\<exists>b. ?hh h = (host_heap s h)\<lparr>mh_candidate := b\<rparr>" for h
    by (cases "h \<in> set (host_list s)") (auto intro: exI [of _ "mh_candidate (host_heap s h)"])
qed simp

lemma inv_permute:
  assumes inv: "mbd_inv s" and ne: "job_lists s l \<noteq> []" and m: "mset xs = mset (job_lists s l)"
  shows "mbd_inv (s\<lparr>job_lists := (job_lists s)(l := xs)\<rparr>)"
proof -
  let ?t = "s\<lparr>job_lists := (job_lists s)(l := xs)\<rparr>"
  obtain p where p: "p \<in> set (job_lists s l)" using ne by (meson last_in_set)
  have set: "set (job_lists ?t k) = set (job_lists s k)" for k using mset_eq_setD [OF m] by simp
  show ?thesis
  proof (rule inv_job_step [OF inv])
    show "p \<in> set (all_jobs s)" using inv_parts(4) [OF inv p] by simp
    show "mset (all_jobs ?t) = mset (all_jobs s)" using m by (cases l) (simp_all add: all_jobs_def)
    show "jd_list_id (job_heap ?t x) = k" if "x \<in> set (job_lists ?t k)" for x k
      using inv_parts(4) [OF inv, of x k] that set by simp
    show "names_ok ?t" using inv_parts(3) [OF inv] by (simp add: names_ok_def)
  qed (use inv_parts(5,7) [OF inv] p in simp_all)
qed

lemma schedule_empty: "job_lists s JOB_LIST_PEND = [] \<Longrightarrow> schedule e s = Inr s"
  by (simp add: schedule_def)

lemma sorted_pend_mset: "mset (sorted_pend s) = mset (job_lists s JOB_LIST_PEND)"
  by (simp add: sorted_pend_def Let_def qs.sort_mset)

lemma schedule_unfold:
  assumes inv: "mbd_inv s" and ne: "job_lists s JOB_LIST_PEND \<noteq> []"
    and small: "length (job_lists s JOB_LIST_PEND) \<le> 131072"
    and m: "mark_candidates s = (n, s1)" "s1 = s\<lparr>host_heap := hh\<rparr>"
  shows "schedule e s = (if n = 0 then Inr s1
    else bindE (schedule_loop e (sorted_pend s) n (s1\<lparr>job_lists := (job_lists s)(JOB_LIST_PEND := sorted_pend s)\<rparr>))
      mbd_assert_counters)"
proof -
  have cmp: "pend_job_cmp s1 = pend_job_cmp s"
    by (simp add: m(2) pend_job_cmp_def queue_priority_def fun_eq_iff cong: option.case_cong)
  have q: "\<not> list_ex (\<lambda>p. jd_queue (job_heap s1 p) = None) (job_lists s1 JOB_LIST_PEND)"
    using job_ok_queue inv_parts(5) [OF inv] by (fastforce simp: m(2) list_ex_iff)
  show ?thesis using ne small m q
    by (simp add: schedule_def Let_def cmp [unfolded m(2)] sorted_pend_def)
qed

lemma inv_mark:
  assumes inv: "mbd_inv s" and hh: "\<And>h. \<exists>b. hh h = (host_heap s h)\<lparr>mh_candidate := b\<rparr>"
  shows "mbd_inv (s\<lparr>host_heap := hh\<rparr>)"
proof -
  have "same_host (host_heap s h) (hh h)" for h using hh [of h] by auto
  then show ?thesis by (intro inv_frame [OF inv]) simp_all
qed

lemma schedule_ready:
  assumes inv: "mbd_inv s" and ok: "sched_ok e s" and c: "\<forall>h \<in> set (host_list s). mh_sbd_chan (host_heap s h) \<noteq> 0"
    and ne: "job_lists s JOB_LIST_PEND \<noteq> []"
    and s2: "s2 = s\<lparr>host_heap := hh, job_lists := (job_lists s)(JOB_LIST_PEND := sorted_pend s)\<rparr>"
    and hh: "\<And>h. \<exists>b. hh h = (host_heap s h)\<lparr>mh_candidate := b\<rparr>"
      "\<And>h. h \<in> set (host_list s) \<Longrightarrow> mh_candidate (hh h) = is_candidate (host_heap s h)"
  shows "mbd_inv s2" "sched_ok e s2" "chans_ok s2" "distinct (sorted_pend s)"
    "set (sorted_pend s) = set (job_lists s JOB_LIST_PEND)" "\<And>l. set (job_lists s2 l) = set (job_lists s l)"
proof -
  have chan: "mh_sbd_chan (hh h) = mh_sbd_chan (host_heap s h)" for h using hh(1) [of h] by auto
  have i1: "mbd_inv (s\<lparr>host_heap := hh\<rparr>)" by (rule inv_mark [OF inv hh(1)])
  show set: "set (sorted_pend s) = set (job_lists s JOB_LIST_PEND)" using sorted_pend_mset by (rule mset_eq_setD)
  show "\<And>l. set (job_lists s2 l) = set (job_lists s l)" using set by (simp add: s2)
  have "distinct (job_lists s JOB_LIST_PEND)" using inv_parts(1) [OF inv] by (simp add: all_jobs_def)
  then show "distinct (sorted_pend s)" using mset_eq_imp_distinct_iff [OF sorted_pend_mset [of s]] by simp
  show "mbd_inv s2" using inv_permute [OF i1, of JOB_LIST_PEND "sorted_pend s"] ne sorted_pend_mset [of s] by (simp add: s2)
  show "sched_ok e s2" using ok set by (simp add: sched_ok_def s2 files_ready_def)
  show "chans_ok s2" using c hh(2) by (force simp: chans_ok_def s2 chan is_candidate_def)
qed

lemma schedule_step:
  assumes inv: "mbd_inv s" and ok: "sched_ok e s" and c: "\<forall>h \<in> set (host_list s). mh_sbd_chan (host_heap s h) \<noteq> 0"
    and small: "length (job_lists s JOB_LIST_PEND) \<le> 131072"
  shows "\<exists>t. schedule e s = Inr t \<and> mbd_inv t \<and> keeps s t \<and>
    (\<forall>p \<in> set (job_lists s JOB_LIST_PEND). p \<in> set (job_lists t JOB_LIST_PEND) \<or>
       p \<in> set (job_lists t JOB_LIST_RUN) \<and> dispatched e s t p) \<and>
    (\<forall>p. p \<notin> set (job_lists s JOB_LIST_PEND) \<longrightarrow> minor (job_heap s p) (job_heap t p) \<and>
       (\<forall>l. p \<in> set (job_lists t l) \<longleftrightarrow> p \<in> set (job_lists s l)))"
proof (cases "job_lists s JOB_LIST_PEND = []")
  case True
  then show ?thesis using inv by (simp add: schedule_empty)
next
  case ne: False
  obtain n hh where m: "mark_candidates s = (n, s\<lparr>host_heap := hh\<rparr>)"
    and hh: "\<And>h. \<exists>b. hh h = (host_heap s h)\<lparr>mh_candidate := b\<rparr>"
      "\<And>h. h \<in> set (host_list s) \<Longrightarrow> mh_candidate (hh h) = is_candidate (host_heap s h)"
    by (rule mark_candidates_result [of s]) blast
  define s2 where "s2 = s\<lparr>host_heap := hh, job_lists := (job_lists s)(JOB_LIST_PEND := sorted_pend s)\<rparr>"
  note r = schedule_ready [OF inv ok c ne s2_def hh]
  have sc: "schedule e s = (if n = 0 then Inr (s\<lparr>host_heap := hh\<rparr>)
      else bindE (schedule_loop e (sorted_pend s) n s2) mbd_assert_counters)"
    using schedule_unfold [OF inv ne small m refl] by (simp add: s2_def)
  have f: "job_heap s2 = job_heap s" "queue_heap s2 = queue_heap s" "host_list s2 = host_list s" by (simp_all add: s2_def)
  have d: "dispatched e s t p = dispatched e s2 t p" for t p
  proof -
    have n: "mh_name (hh h) = mh_name (host_heap s h)" "mh_sbd_chan (hh h) = mh_sbd_chan (host_heap s h)" for h
      using hh(1) [of h] by auto
    show ?thesis by (simp add: dispatched_def f host_in_queue_group_def n) (simp add: s2_def n)
  qed
  have al: "set (all_jobs s2) = set (all_jobs s)" using r(6) by (simp add: all_jobs_def)
  have hc: "mh_sbd_chan (hh h) = mh_sbd_chan (host_heap s h)" for h using hh(1) [of h] by auto
  have k: "keeps s s2" using al by (simp add: keeps_def array_same_def times_ok_def s2_def hc)
  show ?thesis
  proof (cases "n = 0")
    case True
    have "mbd_inv (s\<lparr>host_heap := hh\<rparr>)" by (rule inv_mark [OF inv hh(1)])
    moreover have "keeps s (s\<lparr>host_heap := hh\<rparr>)" by (simp add: keeps_def array_same_def times_ok_def all_jobs_def hc)
    ultimately show ?thesis using sc True by simp
  next
    case False
    obtain t where t: "schedule_loop e (sorted_pend s) n s2 = Inr t" "round_step e (sorted_pend s) s2 t"
      using schedule_loop_step [OF r(1-4), of n] r(5,6) by auto
    note t2 = t(2) [unfolded round_step_def]
    have "schedule e s = Inr t" using sc False t(1) t2 inv_assert_counters by simp
    moreover have "keeps s t" using keeps_trans [OF k] t2 by (simp add: sched_kept_def)
    ultimately show ?thesis using t2 by (simp add: r(5,6) d f)
  qed
qed

section \<open>The order of a round\<close>

text \<open>What the comparison means when no difference wraps.\<close>

definition runs_first :: "mbd \<Rightarrow> jptr \<Rightarrow> jptr \<Rightarrow> bool" where
  "runs_first s a b \<longleftrightarrow>
     queue_priority s b < queue_priority s a \<or> queue_priority s a = queue_priority s b \<and>
       (jd_priority (job_heap s b) < jd_priority (job_heap s a) \<or>
        jd_priority (job_heap s a) = jd_priority (job_heap s b) \<and>
          jd_job_id (job_heap s a) \<le> jd_job_id (job_heap s b))"

definition small_prio :: "mbd \<Rightarrow> jptr \<Rightarrow> bool" where
  "small_prio s p \<longleftrightarrow> \<bar>queue_priority s p\<bar> < 1073741824 \<and> \<bar>jd_priority (job_heap s p)\<bar> < 1073741824"

lemma pend_job_cmp_order:
  assumes "small_prio s a" and "small_prio s b"
  shows "pend_job_cmp s a b \<le> 0 \<longleftrightarrow> runs_first s a b"
proof -
  have "s32 (queue_priority s b - queue_priority s a) = queue_priority s b - queue_priority s a"
    "s32 (jd_priority (job_heap s b) - jd_priority (job_heap s a)) = jd_priority (job_heap s b) - jd_priority (job_heap s a)"
    using assms by (auto intro!: s32_id simp: in_s32_def small_prio_def)
  then show ?thesis by (auto simp: pend_job_cmp_def Let_def runs_first_def)
qed

lemma sorted_pend_order:
  assumes "\<And>p. p \<in> set (job_lists s JOB_LIST_PEND) \<Longrightarrow> small_prio s p"
  shows "sorted_wrt (runs_first s) (sorted_pend s)"
proof (cases "length (job_lists s JOB_LIST_PEND) < 2")
  case True
  then show ?thesis
    by (cases "job_lists s JOB_LIST_PEND"; cases "tl (job_lists s JOB_LIST_PEND)") (simp_all add: sorted_pend_def)
next
  case False
  let ?xs = "job_lists s JOB_LIST_PEND"
  have "sorted_wrt (\<lambda>a b. pend_job_cmp s a b \<le> 0) (qsort (pend_job_cmp s) ?xs)"
    by (rule qs.sort_sorted) (use assms in \<open>auto simp: pend_job_cmp_order runs_first_def\<close>)
  then have "sorted_wrt (runs_first s) (qsort (pend_job_cmp s) ?xs)"
    by (rule sorted_wrt_mono_rel [rotated]) (use assms in \<open>simp add: qs.sort_set pend_job_cmp_order\<close>)
  then show ?thesis using False by (simp add: sorted_pend_def)
qed

section \<open>Progress\<close>

definition host_usable :: "mbd \<Rightarrow> job_data \<Rightarrow> qptr \<Rightarrow> hptr \<Rightarrow> bool" where
  "host_usable s j q h \<longleftrightarrow> host_in_queue_group s q h \<and> fst (host_meets_requirements (host_heap s h) j zero_diag)"

lemma host_meets_fst: "fst (host_meets_requirements x j d) = fst (host_meets_requirements x j d')"
  by (simp add: host_meets_requirements_def)

lemma plan_listed_filter:
  assumes "length plan + length hs \<le> length (host_list s)"
  shows "\<exists>d'. foldE (plan_listed s j q) hs (plan, d) = Inr (plan @ filter (host_usable s j q) hs, d')"
  using assms
proof (induction hs arbitrary: plan d)
  case Nil
  then show ?case by simp
next
  case (Cons h hs)
  obtain b d1 where m: "host_meets_requirements (host_heap s h) j d = (b, d1)" by fastforce
  have fb: "fst (host_meets_requirements (host_heap s h) j zero_diag) = b"
    using host_meets_fst [of "host_heap s h" j zero_diag d] m by simp
  show ?case
  proof (cases "host_usable s j q h")
    case True
    then have "plan_listed s j q h (plan, d) = Inr (plan @ [h], d1)"
      using m fb Cons.prems by (simp add: host_usable_def plan_listed_def plan_host_def plan_put_def)
    then show ?thesis using Cons.IH [of "plan @ [h]" d1] Cons.prems True by simp
  next
    case False
    then have "\<exists>d2. plan_listed s j q h (plan, d) = Inr (plan, d2)"
      using m fb by (cases "host_in_queue_group s q h") (simp_all add: host_usable_def plan_listed_def plan_host_def)
    then obtain d2 where "plan_listed s j q h (plan, d) = Inr (plan, d2)" by blast
    then show ?thesis using Cons.IH [of plan d2] Cons.prems False by simp
  qed
qed

lemma hosts_len_le:
  "hosts_len s (take k xs) \<le> hosts_len s xs" "hosts_len s (filter P xs) \<le> hosts_len s xs"
  "mset xs = mset ys \<Longrightarrow> hosts_len s xs = hosts_len s ys"
proof -
  have "hosts_len s (take k xs) + hosts_len s (drop k xs) = hosts_len s (take k xs @ drop k xs)"
    unfolding hosts_len_def map_append sum_list_append by simp
  then show "hosts_len s (take k xs) \<le> hosts_len s xs" by simp
  show "hosts_len s (filter P xs) \<le> hosts_len s xs" by (induction xs) (simp_all add: hosts_len_def)
  show "hosts_len s xs = hosts_len s ys" if "mset xs = mset ys"
    unfolding hosts_len_def using that by (metis (no_types) mset_map sum_mset_sum_list)
qed

lemma build_host_plan_finds:
  assumes inv: "mbd_inv s" and p: "p \<in> set (job_lists s JOB_LIST_PEND)" and q: "jd_queue (job_heap s p) = Some q"
    and any: "ll_hash_count (jr_machines (jd_res (job_heap s p))) = 0"
    and enough: "jr_num_hosts (jd_res (job_heap s p)) \<le> int (length (filter (host_usable s (job_heap s p) q) (host_list s)))"
    and names: "hosts_len s (host_list s) < 8192"
  shows "\<exists>d hs. build_host_plan p s = Inr (True, d, planned p hs s)"
proof -
  let ?j = "job_heap s p" and ?n = "jr_num_hosts (jd_res (job_heap s p))"
  let ?f = "filter (host_usable s ?j q) (host_list s)"
  let ?s = "qsort (host_plan_cmp s) ?f"
  obtain d where f: "foldE (plan_listed s ?j q) (host_list s) ([], zero_diag) = Inr (?f, d)"
    using plan_listed_filter [of "[]" "host_list s" s ?j q zero_diag] by auto
  have ok: "length (jd_run_hosts ?j) = nat ?n" "1 \<le> ?n" using inv_parts(5) [OF inv p] by (simp_all add: job_ok_def)
  have "hosts_len s (take (nat ?n) ?s) \<le> hosts_len s ?s" by (rule hosts_len_le(1))
  moreover have "hosts_len s ?s = hosts_len s ?f" by (rule hosts_len_le(3)) (rule qs.sort_mset)
  moreover have "hosts_len s ?f \<le> hosts_len s (host_list s)" by (rule hosts_len_le(2))
  ultimately have "hosts_len s (take (nat ?n) ?s) < 8192" using names by linarith
  then have "commit_plan p ?n ?s d s = Inr (True, d, planned p (take (nat ?n) ?s) s)"
    using ok enough by (simp add: commit_plan_def Let_def planned_def qs.sort_length min_def)
  then show ?thesis
    using any f q enough by (auto simp: build_host_plan_def job_queue_def Let_def qs.sort_length)
qed

lemma loop_after_launch:
  assumes v: "schedule_job e p s = Inr (Some used, v)" "mbd_inv v" "sched_kept s v"
      "job_lists v = lists_move (job_lists s) p JOB_LIST_PEND JOB_LIST_RUN"
    and s: "mbd_inv s" "sched_ok e s" "chans_ok s" and p: "p \<in> set (job_lists s JOB_LIST_PEND)"
    and ps: "distinct ps" "p \<notin> set ps" "set ps \<subseteq> set (job_lists s JOB_LIST_PEND)"
  shows "\<exists>t. schedule_loop e (p # ps) n s = Inr t \<and> round_step e ps v t"
proof -
  note mem = lists_move_mem [OF inv_parts(1) [OF s(1)] p]
  have sub: "set ps \<subseteq> set (job_lists v JOB_LIST_PEND)"
    "set (job_lists v JOB_LIST_PEND) \<subseteq> set (job_lists s JOB_LIST_PEND)"
    using ps p mem [of _ JOB_LIST_RUN JOB_LIST_PEND] by (auto simp: v(4) split: if_splits)
  have "\<exists>t. schedule_loop e ps (n - used) v = Inr t \<and> round_step e ps v t"
    by (rule schedule_loop_step [OF v(2) _ _ ps(1) sub(1)]) (use sched_ok_kept [OF v(3) sub(2)] s in auto)
  then show ?thesis using v(1) round_step_refl [OF v(2) sub(1), of e] by auto
qed

text \<open>The state in which the loop of a round begins.\<close>

definition round_start :: "mbd \<Rightarrow> mbd" where
  "round_start s = (snd (mark_candidates s))\<lparr>job_lists := (job_lists s)(JOB_LIST_PEND := sorted_pend s)\<rparr>"

lemma schedule_starts_first:
  assumes inv: "mbd_inv s" and ok: "sched_ok e s" and c: "\<forall>h \<in> set (host_list s). mh_sbd_chan (host_heap s h) \<noteq> 0"
    and small: "length (job_lists s JOB_LIST_PEND) \<le> 131072"
    and ne: "job_lists s JOB_LIST_PEND \<noteq> []" and free: "fst (mark_candidates s) \<noteq> 0"
  shows "mbd_inv (round_start s)" "hd (sorted_pend s) \<in> set (job_lists (round_start s) JOB_LIST_PEND)"
    "startable e (hd (sorted_pend s)) (round_start s) \<Longrightarrow>
      \<exists>t. schedule e s = Inr t \<and> hd (sorted_pend s) \<in> set (job_lists t JOB_LIST_RUN)"
proof -
  let ?p = "hd (sorted_pend s)" and ?ps = "tl (sorted_pend s)"
  obtain n hh where m: "mark_candidates s = (n, s\<lparr>host_heap := hh\<rparr>)"
    and hh: "\<And>h. \<exists>b. hh h = (host_heap s h)\<lparr>mh_candidate := b\<rparr>"
      "\<And>h. h \<in> set (host_list s) \<Longrightarrow> mh_candidate (hh h) = is_candidate (host_heap s h)"
    by (rule mark_candidates_result [of s]) blast
  define u where "u = s\<lparr>host_heap := hh, job_lists := (job_lists s)(JOB_LIST_PEND := sorted_pend s)\<rparr>"
  have u: "round_start s = u" by (simp add: round_start_def m u_def)
  note r = schedule_ready [OF inv ok c ne u_def hh]
  have sc: "schedule e s = bindE (schedule_loop e (sorted_pend s) n u) mbd_assert_counters"
    using schedule_unfold [OF inv ne small m refl] free m by (simp add: u_def)
  have ps: "sorted_pend s = ?p # ?ps" using ne r(5) by (cases "sorted_pend s") auto
  have p: "?p \<in> set (job_lists u JOB_LIST_PEND)" using r(5,6) ps by (metis list.set_intros(1))
  show "mbd_inv (round_start s)" "?p \<in> set (job_lists (round_start s) JOB_LIST_PEND)" using r(1) p by (simp_all add: u)
  assume "startable e ?p (round_start s)"
  then obtain used v where v: "schedule_job e ?p u = Inr (Some used, v)" "mbd_inv v" "sched_kept u v"
    "job_lists v = lists_move (job_lists u) ?p JOB_LIST_PEND JOB_LIST_RUN"
    using schedule_job_step [OF r(1-3) p] u by auto
  obtain t where t: "schedule_loop e (?p # ?ps) n u = Inr t" "round_step e ?ps v t"
    using loop_after_launch [OF v r(1-3) p, of ?ps n] r(4-6) ps by (metis distinct.simps(2) set_subset_Cons)
  have "?p \<in> set (job_lists v JOB_LIST_RUN)" "?p \<notin> set ?ps"
    using lists_move_mem [OF inv_parts(1) [OF r(1)] p] r(4) ps by (simp add: v(4), metis distinct.simps(2))
  then have "?p \<in> set (job_lists t JOB_LIST_RUN)" using t(2) by (simp add: round_step_def)
  moreover have "mbd_inv t" using t(2) by (simp add: round_step_def)
  ultimately show "\<exists>t. schedule e s = Inr t \<and> ?p \<in> set (job_lists t JOB_LIST_RUN)"
    using sc t(1) ps inv_assert_counters by auto
qed

lemma inv_within_totals:
  assumes inv: "mbd_inv t" and h: "h \<in> set (host_list t)"
  shows "host_sum t h (\<lambda>j. jr_num_cpus (jd_res j)) \<le> mh_total_cpu (host_heap t h) \<and>
    host_sum t h (\<lambda>j. uint (jr_mem_mb (jd_res j))) \<le> uint (mh_total_mem_mb (host_heap t h)) \<and>
    host_sum t h (\<lambda>j. uint (jr_storage_mb (jd_res j))) \<le> uint (mh_total_storage_mb (host_heap t h))"
proof -
  have c: "host_sum t h (h_share c) = h_ctr c (host_heap t h)" for c
    using inv_parts(8) [OF inv h] load_host_sum [OF inv_parts(2) [OF inv]] by simp
  have f: "h_share H_taken = (\<lambda>j. jr_num_cpus (jd_res j))" "h_share H_mem = (\<lambda>j. uint (jr_mem_mb (jd_res j)))"
    "h_share H_storage = (\<lambda>j. uint (jr_storage_mb (jd_res j)))" by (simp_all add: fun_eq_iff)
  show ?thesis using c [of H_taken] c [of H_mem] c [of H_storage] inv_parts(7) [OF inv h]
    unfolding f by (simp add: host_ok_def)
qed

section \<open>Properties\<close>


definition ex_sched :: mbd where
  "ex_sched = ex_mbd\<lparr>submit_files := [1 \<mapsto> ''COMMAND=run''], script_files := [1 \<mapsto> ''run'']\<rparr>"

lemma ex_sched_fields [simp]:
  "job_heap ex_sched = job_heap ex_mbd" "host_heap ex_sched = host_heap ex_mbd" "host_list ex_sched = [0, 1]"
  "job_lists ex_sched = job_lists ex_mbd" "queue_heap ex_sched = queue_heap ex_mbd" "mbd_inv ex_sched"
  by (simp_all add: ex_sched_def)

lemma ex_sched_ok: "sched_ok ex_env ex_sched" "\<forall>h \<in> set (host_list ex_sched). mh_sbd_chan (host_heap ex_sched h) \<noteq> 0"
  "length (job_lists ex_sched JOB_LIST_PEND) \<le> 131072"
  by (simp_all add: sched_ok_def files_ready_def ex_env_def ex_defs deps_fit_def ex_host_def) (simp_all add: ex_sched_def)


text \<open>
  C9. No round gives away more than a host has: after it the processors, the memory
  and the storage of the jobs running on a host add up to at most the host's total.
\<close>

theorem schedule_no_overcommit:
  assumes "mbd_inv s" and "sched_ok e s" and "\<forall>h \<in> set (host_list s). mh_sbd_chan (host_heap s h) \<noteq> 0"
    and "length (job_lists s JOB_LIST_PEND) \<le> 131072"
  shows "\<exists>t. schedule e s = Inr t \<and> (\<forall>h \<in> set (host_list t).
    host_sum t h (\<lambda>j. jr_num_cpus (jd_res j)) \<le> mh_total_cpu (host_heap t h) \<and>
    host_sum t h (\<lambda>j. uint (jr_mem_mb (jd_res j))) \<le> uint (mh_total_mem_mb (host_heap t h)) \<and>
    host_sum t h (\<lambda>j. uint (jr_storage_mb (jd_res j))) \<le> uint (mh_total_storage_mb (host_heap t h)))"
proof -
  obtain t where "schedule e s = Inr t" "mbd_inv t" using schedule_step [OF assms] by blast
  then show ?thesis using inv_within_totals by blast
qed

theorem schedule_no_overcommit_witness:
  "\<exists>t. schedule ex_env ex_sched = Inr t \<and>
    (\<forall>h \<in> set (host_list t). host_sum t h (\<lambda>j. jr_num_cpus (jd_res j)) \<le> mh_total_cpu (host_heap t h))"
  using schedule_no_overcommit [OF ex_sched_fields(6) ex_sched_ok] by auto

text \<open>
  C11. The pending jobs are tried by decreasing priority of the queue, then decreasing
  priority of the job, then increasing number, as long as the priorities are below
  \<open>2 ^ 30\<close> in size, so that their differences do not wrap.
\<close>

theorem schedule_order:
  assumes "\<And>p. p \<in> set (job_lists s JOB_LIST_PEND) \<Longrightarrow> small_prio s p"
  shows "sorted_wrt (runs_first s) (sorted_pend s) \<and> mset (sorted_pend s) = mset (job_lists s JOB_LIST_PEND)"
  using sorted_pend_order [OF assms] sorted_pend_mset by blast

definition ex_two :: mbd where
  "ex_two = ex_mbd\<lparr>job_lists := (\<lambda>l. if l = JOB_LIST_PEND then [2, 1, 0] else [])\<rparr>"

theorem schedule_order_witness:
  "sorted_wrt (runs_first ex_two) (sorted_pend ex_two) \<and> mset (sorted_pend ex_two) = {#0, 1, 2#}"
proof -
  have "small_prio ex_two p" if "p \<in> set (job_lists ex_two JOB_LIST_PEND)" for p
    using that by (auto simp: ex_two_def small_prio_def queue_priority_def ex_defs ex_queue_def)
  from schedule_order [OF this] show ?thesis by (simp add: ex_two_def)
qed

text \<open>
  C10. Progress: when some host has free processors, the first job in the order is
  started by the round, if it is ready, its queue is open, its tokens and its condition
  allow it, it names no machines, enough hosts of its queue meet its requirements, and
  messages can be sent.
\<close>

theorem schedule_progress:
  assumes s: "mbd_inv s" "sched_ok e s" "\<forall>h \<in> set (host_list s). mh_sbd_chan (host_heap s h) \<noteq> 0"
      "length (job_lists s JOB_LIST_PEND) \<le> 131072"
    and ne: "job_lists s JOB_LIST_PEND \<noteq> []" and free: "fst (mark_candidates s) \<noteq> 0"
    and p: "p = hd (sorted_pend s)" and u: "u = round_start s"
    and ready: "job_is_ready e (job_heap u p)" "jd_queue (job_heap u p) = Some q"
      "mq_state (queue_heap u q) \<noteq> QUEUE_CLOSED" "tokens_available p u" "job_dep_satisfied p u = Inr True"
    and hosts: "ll_hash_count (jr_machines (jd_res (job_heap u p))) = 0"
      "jr_num_hosts (jd_res (job_heap u p)) \<le> int (length (filter (host_usable u (job_heap u p) q) (host_list u)))"
      "hosts_len u (host_list u) < 8192"
    and send: "e_sign_ok e" "\<forall>c. e_send_ok e c BATCH_NEW_JOB"
  shows "\<exists>t. schedule e s = Inr t \<and> p \<in> set (job_lists t JOB_LIST_RUN)"
proof -
  note f = schedule_starts_first [OF s ne free, folded p u]
  have "startable e p u"
    using build_host_plan_finds [OF f(1,2) ready(2) hosts] ready send unfolding startable_def by blast
  then show ?thesis by (rule f(3))
qed

theorem schedule_progress_witness: "\<exists>t. schedule ex_env ex_sched = Inr t \<and> 0 \<in> set (job_lists t JOB_LIST_RUN)"
proof -
  let ?u = "round_start ex_sched"
  have m: "mark_candidates ex_sched = (14, ex_sched\<lparr>host_heap := (\<lambda>h. if h \<in> {0, 1}
      then (host_heap ex_sched h)\<lparr>mh_candidate := True\<rparr> else host_heap ex_sched h)\<rparr>)"
    unfolding mark_candidates_def fold_mark_candidate
    by (auto simp: is_candidate_def ex_host_def HOST_OK_def fun_eq_iff)
  have sp: "sorted_pend ex_sched = [0]" by (simp add: sorted_pend_def)
  have u: "job_heap ?u 0 = ex_pend" "queue_heap ?u q = ex_queue" "host_list ?u = [0, 1]"
    "host_heap ?u 0 = (ex_host ''n1'' 2)\<lparr>mh_candidate := True\<rparr>"
    "host_heap ?u (Suc 0) = (ex_host ''n2'' 0)\<lparr>mh_candidate := True\<rparr>" for q
    by (simp_all add: round_start_def m)
  have us: "host_usable ?u ex_pend 0 0"
    by (simp add: host_usable_def host_in_queue_group_def u ex_queue_def table_of_search ex_host_def
        host_meets_requirements_def ex_defs has_flag_def)
  show ?thesis
  proof (rule schedule_progress [OF ex_sched_fields(6) ex_sched_ok _ _ _ refl, where q = 0])
    show "jr_num_hosts (jd_res (job_heap ?u 0)) \<le> int (length (filter (host_usable ?u (job_heap ?u 0) 0) (host_list ?u)))"
      using us by (simp add: u ex_defs)
  qed (simp_all add: sp m u job_is_ready_def ex_defs ex_queue_def QUEUE_CLOSED_def tokens_available_def
      job_dep_satisfied_def ht.create_empty hosts_len_def ex_host_def ex_env_def)
qed

end
