(* ===== verification/Mbd_Sbd.thy ===== *)
theory Mbd_Sbd
  imports Mbd_Sched
begin

text \<open>
  The master's side of the execution daemons: registration and loss of a daemon,
  and the handlers of its reports (\<open>mbd_sbd_register\<close>, \<open>mbd_sbd_route\<close>,
  \<open>mbd_job_missing\<close> of \<open>src/batch/mbd/sbd.c\<close>; \<open>mbd_new_job_reply\<close>,
  \<open>mbd_job_finish\<close>, \<open>mbd_job_signal_reply\<close> of \<open>job.c\<close>). A report takes a job off the
  running list and gives back exactly what its dispatch took. What a daemon sends is an
  argument: \<open>None\<close> when it cannot be decoded.
\<close>

section \<open>Messages of an execution daemon\<close>

record wire_job_reply =
  wr_job_id :: int
  wr_pid :: int
  wr_pgid :: int
  wr_state :: int

record wire_job_state =
  wz_job_id :: int
  wz_state :: int

text \<open>The processor time is kept as the text \<^verbatim>\<open>%.2f\<close> prints for it.\<close>

record wire_job_finish =
  wf_job_id :: int
  wf_state :: int
  wf_exit_status :: int
  wf_pid :: int
  wf_mem_mb :: u64
  wf_swap_mb :: u64
  wf_cpu_time :: string

section \<open>Connection of a daemon\<close>

definition mbd_sbd_disconnect :: "hptr \<Rightarrow> mbd \<Rightarrow> mbd" where
  "mbd_sbd_disconnect n s =
     (let chan_id = mh_sbd_chan (host_heap s n);
          s1 = upd_host n (\<lambda>h. h\<lparr>mh_sbd_chan := - 1, mh_state := HOST_UNAVAIL OR (mh_state h AND HOST_CLOSED)\<rparr>) s in
      chan_shutdown chan_id (s1\<lparr>sbd_chan_hash := snd (ll_hash_remove (sbd_chan_hash s1) (fmt_ld chan_id))\<rparr>))"

definition runs_on :: "hptr \<Rightarrow> jptr \<Rightarrow> mbd \<Rightarrow> crash + bool" where
  "runs_on n p s =
     (case jd_run_hosts (job_heap s p) of [] \<Rightarrow> Inl Out_of_bounds | h # _ \<Rightarrow> Inr (h = Some n))"

definition build_sbd_run_list :: "hptr \<Rightarrow> mbd \<Rightarrow> crash + (int \<times> int) list" where
  "build_sbd_run_list n s =
     foldE (\<lambda>p js. bindE (runs_on n p s) (\<lambda>mine.
       Inr (if mine then js @ [(jd_job_id (job_heap s p), s32 (jd_pid (job_heap s p)))] else js)))
       (job_lists s JOB_LIST_RUN) []"

definition mbd_sbd_register :: "env \<Rightarrow> string option \<Rightarrow> int \<Rightarrow> mbd \<Rightarrow> crash + bool \<times> mbd" where
  "mbd_sbd_register e reg chan_id s =
     (case reg of
        None \<Rightarrow> Inr (False, chan_shutdown chan_id s)
      | Some name \<Rightarrow>
        (case ll_hash_search (host_name_hash s) (cfield 64 name) of
           None \<Rightarrow> Inr (False, chan_shutdown chan_id s)
         | Some n \<Rightarrow>
           if mh_sbd_chan (host_heap s n) \<noteq> - 1 then Inr (False, chan_shutdown chan_id s)
           else
             let s1 = upd_host n (\<lambda>h. h\<lparr>mh_sbd_chan := chan_id\<rparr>) s;
                 s2 = s1\<lparr>sbd_chan_hash := snd (ll_hash_insert (sbd_chan_hash s1) (fmt_ld chan_id) (Some n) False)\<rparr> in
             bindE (build_sbd_run_list n s2) (\<lambda>js.
               let s3 = upd_host n (\<lambda>h. h\<lparr>mh_state := HOST_OK OR (mh_state h AND HOST_CLOSED)\<rparr>) s2 in
               if \<not> e_sign_ok e then Inr (False, mbd_sbd_disconnect n s3)
               else Inr (True, snd (enqueue_payload e chan_id BATCH_SBD_REGISTER_ACK MBD_OK (Register_body js) s3)))))"

section \<open>Leaving the running list\<close>

text \<open>The acknowledgement of a report: its result is not looked at again where it ends the handler.\<close>

definition send_ack :: "env \<Rightarrow> int \<Rightarrow> batch_op \<Rightarrow> int \<Rightarrow> batch_op \<Rightarrow> mbd \<Rightarrow> bool \<times> mbd" where
  "send_ack e chan op job_id ack_op s =
     (if \<not> e_sign_ok e then (False, s) else enqueue_payload e chan op MBD_OK (Job_ack job_id ack_op) s)"

definition mbd_job_reject_dispatch :: "env \<Rightarrow> jptr \<Rightarrow> mbd \<Rightarrow> crash + mbd" where
  "mbd_job_reject_dispatch e p s =
     bindE (assertE Assert_failed (jd_state (job_heap s p) = JOB_RUNNING)) (\<lambda>_.
     bindE (assertE Assert_failed (jd_list_id (job_heap s p) = JOB_LIST_RUN)) (\<lambda>_.
     bindE (run_host s p 0) (\<lambda>h.
     let sbd_chan = mh_sbd_chan (host_heap s h) in
     bindE (reset_host_resources p s) (\<lambda>s1.
     let s2 = token_pool_release p s1; j = job_heap s2 p; nh = jr_num_hosts (jd_res j) in
     bindE (on_queue p (\<lambda>q. q\<lparr>mq_num_run := mq_num_run q - 1, mq_num_pend := mq_num_pend q + 1,
         mq_num_cpus_used := mq_num_cpus_used q - jr_num_cpus (jd_res j) * jd_run_nhosts j,
         mq_num_hosts_used := mq_num_hosts_used q - jd_run_nhosts j\<rparr>) s2) (\<lambda>s3.
     bindE (assertE Out_of_bounds (0 \<le> nh \<and> nat nh \<le> length (jd_run_hosts j))) (\<lambda>_.
     bindE (job_move_list p JOB_LIST_RUN JOB_LIST_PEND (upd_job p (\<lambda>j. j\<lparr>jd_pid := 0, jd_fork_time := 0,
         jd_dispatch_time := 0, jd_state := JOB_PENDING, jd_pend_reason := PEND_NONE,
         jd_run_hosts := replicate (nat nh) None @ drop (nat nh) (jd_run_hosts j), jd_run_nhosts := 0\<rparr>) s3)) (\<lambda>s4.
     bindE (mbd_assert_counters s4) (\<lambda>s5.
     bindE (event_job_pend e p s5) (\<lambda>s6.
       Inr (snd (send_ack e sbd_chan BATCH_NEW_JOB_REPLY_ACK (jd_job_id (job_heap s6 p)) BATCH_NEW_JOB_REPLY s6)))))))))))"

definition mbd_new_job_reply :: "env \<Rightarrow> hptr \<Rightarrow> wire_job_reply option \<Rightarrow> mbd \<Rightarrow> crash + mbd" where
  "mbd_new_job_reply e n dec s =
     (case dec of
        None \<Rightarrow> Inr s
      | Some r \<Rightarrow>
        (case job_find s (wr_job_id r) of
           None \<Rightarrow> Inr s
         | Some p \<Rightarrow>
           let j = job_heap s p in
           if wr_state r = job_state_code JOB_PENDING then
             (if jd_state j = JOB_PENDING \<or> jd_state j = JOB_HELD
              then bindE (assertE Assert_failed (jd_list_id j = JOB_LIST_PEND)) (\<lambda>_. Inr s)
              else mbd_job_reject_dispatch e p s)
           else
             let duplicate = 0 < jd_fork_time j in
             (case send_ack e (mh_sbd_chan (host_heap s n)) BATCH_NEW_JOB_REPLY_ACK (wr_job_id r) BATCH_NEW_JOB_REPLY s of
                (False, s1) \<Rightarrow> Inr s1
              | (True, s1) \<Rightarrow>
                if duplicate then Inr s1
                else event_job_fork p (upd_job p (\<lambda>j. j\<lparr>jd_pid := wr_pid r, jd_fork_time := e_now e,
                  jd_state := JOB_RUNNING\<rparr>) s1))))"

definition usage_text :: "wire_job_finish \<Rightarrow> string" where
  "usage_text f = ''pid='' @ fmt_ld (wf_pid f) @ newline @ ''mem_mb='' @ fmt_ld (uint (wf_mem_mb f)) @ newline @
     ''swap_mb='' @ fmt_ld (uint (wf_swap_mb f)) @ newline @ ''cpu_time='' @ wf_cpu_time f @ newline"

definition job_write_usage :: "env \<Rightarrow> jptr \<Rightarrow> wire_job_finish \<Rightarrow> mbd \<Rightarrow> bool \<times> mbd" where
  "job_write_usage e p f s =
     (let i = jd_job_id (job_heap s p) in
      if \<not> e_usage_ok e i then (False, s) else (True, s\<lparr>usage_files := (usage_files s)(i \<mapsto> usage_text f)\<rparr>))"

text \<open>The counters of the queue of a job that leaves it, by the state it leaves.\<close>

definition leave_running :: "job_data \<Rightarrow> mbd_queue \<Rightarrow> mbd_queue" where
  "leave_running j q =
     q\<lparr>mq_num_run := (if jd_state j = JOB_RUNNING then mq_num_run q - 1 else mq_num_run q),
       mq_num_susp := (if jd_state j = JOB_SUSPENDED then mq_num_susp q - 1 else mq_num_susp q),
       mq_num_cpus_used := mq_num_cpus_used q - jr_num_cpus (jd_res j) * jd_run_nhosts j,
       mq_num_hosts_used := mq_num_hosts_used q - jd_run_nhosts j,
       mq_num_jobs := mq_num_jobs q - 1\<rparr>"

definition finish_running :: "env \<Rightarrow> jptr \<Rightarrow> wire_job_finish \<Rightarrow> mbd \<Rightarrow> crash + mbd" where
  "finish_running e p f s =
     bindE (reset_host_resources p (upd_job p (\<lambda>j. j\<lparr>jd_end_time := e_now e, jd_exit_status := wf_exit_status f\<rparr>) s)) (\<lambda>s1.
     let s2 = token_pool_release p s1 in
     bindE (on_queue p (leave_running (job_heap s2 p)) s2) (\<lambda>s3.
     bindE (job_move_list p JOB_LIST_RUN JOB_LIST_FINISH
       (upd_job p (\<lambda>j. j\<lparr>jd_state := (if wf_state f = 0 then JOB_DONE else JOB_EXITED)\<rparr>) s3)) (\<lambda>s4.
     bindE (event_job_finish p (job_array_element_finished p s4)) (\<lambda>s5.
       mbd_assert_counters (snd (job_write_usage e p f s5))))))"

definition mbd_job_finish :: "env \<Rightarrow> hptr \<Rightarrow> wire_job_finish option \<Rightarrow> mbd \<Rightarrow> crash + mbd" where
  "mbd_job_finish e n dec s =
     (case dec of
        None \<Rightarrow> Inr s
      | Some f \<Rightarrow>
        (let chan = mh_sbd_chan (host_heap s n);
             ack = send_ack e chan BATCH_JOB_FINISH_ACK (wf_job_id f) BATCH_JOB_FINISH in
         case job_find s (wf_job_id f) of
           None \<Rightarrow> Inr (snd (ack s))
         | Some p \<Rightarrow>
           bindE (run_host s p 0) (\<lambda>h.
           if mh_name (host_heap s n) \<noteq> mh_name (host_heap s h) then Inr s
           else
             let j = job_heap s p; duplicate = 0 < jd_end_time j in
             bindE (assertE Assert_failed (duplicate \<or> jd_state j = JOB_RUNNING \<or> jd_state j = JOB_SUSPENDED)) (\<lambda>_.
             case ack s of
               (False, s1) \<Rightarrow> Inr s1
             | (True, s1) \<Rightarrow> if duplicate then Inr s1 else finish_running e p f s1))))"

definition mbd_job_signal_reply :: "hptr \<Rightarrow> wire_job_sig option \<Rightarrow> wire_hdr \<Rightarrow> mbd \<Rightarrow> crash + mbd" where
  "mbd_job_signal_reply n dec hdr s =
     (case dec of
        None \<Rightarrow> Inr s
      | Some sg \<Rightarrow>
        (case job_find s (sg_job_id sg) of
           None \<Rightarrow> Inr s
         | Some p \<Rightarrow>
           if wh_status hdr \<noteq> MBD_OK then Inr s
           else if sg_sig sg = SIGSTOP \<or> sg_sig sg = SIGTSTP then
             bindE (on_queue p (\<lambda>q. q\<lparr>mq_num_run := mq_num_run q - 1, mq_num_susp := mq_num_susp q + 1\<rparr>)
               (upd_job p (\<lambda>j. j\<lparr>jd_state := JOB_SUSPENDED\<rparr>) s)) (\<lambda>s1.
             mbd_assert_counters (upd_host n (\<lambda>h. h\<lparr>mh_num_susp := mh_num_susp h + 1, mh_num_run := mh_num_run h - 1\<rparr>) s1))
           else if sg_sig sg = SIGCONT then
             bindE (on_queue p (\<lambda>q. q\<lparr>mq_num_susp := mq_num_susp q - 1, mq_num_run := mq_num_run q + 1\<rparr>)
               (upd_job p (\<lambda>j. j\<lparr>jd_state := JOB_RUNNING\<rparr>) s)) (\<lambda>s1.
             mbd_assert_counters (upd_host n (\<lambda>h. h\<lparr>mh_num_susp := mh_num_susp h - 1, mh_num_run := mh_num_run h + 1\<rparr>) s1))
           else bindE (job_queue s p) (\<lambda>_. mbd_assert_counters s)))"

definition mbd_job_missing :: "env \<Rightarrow> hptr \<Rightarrow> wire_job_state option \<Rightarrow> mbd \<Rightarrow> crash + mbd" where
  "mbd_job_missing e n dec s =
     (case dec of
        None \<Rightarrow> Inr s
      | Some w \<Rightarrow>
        (case job_find s (wz_job_id w) of
           None \<Rightarrow> Inr s
         | Some p \<Rightarrow>
           let j = job_heap s p in
           if jd_state j = JOB_ORPHAN then Inr s
           else if jd_run_nhosts j \<le> 0 then Inr s
           else bindE (runs_on n p s) (\<lambda>mine.
             if \<not> mine then Inr s
             else if jd_state j \<noteq> JOB_RUNNING \<and> jd_state j \<noteq> JOB_SUSPENDED then Inr s
             else
               bindE (reset_host_resources p s) (\<lambda>s1.
               let s2 = token_pool_release p s1 in
               bindE (on_queue p (leave_running (job_heap s2 p)) (upd_job p (\<lambda>j. j\<lparr>jd_pid := 0, jd_fork_time := 0,
                   jd_dispatch_time := 0, jd_pend_reason := PEND_NONE, jd_state := JOB_PENDING\<rparr>) s2)) (\<lambda>s3.
               bindE (job_move_list p JOB_LIST_RUN JOB_LIST_PEND s3) (\<lambda>s4.
               bindE (on_queue p (\<lambda>q. q\<lparr>mq_num_jobs := mq_num_jobs q + 1, mq_num_pend := mq_num_pend q + 1\<rparr>) s4) (\<lambda>s5.
               bindE (mbd_assert_counters s5) (\<lambda>s6. event_job_pend e p s6))))))))"

section \<open>What a job gives back\<close>

text \<open>The first devices of a host are in use, as many as the job holds: the release can free them.\<close>

definition gpus_held :: "job_data \<Rightarrow> mbd_host \<Rightarrow> bool" where
  "gpus_held j x \<longleftrightarrow> (0 < jr_num_gpus (jd_res j) \<longrightarrow>
     jr_num_gpus (jd_res j) \<le> int (length (gp_ids (mh_gpu x))) \<and>
     list_all gi_in_use (take (nat (jr_num_gpus (jd_res j))) (gp_ids (mh_gpu x))))"

lemma release_gpus_ok:
  assumes "gpus_held j x"
  shows "\<exists>g. release_gpus j (release_host j x) = Inr ((release_host j x)\<lparr>mh_gpu := g\<rparr>)"
proof (cases "0 < jr_num_gpus (jd_res j)")
  case False
  then show ?thesis by (intro exI [of _ "mh_gpu (release_host j x)"]) (simp add: release_gpus_def)
next
  case True
  let ?n = "nat (jr_num_gpus (jd_res j))" and ?ids = "gp_ids (mh_gpu x)"
  have "filter gi_in_use (take ?n ?ids) = take ?n ?ids" using assms True by (simp add: gpus_held_def list_all_iff)
  moreover have "int (length (take ?n ?ids)) = jr_num_gpus (jd_res j)" "jr_num_gpus (jd_res j) \<le> int (length ?ids)"
    using assms True by (auto simp: gpus_held_def)
  ultimately obtain g where g: "gpu_ids_mark_free (mh_gpu x) (jr_num_gpus (jd_res j)) = Inr g"
    unfolding gpu_ids_mark_free_def Let_def by (simp add: res_simps del: length_take)
  have "mh_gpu (release_host j x) = mh_gpu x" by (simp add: release_host_def)
  then have "release_gpus j (release_host j x) = Inr ((release_host j x)\<lparr>mh_gpu := g\<rparr>)"
    using True g by (simp add: release_gpus_def)
  then show ?thesis by blast
qed

lemma release_result:
  assumes hs: "run_hosts_are (job_heap s p) hs" "distinct hs"
    and g: "\<And>h. h \<in> set hs \<Longrightarrow> gpus_held (job_heap s p) (host_heap s h)"
  obtains hh ph where "reset_host_resources p s = Inr (s\<lparr>host_heap := hh\<rparr>)"
    and "token_pool_release p (s\<lparr>host_heap := hh\<rparr>) = s\<lparr>host_heap := hh, pool_heap := ph\<rparr>"
    and "\<And>h. h \<in> set hs \<Longrightarrow> \<exists>g. hh h = (release_host (job_heap s p) (host_heap s h))\<lparr>mh_gpu := g\<rparr>"
    and "\<And>h. h \<notin> set hs \<Longrightarrow> hh h = host_heap s h"
    and "\<And>k. tp_free (ph k) = tp_free (pool_heap s k) +
      token_weight (token_pool_name_hash s) k (jr_tokens (jd_res (job_heap s p)))"
    and "\<And>k. tp_total (ph k) = tp_total (pool_heap s k)"
proof -
  let ?g = "\<lambda>j h. release_gpus j (release_host j h)"
  have "\<exists>x. ?g (job_heap s p) (host_heap s h) = Inr x" if "h \<in> set hs" for h using release_gpus_ok [OF g [OF that]] by blast
  then obtain t where t: "foldE (host_loop ?g p) hs s = Inr t"
    using host_loop_total [OF _ hs(2), of ?g s p] by auto
  from host_loop_result [OF t hs(2)] have e: "t = s\<lparr>host_heap := host_heap t\<rparr>"
    and o: "\<And>h. h \<notin> set hs \<Longrightarrow> host_heap t h = host_heap s h"
    and i: "\<And>h. h \<in> set hs \<Longrightarrow> ?g (job_heap s p) (host_heap s h) = Inr (host_heap t h)" by auto
  have r: "reset_host_resources p s = Inr (s\<lparr>host_heap := host_heap t\<rparr>)"
    using reset_host_resources_loop [OF hs(1)] t e by simp
  let ?u = "s\<lparr>host_heap := host_heap t\<rparr>"
  obtain ph where ph: "token_pool_release p ?u = ?u\<lparr>pool_heap := ph\<rparr>"
    "\<And>k. tp_free (ph k) = tp_free (pool_heap ?u k) + token_weight (token_pool_name_hash ?u) k (jr_tokens (jd_res (job_heap ?u p)))"
    "\<And>k. tp_total (ph k) = tp_total (pool_heap ?u k)"
    by (rule token_pool_release_result [of p ?u]) blast
  show thesis
  proof (rule that [where hh = "host_heap t" and ph = ph])
    show "reset_host_resources p s = Inr (s\<lparr>host_heap := host_heap t\<rparr>)" by (rule r)
    show "\<exists>g. host_heap t h = (release_host (job_heap s p) (host_heap s h))\<lparr>mh_gpu := g\<rparr>" if "h \<in> set hs" for h
      using i [OF that] release_gpus_ok [OF g [OF that]] by auto
  qed (use ph o in simp_all)
qed

text \<open>The hosts of a running job hold what it gives back.\<close>

definition held :: "mbd \<Rightarrow> jptr \<Rightarrow> bool" where
  "held s p \<longleftrightarrow> (\<forall>h. job_uses_host (job_heap s p) h \<longrightarrow> gpus_held (job_heap s p) (host_heap s h))"

lemma released_chan:
  assumes "\<And>h. h \<in> set hs \<Longrightarrow> \<exists>g. hh h = (release_host j (x h))\<lparr>mh_gpu := g\<rparr>" and "\<And>h. h \<notin> set hs \<Longrightarrow> hh h = x h"
  shows "mh_sbd_chan (hh h) = mh_sbd_chan (x h)"
  using assms(1) [of h] assms(2) [of h] by (cases "h \<in> set hs") (auto simp: release_host_def)

text \<open>
  The common end of the three ways off the running list: everything the job took is
  back, and the job itself is as \<open>j\<close> on the list \<open>b\<close>.
\<close>

lemma inv_released:
  assumes inv: "mbd_inv s" and p: "p \<in> set (job_lists s JOB_LIST_RUN)" and b: "b \<noteq> JOB_LIST_RUN"
    and hs: "run_hosts_are (job_heap s p) hs"
    and freed: "\<And>h. h \<in> set hs \<Longrightarrow> \<exists>g. hh h = (release_host (job_heap s p) (host_heap s h))\<lparr>mh_gpu := g\<rparr>"
      "\<And>h. h \<notin> set hs \<Longrightarrow> hh h = host_heap s h"
    and pools: "\<And>k. tp_free (ph k) = tp_free (pool_heap s k) +
        token_weight (token_pool_name_hash s) k (jr_tokens (jd_res (job_heap s p)))"
      "\<And>k. tp_total (ph k) = tp_total (pool_heap s k)"
    and t: "host_heap t = hh" "pool_heap t = ph" "job_lists t = lists_move (job_lists s) p JOB_LIST_RUN b"
      "queue_heap t = (queue_heap s)(q := f (queue_heap s q))" "fixed_parts s t"
    and q: "jd_queue (job_heap s p) = Some q" "mq_host_hash (f (queue_heap s q)) = mq_host_hash (queue_heap s q)"
      "\<And>c. q_ctr c (f (queue_heap s q)) = q_ctr c (queue_heap s q) + (q_share c (job_heap t p) - q_share c (job_heap s p))"
    and j: "jd_list_id (job_heap t p) = b" "jd_job_id (job_heap t p) = jd_job_id (job_heap s p)"
      "jd_queue (job_heap t p) = Some q" "state_fits b (jd_state (job_heap t p))" "jd_res (job_heap t p) = jd_res (job_heap s p)"
      "length (jd_run_hosts (job_heap t p)) = length (jd_run_hosts (job_heap s p))"
      "jd_run_nhosts (job_heap t p) = 0 \<or> jd_run_nhosts (job_heap t p) = jd_run_nhosts (job_heap s p) \<and>
        jd_run_hosts (job_heap t p) = jd_run_hosts (job_heap s p)"
      "jd_dispatch_time (job_heap t p) = 0 \<or> jd_dispatch_time (job_heap t p) = jd_dispatch_time (job_heap s p) \<and>
        jd_run_nhosts (job_heap t p) = jd_run_nhosts (job_heap s p)"
    and others: "\<And>x. x \<noteq> p \<Longrightarrow> minor (job_heap s x) (job_heap t x)"
  shows "mbd_inv t"
proof (rule inv_leave_run [OF inv p b hs])
  have ok: "job_ok (queue_list s) (host_list s) (job_heap s p)" by (rule inv_parts(5) [OF inv p])
  have "\<exists>hs. run_hosts_are (job_heap t p) hs \<and> distinct hs \<and> set hs \<subseteq> set (host_list s)"
    using ok j(7) by (elim disjE) (auto simp: job_ok_def run_hosts_are_def)
  with ok show "job_ok (queue_list s) (host_list s) (job_heap t p)"
    using b j q(1) by (auto simp: job_ok_def)
  show "queues_follow p s t" by (rule queues_follow_upd [where q = q and f = f]) (use t q j in simp_all)
  show "\<exists>g. host_heap t h = (release_host (job_heap s p) (host_heap s h))\<lparr>mh_gpu := g\<rparr>" if "h \<in> set hs" for h
    using freed(1) [OF that] by (simp add: t)
qed (use t j pools freed(2) others in \<open>simp_all add: minor_same_load\<close>)

lemma send_ack_io:
  obtains b o' where "send_ack e c op i a s = (b, s\<lparr>outq := o'\<rparr>)"
  by (cases "e_sign_ok e \<and> e_send_ok e c op") (auto simp: send_ack_def enqueue_payload_def intro: that [of _ "outq s"])

lemma held_hosts:
  assumes "held s p" and "run_hosts_are (job_heap s p) hs" and "h \<in> set hs"
  shows "gpus_held (job_heap s p) (host_heap s h)"
  using assms by (simp add: held_def run_hosts_are_uses)

section \<open>The handlers keep the invariant\<close>

definition back_pending :: "jptr \<Rightarrow> mbd \<Rightarrow> mbd \<Rightarrow> bool" where
  "back_pending p s t \<longleftrightarrow> mbd_inv t \<and> touches p s t \<and> jd_state (job_heap t p) = JOB_PENDING \<and>
     jd_pid (job_heap t p) = 0 \<and> jd_fork_time (job_heap t p) = 0 \<and>
     job_lists t = lists_move (job_lists s) p JOB_LIST_RUN JOB_LIST_PEND"

lemma mbd_job_reject_dispatch_step:
  assumes inv: "mbd_inv s" and env: "env_ok e" and p: "p \<in> set (job_lists s JOB_LIST_RUN)"
    and st: "jd_state (job_heap s p) = JOB_RUNNING" and held: "held s p"
  shows "\<exists>t. mbd_job_reject_dispatch e p s = Inr t \<and> back_pending p s t"
proof -
  let ?j = "job_heap s p"
  have now: "0 < e_now e" using env by (simp add: env_ok_def)
  have ok: "job_ok (queue_list s) (host_list s) ?j" by (rule inv_parts(5) [OF inv p])
  have l: "jd_list_id ?j = JOB_LIST_RUN" using inv_parts(4) [OF inv p] by simp
  obtain q where q: "q \<in> set (queue_list s)" "jd_queue ?j = Some q" using job_ok_queue [OF ok] by blast
  obtain h hs where hs: "run_hosts_are ?j (h # hs)" "distinct (h # hs)" "run_host s p 0 = Inr h" by (rule run_first [OF inv p])
  obtain hh ph where r: "reset_host_resources p s = Inr (s\<lparr>host_heap := hh\<rparr>)"
    "token_pool_release p (s\<lparr>host_heap := hh\<rparr>) = s\<lparr>host_heap := hh, pool_heap := ph\<rparr>"
    and hh: "\<And>x. x \<in> set (h # hs) \<Longrightarrow> \<exists>g. hh x = (release_host ?j (host_heap s x))\<lparr>mh_gpu := g\<rparr>"
      "\<And>x. x \<notin> set (h # hs) \<Longrightarrow> hh x = host_heap s x"
    and ph: "\<And>k. tp_free (ph k) = tp_free (pool_heap s k) + token_weight (token_pool_name_hash s) k (jr_tokens (jd_res ?j))"
      "\<And>k. tp_total (ph k) = tp_total (pool_heap s k)"
    by (rule release_result [OF hs(1,2) held_hosts [OF held hs(1)]]) blast+
  have nm: "mh_sbd_chan (hh x) = mh_sbd_chan (host_heap s x)" for x
    by (rule released_chan [where x = "host_heap s" and j = ?j and hs = "h # hs"]) (use hh in blast)+
  let ?nh = "jr_num_hosts (jd_res ?j)"
  have nh: "0 \<le> ?nh" "nat ?nh = length (jd_run_hosts ?j)" using ok by (simp_all add: job_ok_def)
  have n: "jd_run_nhosts ?j = int (length (h # hs))" using hs(1) by (simp add: run_hosts_are_def)
  define j1 where "j1 = ?j\<lparr>jd_pid := 0, jd_fork_time := 0, jd_dispatch_time := 0, jd_state := JOB_PENDING,
    jd_pend_reason := PEND_NONE, jd_run_hosts := replicate (nat ?nh) None, jd_run_nhosts := 0, jd_list_id := JOB_LIST_PEND\<rparr>"
  let ?f = "\<lambda>x. x\<lparr>mq_num_run := mq_num_run x - 1, mq_num_pend := mq_num_pend x + 1,
         mq_num_cpus_used := mq_num_cpus_used x - jr_num_cpus (jd_res ?j) * jd_run_nhosts ?j,
         mq_num_hosts_used := mq_num_hosts_used x - jd_run_nhosts ?j\<rparr>"
  define u where "u = s\<lparr>host_heap := hh, pool_heap := ph, queue_heap := (queue_heap s)(q := ?f (queue_heap s q)),
    job_heap := (job_heap s)(p := j1), job_lists := lists_move (job_lists s) p JOB_LIST_RUN JOB_LIST_PEND\<rparr>"
  have iu: "mbd_inv u"
  proof (rule inv_released [OF inv p _ hs(1) hh ph, where t = u and q = q and f = ?f and b = JOB_LIST_PEND])
    show "q_ctr c (?f (queue_heap s q)) = q_ctr c (queue_heap s q) + (q_share c (job_heap u p) - q_share c ?j)" for c
      by (cases c) (simp_all add: u_def j1_def l st n)
  qed (use q(2) nh in \<open>simp_all add: u_def j1_def fixed_parts_def\<close>)
  obtain ev where ev: "event_job_pend e p u = Inr (u\<lparr>manifest := manifest u @ [ev]\<rparr>)"
    using event_ok(6) [OF now] by blast
  let ?v = "u\<lparr>manifest := manifest u @ [ev]\<rparr>" and ?c = "mh_sbd_chan (host_heap s h)"
  obtain b o' where a: "send_ack e ?c BATCH_NEW_JOB_REPLY_ACK (jd_job_id (job_heap u p)) BATCH_NEW_JOB_REPLY ?v =
      (b, ?v\<lparr>outq := o'\<rparr>)" by (rule send_ack_io)
  have mv: "job_move_list p JOB_LIST_RUN JOB_LIST_PEND (upd_job p (\<lambda>j. j\<lparr>jd_pid := 0, jd_fork_time := 0,
         jd_dispatch_time := 0, jd_state := JOB_PENDING, jd_pend_reason := PEND_NONE,
         jd_run_hosts := replicate (length (jd_run_hosts ?j)) None @ drop (length (jd_run_hosts ?j)) (jd_run_hosts j),
         jd_run_nhosts := 0\<rparr>)
       (upd_queue q ?f (s\<lparr>host_heap := hh, pool_heap := ph\<rparr>))) = Inr u"
    using p nh by (simp add: job_move_list_def u_def j1_def upd_job_def upd_queue_def)
  have "mbd_job_reject_dispatch e p s = Inr (?v\<lparr>outq := o'\<rparr>)"
    using nh q(2) mv by (simp add: mbd_job_reject_dispatch_def st l hs(3) r res_simps Let_def on_queue_def job_queue_def
        inv_assert_counters [OF iu] ev a)
  moreover have "back_pending p s (?v\<lparr>outq := o'\<rparr>)"
    unfolding back_pending_def touches_def
  proof (intro conjI)
    show "keeps s (?v\<lparr>outq := o'\<rparr>)"
      by (rule keepsI [where p = p and a = JOB_LIST_RUN and b = JOB_LIST_PEND])
        (simp_all add: u_def j1_def array_same_def times_ok_def p nm)
  qed (use iu in \<open>simp_all\<close>, simp_all add: u_def j1_def)
  ultimately show ?thesis by blast
qed

lemma release_same:
  "jd_res j' = jd_res j \<Longrightarrow> jd_flags j' = jd_flags j \<Longrightarrow> jd_state j' = jd_state j \<Longrightarrow> release_host j' = release_host j"
  by (simp add: release_host_def fun_eq_iff)

lemma leave_running_hash [simp]:
  "mq_host_hash (leave_running j x) = mq_host_hash x" "mq_user_hash (leave_running j x) = mq_user_hash x"
  by (simp_all add: leave_running_def)

lemma leave_running_ctr:
  assumes "jd_list_id j = JOB_LIST_RUN" and "jd_state j = JOB_RUNNING \<or> jd_state j = JOB_SUSPENDED"
  shows "q_ctr c (leave_running j x) = q_ctr c x - q_share c j"
  using assms by (cases c) (auto simp: leave_running_def)

definition now_finished :: "jptr \<Rightarrow> wire_job_finish \<Rightarrow> mbd \<Rightarrow> mbd \<Rightarrow> bool" where
  "now_finished p f s t \<longleftrightarrow> mbd_inv t \<and> touches p s t \<and>
     jd_state (job_heap t p) = (if wf_state f = 0 then JOB_DONE else JOB_EXITED) \<and>
     jd_exit_status (job_heap t p) = wf_exit_status f \<and> 0 < jd_end_time (job_heap t p) \<and>
     job_lists t = lists_move (job_lists s) p JOB_LIST_RUN JOB_LIST_FINISH \<and>
     jd_run_hosts (job_heap t p) = jd_run_hosts (job_heap s p) \<and> host_list t = host_list s \<and> outq t = outq s \<and>
     (\<forall>h. mh_name (host_heap t h) = mh_name (host_heap s h) \<and> mh_sbd_chan (host_heap t h) = mh_sbd_chan (host_heap s h))"

lemma finish_running_step:
  assumes inv: "mbd_inv s" and env: "env_ok e" and p: "p \<in> set (job_lists s JOB_LIST_RUN)" and held: "held s p"
  shows "\<exists>t. finish_running e p f s = Inr t \<and> now_finished p f s t"
proof -
  let ?j = "job_heap s p" and ?now = "e_now e"
  have now: "0 < ?now" using env by (simp add: env_ok_def)
  have ok: "job_ok (queue_list s) (host_list s) ?j" by (rule inv_parts(5) [OF inv p])
  have l: "jd_list_id ?j = JOB_LIST_RUN" using inv_parts(4) [OF inv p] by simp
  have st: "jd_state ?j = JOB_RUNNING \<or> jd_state ?j = JOB_SUSPENDED" using ok l by (simp add: job_ok_def)
  obtain q where q: "q \<in> set (queue_list s)" "jd_queue ?j = Some q" using job_ok_queue [OF ok] by blast
  obtain h hs where hs: "run_hosts_are ?j (h # hs)" "distinct (h # hs)" by (rule run_first [OF inv p])
  define j0 where "j0 = ?j\<lparr>jd_end_time := ?now, jd_exit_status := wf_exit_status f\<rparr>"
  define s0 where "s0 = s\<lparr>job_heap := (job_heap s)(p := j0)\<rparr>"
  have s0: "upd_job p (\<lambda>j. j\<lparr>jd_end_time := ?now, jd_exit_status := wf_exit_status f\<rparr>) s = s0"
    by (simp add: s0_def j0_def upd_job_def)
  have hs0: "run_hosts_are (job_heap s0 p) (h # hs)" using hs(1) by (simp add: s0_def j0_def run_hosts_are_def)
  have j0q: "job_heap s0 p = j0" "jd_queue j0 = Some q" using q(2) by (simp_all add: s0_def j0_def)
  have rel: "release_host (job_heap s0 p) = release_host ?j" by (rule release_same) (simp_all add: s0_def j0_def)
  have held0: "gpus_held (job_heap s0 p) (host_heap s0 x)" if "x \<in> set (h # hs)" for x
    using held_hosts [OF held hs(1) that] by (simp add: s0_def j0_def gpus_held_def)
  obtain hh ph where r: "reset_host_resources p s0 = Inr (s0\<lparr>host_heap := hh\<rparr>)"
    "token_pool_release p (s0\<lparr>host_heap := hh\<rparr>) = s0\<lparr>host_heap := hh, pool_heap := ph\<rparr>"
    and hh0: "\<And>x. x \<in> set (h # hs) \<Longrightarrow> \<exists>g. hh x = (release_host (job_heap s0 p) (host_heap s0 x))\<lparr>mh_gpu := g\<rparr>"
      "\<And>x. x \<notin> set (h # hs) \<Longrightarrow> hh x = host_heap s0 x"
    and ph0: "\<And>k. tp_free (ph k) = tp_free (pool_heap s0 k) + token_weight (token_pool_name_hash s0) k (jr_tokens (jd_res (job_heap s0 p)))"
      "\<And>k. tp_total (ph k) = tp_total (pool_heap s0 k)"
    by (rule release_result [OF hs0 hs(2) held0]) blast+
  have hh: "\<exists>g. hh x = (release_host ?j (host_heap s x))\<lparr>mh_gpu := g\<rparr>" if "x \<in> set (h # hs)" for x
    using hh0(1) [OF that] by (simp add: rel) (simp add: s0_def)
  have hh': "hh x = host_heap s x" if "x \<notin> set (h # hs)" for x using hh0(2) [OF that] by (simp add: s0_def)
  have ph: "tp_free (ph k) = tp_free (pool_heap s k) + token_weight (token_pool_name_hash s) k (jr_tokens (jd_res ?j))"
    "tp_total (ph k) = tp_total (pool_heap s k)" for k using ph0 [of k] by (simp_all add: s0_def j0_def)
  have nm: "mh_name (hh x) = mh_name (host_heap s x)" "mh_sbd_chan (hh x) = mh_sbd_chan (host_heap s x)" for x
    using hh [of x] hh' [of x] by (cases "x \<in> set (h # hs)"; auto simp: release_host_def)+
  define fs where "fs = (if wf_state f = 0 then JOB_DONE else JOB_EXITED)"
  have fs: "fs = JOB_DONE \<or> fs = JOB_EXITED" by (simp add: fs_def)
  define j1 where "j1 = j0\<lparr>jd_state := fs, jd_list_id := JOB_LIST_FINISH\<rparr>"
  define s4 where "s4 = s\<lparr>host_heap := hh, pool_heap := ph, queue_heap := (queue_heap s)(q := leave_running j0 (queue_heap s q)),
    job_heap := (job_heap s)(p := j1), job_lists := lists_move (job_lists s) p JOB_LIST_RUN JOB_LIST_FINISH\<rparr>"
  have mv: "job_move_list p JOB_LIST_RUN JOB_LIST_FINISH (upd_job p (\<lambda>j. j\<lparr>jd_state := fs\<rparr>)
       (upd_queue q (leave_running j0) (s0\<lparr>host_heap := hh, pool_heap := ph\<rparr>))) = Inr s4"
    using p by (simp add: job_move_list_def s4_def j1_def upd_job_def upd_queue_def s0_def)
  obtain hp where t4: "job_array_element_finished p s4 = s4\<lparr>job_heap := hp\<rparr>" and m: "\<And>x. minor (job_heap s4 x) (hp x)"
    by (rule minor_stepE [OF job_array_element_finished_minor [of s4 p]]) blast
  obtain a b where "hp p = (job_heap s4 p)\<lparr>jd_dep_refcnt := a, jd_array_element_cnt := b\<rparr>" by (rule minorE [OF m [of p]])
  then have jp: "hp p = j1\<lparr>jd_dep_refcnt := a, jd_array_element_cnt := b\<rparr>" by (simp add: s4_def)
  have jf: "jd_list_id (hp p) = JOB_LIST_FINISH" "jd_job_id (hp p) = jd_job_id ?j" "jd_queue (hp p) = Some q"
    "jd_state (hp p) = fs" "jd_res (hp p) = jd_res ?j"
    "jd_run_hosts (hp p) = jd_run_hosts ?j" "jd_run_nhosts (hp p) = jd_run_nhosts ?j"
    "jd_dispatch_time (hp p) = jd_dispatch_time ?j" "jd_end_time (hp p) = ?now" "jd_exit_status (hp p) = wf_exit_status f"
    "array_same ?j (hp p)"
    using q(2) now by (simp_all add: jp j1_def j0_def array_same_def times_ok_def)
  have others: "minor (job_heap s x) (hp x)" if "x \<noteq> p" for x using m [of x] that by (simp add: s4_def)
  define u where "u = s4\<lparr>job_heap := hp\<rparr>"
  obtain ev where ev: "event_job_finish p u = Inr (u\<lparr>manifest := manifest u @ [ev]\<rparr>)"
    using event_ok(2) [of u p] now jf(9) by (auto simp: u_def)
  obtain uf where us: "snd (job_write_usage e p f (u\<lparr>manifest := manifest u @ [ev]\<rparr>)) =
      u\<lparr>manifest := manifest u @ [ev], usage_files := uf\<rparr>"
    by (cases "e_usage_ok e (jd_job_id (job_heap u p))") (auto simp: job_write_usage_def Let_def intro: that [of "usage_files u"])
  let ?t = "u\<lparr>manifest := manifest u @ [ev], usage_files := uf\<rparr>"
  have lr: "leave_running j0 = leave_running ?j" by (simp add: fun_eq_iff leave_running_def j0_def)
  have "mbd_inv u"
  proof (rule inv_released [OF inv p _ hs(1) hh hh' ph, where q = q and f = "leave_running j0"])
    show "q_ctr c (leave_running j0 (queue_heap s q)) = q_ctr c (queue_heap s q) + (q_share c (job_heap u p) - q_share c ?j)" for c
      unfolding lr leave_running_ctr [OF l st] by (cases c) (simp_all add: u_def jf)
  qed (use q(2) others fs in \<open>auto simp add: u_def jf\<close>, simp_all add: s4_def fixed_parts_def)
  then have it: "mbd_inv ?t" by simp
  have "finish_running e p f s = Inr ?t"
    using mv by (simp add: finish_running_def s0 r Let_def on_queue_def job_queue_def fs_def [symmetric] j0q t4
        u_def [symmetric] ev us inv_assert_counters [OF it])
  moreover have "now_finished p f s ?t"
    unfolding now_finished_def touches_def
  proof (intro conjI)
    show "keeps s ?t"
      by (rule keepsI [where p = p and a = JOB_LIST_RUN and b = JOB_LIST_FINISH])
        (use others p in \<open>simp_all add: u_def jf\<close>, simp_all add: s4_def nm)
  qed (use it now others in \<open>simp_all add: u_def jf fs_def\<close>, simp_all add: s4_def nm)
  ultimately show ?thesis by blast
qed

definition missing_queue :: "job_data \<Rightarrow> mbd_queue \<Rightarrow> mbd_queue" where
  "missing_queue j q = (let x = leave_running j q in x\<lparr>mq_num_jobs := mq_num_jobs x + 1, mq_num_pend := mq_num_pend x + 1\<rparr>)"

lemma mbd_job_missing_takes:
  assumes inv: "mbd_inv s" and env: "env_ok e" and w: "dec = Some w" "job_find s (wz_job_id w) = Some p"
    and p: "p \<in> set (job_lists s JOB_LIST_RUN)" and on: "runs_on n p s = Inr True" and held: "held s p"
  shows "\<exists>t. mbd_job_missing e n dec s = Inr t \<and> back_pending p s t"
proof -
  let ?j = "job_heap s p"
  have now: "0 < e_now e" using env by (simp add: env_ok_def)
  have ok: "job_ok (queue_list s) (host_list s) ?j" by (rule inv_parts(5) [OF inv p])
  have l: "jd_list_id ?j = JOB_LIST_RUN" using inv_parts(4) [OF inv p] by simp
  have st: "jd_state ?j = JOB_RUNNING \<or> jd_state ?j = JOB_SUSPENDED" using ok l by (simp add: job_ok_def)
  obtain q where q: "jd_queue ?j = Some q" using job_ok_queue [OF ok] by blast
  obtain h hs where hs: "run_hosts_are ?j (h # hs)" "distinct (h # hs)" by (rule run_first [OF inv p])
  obtain hh ph where r: "reset_host_resources p s = Inr (s\<lparr>host_heap := hh\<rparr>)"
    "token_pool_release p (s\<lparr>host_heap := hh\<rparr>) = s\<lparr>host_heap := hh, pool_heap := ph\<rparr>"
    and hh: "\<And>x. x \<in> set (h # hs) \<Longrightarrow> \<exists>g. hh x = (release_host ?j (host_heap s x))\<lparr>mh_gpu := g\<rparr>"
      "\<And>x. x \<notin> set (h # hs) \<Longrightarrow> hh x = host_heap s x"
    and ph: "\<And>k. tp_free (ph k) = tp_free (pool_heap s k) + token_weight (token_pool_name_hash s) k (jr_tokens (jd_res ?j))"
      "\<And>k. tp_total (ph k) = tp_total (pool_heap s k)"
    by (rule release_result [OF hs held_hosts [OF held hs(1)]]) blast+
  have nm: "mh_sbd_chan (hh x) = mh_sbd_chan (host_heap s x)" for x
    by (rule released_chan [where x = "host_heap s" and j = ?j and hs = "h # hs"]) (use hh in blast)+
  define j1 where "j1 = ?j\<lparr>jd_pid := 0, jd_fork_time := 0, jd_dispatch_time := 0, jd_pend_reason := PEND_NONE,
    jd_state := JOB_PENDING, jd_list_id := JOB_LIST_PEND\<rparr>"
  define s4 where "s4 = s\<lparr>host_heap := hh, pool_heap := ph, queue_heap := (queue_heap s)(q := leave_running ?j (queue_heap s q)),
    job_heap := (job_heap s)(p := j1), job_lists := lists_move (job_lists s) p JOB_LIST_RUN JOB_LIST_PEND\<rparr>"
  define u where "u = s4\<lparr>queue_heap := (queue_heap s)(q := missing_queue ?j (queue_heap s q))\<rparr>"
  have mv: "job_move_list p JOB_LIST_RUN JOB_LIST_PEND (upd_queue q (leave_running ?j) (upd_job p (\<lambda>j. j\<lparr>jd_pid := 0,
      jd_fork_time := 0, jd_dispatch_time := 0, jd_pend_reason := PEND_NONE, jd_state := JOB_PENDING\<rparr>)
      (s\<lparr>host_heap := hh, pool_heap := ph\<rparr>))) = Inr s4"
    using p by (simp add: job_move_list_def s4_def j1_def upd_job_def upd_queue_def)
  have up: "upd_queue q (\<lambda>x. x\<lparr>mq_num_jobs := mq_num_jobs x + 1, mq_num_pend := mq_num_pend x + 1\<rparr>) s4 = u"
    by (simp add: u_def s4_def upd_queue_def missing_queue_def Let_def)
  have jq: "jd_queue (job_heap s4 p) = Some q" using q by (simp add: s4_def j1_def)
  have iu: "mbd_inv u"
  proof (rule inv_released [OF inv p _ hs(1) hh ph, where q = q and f = "missing_queue ?j" and b = JOB_LIST_PEND])
    have "q_ctr c (missing_queue ?j x) = q_ctr c (leave_running ?j x) + of_bool (c = Q_jobs \<or> c = Q_pend)" for c x
      by (cases c) (simp_all add: missing_queue_def Let_def)
    then show "q_ctr c (missing_queue ?j (queue_heap s q)) = q_ctr c (queue_heap s q) + (q_share c (job_heap u p) - q_share c ?j)" for c
      unfolding leave_running_ctr [OF l st] by (cases c) (simp_all add: u_def s4_def j1_def)
  qed (use q in \<open>simp_all add: u_def s4_def j1_def fixed_parts_def missing_queue_def Let_def\<close>)
  obtain ev where ev: "event_job_pend e p u = Inr (u\<lparr>manifest := manifest u @ [ev]\<rparr>)" using event_ok(6) [OF now] by blast
  have pos: "\<not> jd_run_nhosts ?j \<le> 0" "jd_state ?j \<noteq> JOB_ORPHAN" using hs(1) st by (auto simp: run_hosts_are_def)
  have "mbd_job_missing e n dec s = Inr (u\<lparr>manifest := manifest u @ [ev]\<rparr>)"
    using mv st pos by (auto simp add: mbd_job_missing_def w on Let_def r on_queue_def job_queue_def q jq up
        inv_assert_counters [OF iu] ev)
  moreover have "back_pending p s (u\<lparr>manifest := manifest u @ [ev]\<rparr>)"
    unfolding back_pending_def touches_def
  proof (intro conjI)
    show "keeps s (u\<lparr>manifest := manifest u @ [ev]\<rparr>)"
      by (rule keepsI [where p = p and a = JOB_LIST_RUN and b = JOB_LIST_PEND])
        (simp_all add: u_def s4_def j1_def array_same_def times_ok_def p nm missing_queue_def Let_def)
  qed (use iu in \<open>simp_all\<close>, simp_all add: u_def s4_def j1_def)
  ultimately show ?thesis by blast
qed

lemma mbd_job_missing_step:
  assumes inv: "mbd_inv s" and env: "env_ok e"
    and held: "\<And>p. p \<in> set (job_lists s JOB_LIST_RUN) \<Longrightarrow> held s p"
  shows "\<exists>t. mbd_job_missing e n dec s = Inr t \<and> (t = s \<or>
    (\<exists>w p. dec = Some w \<and> job_find s (wz_job_id w) = Some p \<and> p \<in> set (job_lists s JOB_LIST_RUN) \<and>
       hd (jd_run_hosts (job_heap s p)) = Some n \<and> back_pending p s t))"
proof (cases "\<exists>w p. dec = Some w \<and> job_find s (wz_job_id w) = Some p \<and> p \<in> set (job_lists s JOB_LIST_RUN) \<and>
    runs_on n p s = Inr True")
  case False
  show ?thesis
  proof (cases dec)
    case None
    then show ?thesis by (simp add: mbd_job_missing_def)
  next
    case (Some w)
    show ?thesis
    proof (cases "job_find s (wz_job_id w)")
      case None
      then show ?thesis using Some by (simp add: mbd_job_missing_def)
    next
      case p: (Some p)
      note jok = inv_find(4) [OF inv p] and pa = inv_find(1) [OF inv p]
      have "jd_run_hosts (job_heap s p) \<noteq> []" using jok by (auto simp: job_ok_def)
      then obtain b where b: "runs_on n p s = Inr b" by (auto simp: runs_on_def neq_Nil_conv)
      have "b \<Longrightarrow> jd_state (job_heap s p) \<noteq> JOB_RUNNING \<and> jd_state (job_heap s p) \<noteq> JOB_SUSPENDED"
        using False Some p b state_list(2) [OF inv pa] by auto
      then have "mbd_job_missing e n dec s = Inr s"
        using Some p b by (auto simp: mbd_job_missing_def Let_def)
      then show ?thesis by simp
    qed
  qed
next
  case True
  then obtain w p where w: "dec = Some w" "job_find s (wz_job_id w) = Some p" and p: "p \<in> set (job_lists s JOB_LIST_RUN)"
    and on: "runs_on n p s = Inr True" by blast
  have "hd (jd_run_hosts (job_heap s p)) = Some n"
    using on by (auto simp: runs_on_def split: list.splits)
  then show ?thesis using mbd_job_missing_takes [OF inv env w p on held [OF p]] w p by blast
qed

text \<open>A reply for a dispatched job.\<close>

lemma mbd_new_job_reply_step:
  assumes inv: "mbd_inv s" and env: "env_ok e"
    and held: "\<And>p. p \<in> set (job_lists s JOB_LIST_RUN) \<Longrightarrow> held s p"
    and known: "\<And>r p. dec = Some r \<Longrightarrow> job_find s (wr_job_id r) = Some p \<Longrightarrow>
      if wr_state r = 1 then jd_state (job_heap s p) \<in> {JOB_PENDING, JOB_HELD, JOB_RUNNING}
      else 0 < jd_fork_time (job_heap s p) \<or> jd_state (job_heap s p) = JOB_RUNNING"
  shows "\<exists>t. mbd_new_job_reply e n dec s = Inr t \<and> mbd_inv t \<and> keeps s t"
proof (cases "\<exists>r p. dec = Some r \<and> job_find s (wr_job_id r) = Some p")
  case False
  then have "mbd_new_job_reply e n dec s = Inr s" by (auto simp: mbd_new_job_reply_def split: option.splits)
  then show ?thesis using inv by simp
next
  case True
  then obtain r p where r: "dec = Some r" "job_find s (wr_job_id r) = Some p" by blast
  let ?j = "job_heap s p" and ?c = "mh_sbd_chan (host_heap s n)"
  have now: "0 < e_now e" using env by (simp add: env_ok_def)
  note pa = inv_find(1) [OF inv r(2)] and k = known [OF r]
  show ?thesis
  proof (cases "wr_state r = 1")
    case True
    show ?thesis
    proof (cases "jd_state ?j = JOB_RUNNING")
      case run: True
      then have p: "p \<in> set (job_lists s JOB_LIST_RUN)" using state_list(2) [OF inv pa] by simp
      obtain t where "mbd_job_reject_dispatch e p s = Inr t" "back_pending p s t"
        using mbd_job_reject_dispatch_step [OF inv env p run held [OF p]] by blast
      then show ?thesis using True run r by (auto simp: mbd_new_job_reply_def Let_def back_pending_def touches_def)
    next
      case False
      then have st: "jd_state ?j = JOB_PENDING \<or> jd_state ?j = JOB_HELD" using k True by auto
      then have "jd_list_id ?j = JOB_LIST_PEND" using state_list(1) [OF inv pa] inv_parts(4) [OF inv] by blast
      then show ?thesis using True st r inv by (auto simp: mbd_new_job_reply_def Let_def res_simps)
    qed
  next
    case nr: False
    obtain b o' where a: "send_ack e ?c BATCH_NEW_JOB_REPLY_ACK (wr_job_id r) BATCH_NEW_JOB_REPLY s = (b, s\<lparr>outq := o'\<rparr>)"
      by (rule send_ack_io)
    have ko: "keeps s (s\<lparr>outq := o'\<rparr>)" by (simp add: keeps_def array_same_def times_ok_def all_jobs_def)
    show ?thesis
    proof (cases "b \<and> \<not> 0 < jd_fork_time ?j")
      case False
      then have "mbd_new_job_reply e n dec s = Inr (s\<lparr>outq := o'\<rparr>)"
        using nr r a by (cases b) (simp_all add: mbd_new_job_reply_def Let_def)
      then show ?thesis using inv ko by simp
    next
      case True
      then have run: "jd_state ?j = JOB_RUNNING" using k nr by simp
      define u where "u = upd_job p (\<lambda>j. j\<lparr>jd_pid := wr_pid r, jd_fork_time := e_now e, jd_state := JOB_RUNNING\<rparr>) (s\<lparr>outq := o'\<rparr>)"
      obtain ev where ev: "event_job_fork p u = Inr (u\<lparr>manifest := manifest u @ [ev]\<rparr>)"
        using event_ok(3) [of u p] now by (auto simp: u_def)
      have "mbd_new_job_reply e n dec s = Inr (u\<lparr>manifest := manifest u @ [ev]\<rparr>)"
        using nr r a True by (simp add: mbd_new_job_reply_def Let_def u_def [symmetric] ev)
      moreover have t: "u\<lparr>manifest := manifest u @ [ev]\<rparr> = s\<lparr>job_heap := (job_heap s)(p := ?j\<lparr>jd_pid := wr_pid r,
          jd_fork_time := e_now e, jd_state := JOB_RUNNING\<rparr>), manifest := manifest s @ [ev], outq := o'\<rparr>"
        by (simp add: u_def upd_job_def)
      have "mbd_inv (u\<lparr>manifest := manifest u @ [ev]\<rparr>)" "touches p s (u\<lparr>manifest := manifest u @ [ev]\<rparr>)"
        by (rule inv_same_load [OF inv t]; use now in \<open>simp add: same_load_def array_same_def times_ok_def run\<close>)+
      ultimately show ?thesis by (auto simp: touches_def)
    qed
  qed
qed

text \<open>A report of the end of a job.\<close>

lemma touches_outq [simp]: "touches p (s\<lparr>outq := o'\<rparr>) t = touches p s t"
  by (simp add: touches_def keeps_def all_jobs_def)

lemma mbd_job_finish_step:
  assumes inv: "mbd_inv s" and env: "env_ok e"
    and held: "\<And>p. p \<in> set (job_lists s JOB_LIST_RUN) \<Longrightarrow> held s p"
    and known: "\<And>f p. dec = Some f \<Longrightarrow> job_find s (wf_job_id f) = Some p \<Longrightarrow>
      hd (jd_run_hosts (job_heap s p)) \<noteq> None \<and>
      (p \<in> set (job_lists s JOB_LIST_RUN) \<or> 0 < jd_end_time (job_heap s p))"
  shows "\<exists>t. mbd_job_finish e n dec s = Inr t \<and> mbd_inv t \<and> keeps s t \<and>
    (\<forall>f p h. dec = Some f \<and> job_find s (wf_job_id f) = Some p \<and> hd (jd_run_hosts (job_heap s p)) = Some h \<and>
       mh_name (host_heap s h) = mh_name (host_heap s n) \<and> jd_end_time (job_heap s p) \<le> 0 \<and>
       e_sign_ok e \<and> e_send_ok e (mh_sbd_chan (host_heap s n)) BATCH_JOB_FINISH_ACK \<longrightarrow>
       now_finished p f (s\<lparr>outq := outq s @ [\<lparr>msg_chan = mh_sbd_chan (host_heap s n), msg_op = BATCH_JOB_FINISH_ACK,
         msg_status = MBD_OK, msg_body = Job_ack (wf_job_id f) BATCH_JOB_FINISH\<rparr>]\<rparr>) t)"
proof (cases "\<exists>f p. dec = Some f \<and> job_find s (wf_job_id f) = Some p")
  case False
  have "\<exists>o'. mbd_job_finish e n dec s = Inr (s\<lparr>outq := o'\<rparr>)"
  proof (cases dec)
    case None
    then show ?thesis by (auto simp: mbd_job_finish_def intro: exI [of _ "outq s"])
  next
    case (Some f)
    obtain b o' where "send_ack e (mh_sbd_chan (host_heap s n)) BATCH_JOB_FINISH_ACK (wf_job_id f) BATCH_JOB_FINISH s =
      (b, s\<lparr>outq := o'\<rparr>)" by (rule send_ack_io)
    then show ?thesis using Some False by (auto simp: mbd_job_finish_def Let_def)
  qed
  moreover have "keeps s (s\<lparr>outq := o'\<rparr>)" for o' by (simp add: keeps_def array_same_def times_ok_def all_jobs_def)
  ultimately show ?thesis using inv False by auto
next
  case True
  then obtain f p where f: "dec = Some f" "job_find s (wf_job_id f) = Some p" by blast
  let ?j = "job_heap s p" and ?c = "mh_sbd_chan (host_heap s n)"
  note pa = inv_find(1) [OF inv f(2)] and jok = inv_find(4) [OF inv f(2)] and k = known [OF f]
  have "jd_run_hosts ?j \<noteq> []" using jok by (auto simp: job_ok_def)
  then obtain h where h: "hd (jd_run_hosts ?j) = Some h" "run_host s p 0 = Inr h"
    using k by (cases "jd_run_hosts ?j") (auto simp: run_host_def)
  have run: "jd_state ?j = JOB_RUNNING \<or> jd_state ?j = JOB_SUSPENDED" if "\<not> 0 < jd_end_time ?j"
    using k that state_list(2) [OF inv pa] by blast
  have ko: "keeps s (s\<lparr>outq := o'\<rparr>)" for o' by (simp add: keeps_def array_same_def times_ok_def all_jobs_def)
  show ?thesis
  proof (cases "mh_name (host_heap s n) = mh_name (host_heap s h)")
    case False
    then have "mbd_job_finish e n dec s = Inr s" using f h by (simp add: mbd_job_finish_def Let_def)
    then show ?thesis using inv False f h by auto
  next
    case same: True
    let ?m = "\<lparr>msg_chan = ?c, msg_op = BATCH_JOB_FINISH_ACK, msg_status = MBD_OK, msg_body = Job_ack (wf_job_id f) BATCH_JOB_FINISH\<rparr>"
    define s1 where "s1 = s\<lparr>outq := outq s @ [?m]\<rparr>"
    have ack: "send_ack e ?c BATCH_JOB_FINISH_ACK (wf_job_id f) BATCH_JOB_FINISH s =
        (if e_sign_ok e \<and> e_send_ok e ?c BATCH_JOB_FINISH_ACK then (True, s1) else (False, s))"
      by (simp add: send_ack_def enqueue_payload_def s1_def)
    have c: "mbd_job_finish e n dec s = (if e_sign_ok e \<and> e_send_ok e ?c BATCH_JOB_FINISH_ACK
        then if 0 < jd_end_time ?j then Inr s1 else finish_running e p f s1 else Inr s)"
      using f h same run by (auto simp: mbd_job_finish_def Let_def ack res_simps)
    show ?thesis
    proof (cases "e_sign_ok e \<and> e_send_ok e ?c BATCH_JOB_FINISH_ACK \<and> \<not> 0 < jd_end_time ?j")
      case False
      then have "mbd_job_finish e n dec s = Inr s \<or> mbd_job_finish e n dec s = Inr s1" using c by auto
      then show ?thesis using inv False f h ko [of "outq s @ [?m]"] by (auto simp: s1_def)
    next
      case True
      then have p1: "p \<in> set (job_lists s1 JOB_LIST_RUN)" "held s1 p"
        using k held [of p] by (simp_all add: s1_def held_def)
      have i1: "mbd_inv s1" using inv by (simp add: s1_def)
      obtain t where t: "finish_running e p f s1 = Inr t" "now_finished p f s1 t"
        using finish_running_step [OF i1 env p1] by blast
      have "keeps s t" using t(2) keeps_trans [OF ko [of "outq s @ [?m]"]] by (simp add: now_finished_def touches_def s1_def)
      moreover have "mbd_inv t" using t(2) by (simp add: now_finished_def touches_def)
      ultimately show ?thesis using c True t f h same by (auto simp: s1_def)
    qed
  qed
qed

text \<open>A report that a signal was delivered.\<close>

lemma inv_state_flip:
  assumes inv: "mbd_inv s" and p: "p \<in> set (job_lists s JOB_LIST_RUN)" and q: "jd_queue (job_heap s p) = Some q"
    and one: "run_hosts_are (job_heap s p) [n]" and st: "st = JOB_RUNNING \<or> st = JOB_SUSPENDED"
    and qf: "mq_host_hash (f (queue_heap s q)) = mq_host_hash (queue_heap s q)"
      "\<And>c. q_ctr c (f (queue_heap s q)) = q_ctr c (queue_heap s q) +
        (q_share c ((job_heap s p)\<lparr>jd_state := st\<rparr>) - q_share c (job_heap s p))"
    and hf: "mh_name (g (host_heap s n)) = mh_name (host_heap s n)" "host_ok (g (host_heap s n)) = host_ok (host_heap s n)"
      "\<And>c. h_ctr c (g (host_heap s n)) = h_ctr c (host_heap s n) +
        (h_share c ((job_heap s p)\<lparr>jd_state := st\<rparr>) - h_share c (job_heap s p))"
  shows "mbd_inv (upd_host n g (upd_queue q f (upd_job p (\<lambda>j. j\<lparr>jd_state := st\<rparr>) s)))" (is "mbd_inv ?t")
proof (rule inv_move [OF inv p, where b = JOB_LIST_RUN])
  have l: "jd_list_id (job_heap s p) = JOB_LIST_RUN" using inv_parts(4) [OF inv p] by simp
  have j: "job_heap ?t p = (job_heap s p)\<lparr>jd_state := st\<rparr>" by simp
  have u: "job_uses_host (job_heap s p) h \<longleftrightarrow> h = n" for h using run_hosts_are_uses [OF one] by simp
  have u': "job_uses_host ((job_heap s p)\<lparr>jd_state := st\<rparr>) h \<longleftrightarrow> h = n" for h
    using u [of h] by (simp add: job_uses_host_def used_hosts_def)
  show "jd_list_id (job_heap ?t p) = JOB_LIST_RUN" by (simp add: l)
  show "job_ok (queue_list s) (host_list s) (job_heap ?t p)"
    using inv_parts(5) [OF inv p] st l by (auto simp: job_ok_def run_hosts_are_def)
  show "queues_follow p s ?t"
    by (rule queues_follow_upd [where q = q and f = f]) (use q qf in simp_all)
  show "h_ctr c (host_heap ?t h) = h_ctr c (host_heap s h) + (h_weight c h (job_heap ?t p) - h_weight c h (job_heap s p))" for h c
    using hf(3) [of c] by (simp add: h_weight_def l u u')
  show "host_ok (host_heap ?t h)" if "h \<in> set (host_list s)" for h
    using inv_parts(7) [OF inv that] hf(2) by (cases "h = n") simp_all
  show "mh_name (host_heap ?t h) = mh_name (host_heap s h)" for h using hf(1) by simp
  show "tp_total (pool_heap ?t k) - tp_free (pool_heap ?t k) = tp_total (pool_heap s k) - tp_free (pool_heap s k) +
      (t_weight (token_pool_name_hash s) k (job_heap ?t p) - t_weight (token_pool_name_hash s) k (job_heap s p))" for k
    by (simp add: t_weight_def)
qed (simp_all add: fixed_parts_def)

definition reply_fits :: "mbd \<Rightarrow> hptr \<Rightarrow> wire_job_sig \<Rightarrow> bool" where
  "reply_fits s n sg \<longleftrightarrow> (\<forall>p. job_find s (sg_job_id sg) = Some p \<longrightarrow>
     (sg_sig sg = SIGSTOP \<or> sg_sig sg = SIGTSTP \<longrightarrow>
        jd_state (job_heap s p) = JOB_RUNNING \<and> run_hosts_are (job_heap s p) [n]) \<and>
     (sg_sig sg = SIGCONT \<longrightarrow> jd_state (job_heap s p) = JOB_SUSPENDED \<and> run_hosts_are (job_heap s p) [n]))"

lemma keeps_state_flip:
  assumes "\<And>x. mh_sbd_chan (g x) = mh_sbd_chan x" and "\<And>x. mq_host_hash (f x) = mq_host_hash x"
    and "\<And>x. mq_user_hash (f x) = mq_user_hash x"
  shows "keeps s (upd_host n g (upd_queue q f (upd_job p (\<lambda>j. j\<lparr>jd_state := st\<rparr>) s)))"
  using assms by (simp add: keeps_def array_same_def times_ok_def all_jobs_def)

lemma mbd_job_signal_reply_step:
  assumes inv: "mbd_inv s" and fits: "\<And>sg. dec = Some sg \<Longrightarrow> reply_fits s n sg"
  shows "\<exists>t. mbd_job_signal_reply n dec hdr s = Inr t \<and> mbd_inv t \<and> keeps s t \<and>
    (\<forall>sg p. dec = Some sg \<and> job_find s (sg_job_id sg) = Some p \<and> wh_status hdr = MBD_OK \<longrightarrow>
       jd_state (job_heap t p) = (if sg_sig sg = SIGSTOP \<or> sg_sig sg = SIGTSTP then JOB_SUSPENDED
         else if sg_sig sg = SIGCONT then JOB_RUNNING else jd_state (job_heap s p)))"
proof (cases "\<exists>sg p. dec = Some sg \<and> job_find s (sg_job_id sg) = Some p \<and> wh_status hdr = MBD_OK")
  case False
  then have "mbd_job_signal_reply n dec hdr s = Inr s" by (auto simp: mbd_job_signal_reply_def split: option.splits)
  then show ?thesis using inv False by auto
next
  case True
  then obtain sg p where sg: "dec = Some sg" "job_find s (sg_job_id sg) = Some p" "wh_status hdr = MBD_OK" by blast
  let ?j = "job_heap s p"
  note fit = fits [OF sg(1), unfolded reply_fits_def, rule_format, OF sg(2)]
  note pa = inv_find(1) [OF inv sg(2)] and jok = inv_find(4) [OF inv sg(2)]
  obtain q where q: "jd_queue ?j = Some q" using job_ok_queue [OF jok] by blast
  have ne: "SIGCONT \<noteq> SIGSTOP" "SIGCONT \<noteq> SIGTSTP" by (simp_all add: SIGCONT_def SIGSTOP_def SIGTSTP_def)
  consider (stop) "sg_sig sg = SIGSTOP \<or> sg_sig sg = SIGTSTP" | (cont) "sg_sig sg = SIGCONT"
    | (other) "sg_sig sg \<noteq> SIGSTOP" "sg_sig sg \<noteq> SIGTSTP" "sg_sig sg \<noteq> SIGCONT" by blast
  then show ?thesis
  proof cases
    case stop
    then have st: "jd_state ?j = JOB_RUNNING" and one: "run_hosts_are ?j [n]" using fit by auto
    have p: "p \<in> set (job_lists s JOB_LIST_RUN)" using state_list(2) [OF inv pa] st by simp
    have l: "jd_list_id ?j = JOB_LIST_RUN" using inv_parts(4) [OF inv p] by simp
    let ?f = "\<lambda>q. q\<lparr>mq_num_run := mq_num_run q - 1, mq_num_susp := mq_num_susp q + 1\<rparr>"
    let ?g = "\<lambda>h. h\<lparr>mh_num_susp := mh_num_susp h + 1, mh_num_run := mh_num_run h - 1\<rparr>"
    let ?t = "upd_host n ?g (upd_queue q ?f (upd_job p (\<lambda>j. j\<lparr>jd_state := JOB_SUSPENDED\<rparr>) s))"
    have i: "mbd_inv ?t"
    proof (rule inv_state_flip [OF inv p q one])
      show "q_ctr c (?f (queue_heap s q)) = q_ctr c (queue_heap s q) + (q_share c (?j\<lparr>jd_state := JOB_SUSPENDED\<rparr>) - q_share c ?j)" for c
        by (cases c) (simp_all add: l st)
      show "h_ctr c (?g (host_heap s n)) = h_ctr c (host_heap s n) + (h_share c (?j\<lparr>jd_state := JOB_SUSPENDED\<rparr>) - h_share c ?j)" for c
        by (cases c) (simp_all add: st)
    qed (simp_all add: host_ok_def)
    have "mbd_job_signal_reply n dec hdr s = Inr ?t"
      using stop sg q by (simp add: mbd_job_signal_reply_def on_queue_def job_queue_def inv_assert_counters [OF i])
    then show ?thesis using i sg stop keeps_state_flip [of ?g] by auto
  next
    case cont
    then have st: "jd_state ?j = JOB_SUSPENDED" and one: "run_hosts_are ?j [n]" using fit by auto
    have p: "p \<in> set (job_lists s JOB_LIST_RUN)" using state_list(2) [OF inv pa] st by simp
    have l: "jd_list_id ?j = JOB_LIST_RUN" using inv_parts(4) [OF inv p] by simp
    let ?f = "\<lambda>q. q\<lparr>mq_num_susp := mq_num_susp q - 1, mq_num_run := mq_num_run q + 1\<rparr>"
    let ?g = "\<lambda>h. h\<lparr>mh_num_susp := mh_num_susp h - 1, mh_num_run := mh_num_run h + 1\<rparr>"
    let ?t = "upd_host n ?g (upd_queue q ?f (upd_job p (\<lambda>j. j\<lparr>jd_state := JOB_RUNNING\<rparr>) s))"
    have i: "mbd_inv ?t"
    proof (rule inv_state_flip [OF inv p q one])
      show "q_ctr c (?f (queue_heap s q)) = q_ctr c (queue_heap s q) + (q_share c (?j\<lparr>jd_state := JOB_RUNNING\<rparr>) - q_share c ?j)" for c
        by (cases c) (simp_all add: l st)
      show "h_ctr c (?g (host_heap s n)) = h_ctr c (host_heap s n) + (h_share c (?j\<lparr>jd_state := JOB_RUNNING\<rparr>) - h_share c ?j)" for c
        by (cases c) (simp_all add: st)
    qed (simp_all add: host_ok_def)
    have "mbd_job_signal_reply n dec hdr s = Inr ?t"
      using cont sg q ne by (simp add: mbd_job_signal_reply_def on_queue_def job_queue_def inv_assert_counters [OF i])
    then show ?thesis using i sg cont ne keeps_state_flip [of ?g] by auto
  next
    case other
    then have "mbd_job_signal_reply n dec hdr s = Inr s"
      using sg q by (simp add: mbd_job_signal_reply_def job_queue_def inv_assert_counters [OF inv])
    then show ?thesis using inv sg other by auto
  qed
qed

section \<open>The table of connections\<close>

text \<open>
  A host is attached to a channel exactly when the table leads from that channel
  to it, so that a message on the channel is taken for a report of that host.
\<close>

definition conn_ok :: "mbd \<Rightarrow> bool" where
  "conn_ok s \<longleftrightarrow> ll_hash_wf (sbd_chan_hash s) \<and>
     (\<forall>k n. ll_hash_search (host_name_hash s) k = Some n \<longrightarrow> n \<in> set (host_list s)) \<and>
     (\<forall>c m. ll_hash_abs (sbd_chan_hash s) (fmt_ld c) = Some m \<longleftrightarrow>
        c \<noteq> - 1 \<and> (\<exists>h \<in> set (host_list s). m = Some h \<and> mh_sbd_chan (host_heap s h) = c))"

lemma conn_okD:
  assumes "conn_ok s"
  shows "ll_hash_wf (sbd_chan_hash s)"
    and "ll_hash_search (host_name_hash s) k = Some n \<Longrightarrow> n \<in> set (host_list s)"
    and "ll_hash_abs (sbd_chan_hash s) (fmt_ld c) = Some m \<longleftrightarrow>
      c \<noteq> - 1 \<and> (\<exists>h \<in> set (host_list s). m = Some h \<and> mh_sbd_chan (host_heap s h) = c)"
  using assms by (auto simp: conn_ok_def)

lemma conn_ok_unique:
  assumes "conn_ok s" and "h \<in> set (host_list s)" and "h' \<in> set (host_list s)"
    and "mh_sbd_chan (host_heap s h) = mh_sbd_chan (host_heap s h')" and "mh_sbd_chan (host_heap s h) \<noteq> - 1"
  shows "h = h'"
proof -
  let ?c = "mh_sbd_chan (host_heap s h)"
  have "ll_hash_abs (sbd_chan_hash s) (fmt_ld ?c) = Some (Some h)" using conn_okD(3) [OF assms(1)] assms(2,5) by blast
  moreover have "ll_hash_abs (sbd_chan_hash s) (fmt_ld ?c) = Some (Some h')"
    using conn_okD(3) [OF assms(1)] assms(3,4,5) by metis
  ultimately show ?thesis by simp
qed

lemma conn_ok_search:
  assumes "conn_ok s"
  shows "ll_hash_search (sbd_chan_hash s) (fmt_ld c) = Some h \<longleftrightarrow>
    ll_hash_abs (sbd_chan_hash s) (fmt_ld c) = Some (Some h)"
    and "ll_hash_search (sbd_chan_hash s) (fmt_ld c) = None \<longleftrightarrow> ll_hash_abs (sbd_chan_hash s) (fmt_ld c) = None"
proof -
  note wf = conn_okD(1) [OF assms]
  show "ll_hash_search (sbd_chan_hash s) (fmt_ld c) = Some h \<longleftrightarrow>
    ll_hash_abs (sbd_chan_hash s) (fmt_ld c) = Some (Some h)"
    by (cases "ll_hash_abs (sbd_chan_hash s) (fmt_ld c)") (simp_all add: ht.search_abs [OF wf])
  show "ll_hash_search (sbd_chan_hash s) (fmt_ld c) = None \<longleftrightarrow> ll_hash_abs (sbd_chan_hash s) (fmt_ld c) = None"
  proof (cases "ll_hash_abs (sbd_chan_hash s) (fmt_ld c)")
    case (Some m)
    then obtain h where "m = Some h" using conn_okD(3) [OF assms] by blast
    then show ?thesis using Some by (simp add: ht.search_abs [OF wf])
  qed (simp add: ht.search_abs [OF wf])
qed

lemma conn_ok_io [simp]:
  "conn_ok (s\<lparr>outq := a\<rparr>) = conn_ok s" "conn_ok (s\<lparr>shut_chans := b\<rparr>) = conn_ok s"
  by (simp_all add: conn_ok_def)

lemma mbd_sbd_disconnect_result:
  "mbd_sbd_disconnect n s = s\<lparr>host_heap := (host_heap s)(n := (host_heap s n)\<lparr>mh_sbd_chan := - 1,
       mh_state := HOST_UNAVAIL OR (mh_state (host_heap s n) AND HOST_CLOSED)\<rparr>),
     sbd_chan_hash := snd (ll_hash_remove (sbd_chan_hash s) (fmt_ld (mh_sbd_chan (host_heap s n)))),
     shut_chans := shut_chans s @ [mh_sbd_chan (host_heap s n)]\<rparr>"
  by (simp add: mbd_sbd_disconnect_def Let_def upd_host_def chan_shutdown_def)

lemma mbd_sbd_disconnect_ok:
  assumes "mbd_inv s" and "conn_ok s" and "n \<in> set (host_list s)"
  shows "mbd_inv (mbd_sbd_disconnect n s)" and "conn_ok (mbd_sbd_disconnect n s)"
proof -
  show "mbd_inv (mbd_sbd_disconnect n s)"
    by (rule inv_frame [OF assms(1)]) (simp_all add: mbd_sbd_disconnect_result)
  note wf = conn_okD(1) [OF assms(2)]
  have "ll_hash_abs (sbd_chan_hash (mbd_sbd_disconnect n s)) (fmt_ld c) = Some m \<longleftrightarrow> c \<noteq> - 1 \<and>
    (\<exists>h \<in> set (host_list s). m = Some h \<and> mh_sbd_chan (host_heap (mbd_sbd_disconnect n s) h) = c)" for c m
  proof (cases "c = mh_sbd_chan (host_heap s n)")
    case True
    have "h = n" if "h \<in> set (host_list s)" "mh_sbd_chan (host_heap s h) = c" "c \<noteq> - 1" for h
      using conn_ok_unique [OF assms(2) that(1) assms(3)] that(2,3) True by simp
    then show ?thesis using True by (auto simp: mbd_sbd_disconnect_result ht.remove_abs [OF wf])
  next
    case False
    then show ?thesis using conn_okD(3) [OF assms(2), of c m]
      by (auto simp: mbd_sbd_disconnect_result ht.remove_abs [OF wf])
  qed
  then show "conn_ok (mbd_sbd_disconnect n s)"
    using conn_okD(2) [OF assms(2)]
    by (simp add: conn_ok_def) (simp add: mbd_sbd_disconnect_result ht.remove_wf [OF wf])
qed

lemma build_sbd_run_list_result:
  assumes "\<And>p. p \<in> set (job_lists s JOB_LIST_RUN) \<Longrightarrow> jd_run_hosts (job_heap s p) \<noteq> []"
  shows "build_sbd_run_list n s = Inr (map (\<lambda>p. (jd_job_id (job_heap s p), s32 (jd_pid (job_heap s p))))
    (filter (\<lambda>p. hd (jd_run_hosts (job_heap s p)) = Some n) (job_lists s JOB_LIST_RUN)))"
proof -
  let ?e = "\<lambda>p. (jd_job_id (job_heap s p), s32 (jd_pid (job_heap s p)))"
  let ?f = "\<lambda>p js. bindE (runs_on n p s) (\<lambda>mine. Inr (if mine then js @ [?e p] else js))"
  have "(\<And>p. p \<in> set ps \<Longrightarrow> jd_run_hosts (job_heap s p) \<noteq> []) \<Longrightarrow>
    foldE ?f ps js = Inr (js @ map ?e (filter (\<lambda>p. hd (jd_run_hosts (job_heap s p)) = Some n) ps))" for ps js
  proof (induction ps arbitrary: js)
    case (Cons p ps)
    obtain h hs where "jd_run_hosts (job_heap s p) = h # hs" using Cons.prems [of p] by (cases "jd_run_hosts (job_heap s p)") auto
    then show ?case using Cons by (simp add: runs_on_def)
  qed simp
  from this [OF assms, of "job_lists s JOB_LIST_RUN" "[]"] show ?thesis by (simp add: build_sbd_run_list_def)
qed

text \<open>A host that gets attached to a channel no other host is on.\<close>

definition attach_host :: "hptr \<Rightarrow> int \<Rightarrow> mbd \<Rightarrow> mbd" where
  "attach_host n c s = s\<lparr>host_heap := (host_heap s)(n := (host_heap s n)\<lparr>mh_sbd_chan := c,
       mh_state := HOST_OK OR (mh_state (host_heap s n) AND HOST_CLOSED)\<rparr>),
     sbd_chan_hash := snd (ll_hash_insert (sbd_chan_hash s) (fmt_ld c) (Some n) False)\<rparr>"

lemma attach_host_ok:
  assumes "mbd_inv s" and "conn_ok s" and "n \<in> set (host_list s)" and "mh_sbd_chan (host_heap s n) = - 1"
    and "ll_hash_search (sbd_chan_hash s) (fmt_ld c) = None" and "c \<noteq> - 1"
  shows "mbd_inv (attach_host n c s)" and "conn_ok (attach_host n c s)"
proof -
  show "mbd_inv (attach_host n c s)"
    by (rule inv_frame [OF assms(1)]) (simp_all add: attach_host_def)
  note wf = conn_okD(1) [OF assms(2)]
  have free: "ll_hash_abs (sbd_chan_hash s) (fmt_ld c) = None" using assms(5) conn_ok_search(2) [OF assms(2)] by simp
  then have nobody: "\<not> (\<exists>h \<in> set (host_list s). mh_sbd_chan (host_heap s h) = c)"
    using conn_okD(3) [OF assms(2), of c] assms(6) by fastforce
  have "ll_hash_abs (sbd_chan_hash (attach_host n c s)) (fmt_ld d) = Some m \<longleftrightarrow> d \<noteq> - 1 \<and>
    (\<exists>h \<in> set (host_list s). m = Some h \<and> mh_sbd_chan (host_heap (attach_host n c s) h) = d)" for d m
  proof (cases "d = c")
    case True
    then show ?thesis using nobody free assms(3,6) by (auto simp: attach_host_def ht.insert_abs [OF wf])
  next
    case False
    then show ?thesis using conn_okD(3) [OF assms(2), of d m] assms(4) free
      by (auto simp: attach_host_def ht.insert_abs [OF wf])
  qed
  then show "conn_ok (attach_host n c s)"
    using conn_okD(2) [OF assms(2)] by (simp add: conn_ok_def) (simp add: attach_host_def ht.insert_wf [OF wf])
qed

lemma mbd_sbd_register_result:
  assumes inv: "mbd_inv s" and n: "ll_hash_search (host_name_hash s) (cfield 64 name) = Some n"
    and off: "mh_sbd_chan (host_heap s n) = - 1"
  shows "mbd_sbd_register e (Some name) c s =
    (if e_sign_ok e
     then Inr (True, snd (enqueue_payload e c BATCH_SBD_REGISTER_ACK MBD_OK (Register_body
       (map (\<lambda>p. (jd_job_id (job_heap s p), s32 (jd_pid (job_heap s p))))
         (filter (\<lambda>p. hd (jd_run_hosts (job_heap s p)) = Some n) (job_lists s JOB_LIST_RUN)))) (attach_host n c s)))
     else Inr (False, mbd_sbd_disconnect n (attach_host n c s)))"
proof -
  define s2 where "s2 = (upd_host n (\<lambda>h. h\<lparr>mh_sbd_chan := c\<rparr>) s)\<lparr>sbd_chan_hash := snd (ll_hash_insert (sbd_chan_hash s) (fmt_ld c) (Some n) False)\<rparr>"
  have a: "upd_host n (\<lambda>h. h\<lparr>mh_state := HOST_OK OR (mh_state h AND HOST_CLOSED)\<rparr>) s2 = attach_host n c s"
    by (simp add: s2_def attach_host_def upd_host_def)
  have s2: "sbd_chan_hash (upd_host n (\<lambda>h. h\<lparr>mh_sbd_chan := c\<rparr>) s) = sbd_chan_hash s" "job_lists s2 = job_lists s"
    "job_heap s2 = job_heap s" by (simp_all add: s2_def)
  have "jd_run_hosts (job_heap s2 p) \<noteq> []" if p: "p \<in> set (job_lists s2 JOB_LIST_RUN)" for p
    using inv_parts(5) [OF inv, of p JOB_LIST_RUN] that by (auto simp: s2 job_ok_def)
  from build_sbd_run_list_result [of s2 n, OF this]
  show ?thesis using n off by (simp add: mbd_sbd_register_def Let_def s2 s2_def [symmetric] a)
qed

section \<open>Properties\<close>

text \<open>
  C14. Registration of an execution daemon keeps the invariant and the agreement between
  channels and hosts. It succeeds exactly for a configured host that no daemon is
  attached to (and a header that can be signed); the host is then reachable, still
  closed if an administrator closed it, and the reply names exactly the running jobs
  whose first host it is.
\<close>

theorem register_links:
  assumes "mbd_inv s" and "conn_ok s" and "ll_hash_search (sbd_chan_hash s) (fmt_ld c) = None" and "c \<noteq> - 1"
  shows "\<exists>b t. mbd_sbd_register e reg c s = Inr (b, t) \<and> mbd_inv t \<and> conn_ok t \<and>
    (b \<longleftrightarrow> e_sign_ok e \<and> (\<exists>name n. reg = Some name \<and>
       ll_hash_search (host_name_hash s) (cfield 64 name) = Some n \<and> mh_sbd_chan (host_heap s n) = - 1)) \<and>
    (\<forall>name n. b \<and> reg = Some name \<and> ll_hash_search (host_name_hash s) (cfield 64 name) = Some n \<longrightarrow>
       ll_hash_search (sbd_chan_hash t) (fmt_ld c) = Some n \<and> mh_sbd_chan (host_heap t n) = c \<and>
       mh_state (host_heap t n) = mh_state (host_heap s n) AND HOST_CLOSED \<and>
       (e_send_ok e c BATCH_SBD_REGISTER_ACK \<longrightarrow> outq t = outq s @ [\<lparr>msg_chan = c, msg_op = BATCH_SBD_REGISTER_ACK,
          msg_status = MBD_OK, msg_body = Register_body (map (\<lambda>p. (jd_job_id (job_heap s p), s32 (jd_pid (job_heap s p))))
            (filter (\<lambda>p. hd (jd_run_hosts (job_heap s p)) = Some n) (job_lists s JOB_LIST_RUN)))\<rparr>]))"
proof (cases "\<exists>name n. reg = Some name \<and> ll_hash_search (host_name_hash s) (cfield 64 name) = Some n \<and>
    mh_sbd_chan (host_heap s n) = - 1")
  case False
  then have "mbd_sbd_register e reg c s = Inr (False, chan_shutdown c s)"
    by (auto simp: mbd_sbd_register_def split: option.splits)
  then show ?thesis using False assms by (auto simp: chan_shutdown_def)
next
  case True
  then obtain name n where n: "reg = Some name" "ll_hash_search (host_name_hash s) (cfield 64 name) = Some n"
    "mh_sbd_chan (host_heap s n) = - 1" by blast
  have nl: "n \<in> set (host_list s)" by (rule conn_okD(2) [OF assms(2) n(2)])
  note at = attach_host_ok [OF assms(1,2) nl n(3) assms(3,4)]
  have nl': "n \<in> set (host_list (attach_host n c s))" using nl by (simp add: attach_host_def)
  have h: "mh_sbd_chan (host_heap (attach_host n c s) n) = c"
    "mh_state (host_heap (attach_host n c s) n) = mh_state (host_heap s n) AND HOST_CLOSED"
    "outq (attach_host n c s) = outq s" by (simp_all add: attach_host_def HOST_OK_def)
  have "ll_hash_search (sbd_chan_hash (attach_host n c s)) (fmt_ld c) = Some n"
    using conn_ok_search(1) [OF at(2)] conn_okD(3) [OF at(2)] nl' h(1) assms(4) by blast
  then show ?thesis
    using True n at h mbd_sbd_disconnect_ok [OF at nl']
    by (auto simp: n mbd_sbd_register_result [OF assms(1) n(2,3)] enqueue_payload_def)
qed

definition ex_off :: mbd where
  "ex_off = ex_mbd\<lparr>host_heap := (\<lambda>h. (host_heap ex_mbd h)\<lparr>mh_sbd_chan := - 1\<rparr>), sbd_chan_hash := ll_hash_init 11\<rparr>"

lemma ex_off_ok: "mbd_inv ex_off" "conn_ok ex_off" "ll_hash_search (sbd_chan_hash ex_off) k = None"
proof -
  show "mbd_inv ex_off" by (rule inv_frame [OF ex_mbd_inv]) (simp_all add: ex_off_def)
  show "ll_hash_search (sbd_chan_hash ex_off) k = None" by (simp add: ex_off_def ht.search_create)
  show "conn_ok ex_off" by (auto simp: conn_ok_def ex_off_def ll_hash_init_ok)
qed

theorem register_links_witness:
  "\<exists>t. mbd_sbd_register ex_env (Some ''n1'') 9 ex_off = Inr (True, t) \<and> mbd_inv t \<and>
     mh_sbd_chan (host_heap t 0) = 9 \<and> outq t = [\<lparr>msg_chan = 9, msg_op = BATCH_SBD_REGISTER_ACK,
       msg_status = MBD_OK, msg_body = Register_body [(2, 4711)]\<rparr>]"
proof -
  have c: "cfield 64 ''n1'' = ''n1''" by code_simp
  have n: "ll_hash_search (host_name_hash ex_off) ''n1'' = Some 0" by (simp add: ex_off_def)
  have h: "mh_sbd_chan (host_heap ex_off 0) = - 1" "job_lists ex_off JOB_LIST_RUN = [1]" "job_heap ex_off = job_heap ex_mbd"
    "outq ex_off = []" by (simp_all add: ex_off_def)
  have e: "e_sign_ok ex_env" "e_send_ok ex_env 9 BATCH_SBD_REGISTER_ACK" by (simp_all add: ex_env_def)
  have "(9::int) \<noteq> - 1" by simp
  from register_links [OF ex_off_ok this, of ex_env "Some ''n1''"] n h e show ?thesis
    by (auto simp: c ex_defs s32_def)
qed


definition ex_fin :: wire_job_finish where
  "ex_fin = \<lparr>wf_job_id = 2, wf_state = 0, wf_exit_status = 0, wf_pid = 4711, wf_mem_mb = 10, wf_swap_mb = 0, wf_cpu_time = ''1.00''\<rparr>"

lemma ex_held: "held ex_mbd 1"
  by (simp add: held_def gpus_held_def ex_defs)


text \<open>
  C15. Reports are idempotent. A second report of the end of a job, or of its start,
  from its host changes nothing but the queue of outgoing messages: it is
  acknowledged again, so that the execution daemon stops repeating it.
\<close>

theorem duplicate_reports_only_acknowledged:
  assumes "job_find s i = Some p" and "jd_run_hosts (job_heap s p) = Some n # hs"
  shows "(0 < jd_end_time (job_heap s p) \<and> wf_job_id f = i \<longrightarrow> mbd_job_finish e n (Some f) s =
      Inr (snd (send_ack e (mh_sbd_chan (host_heap s n)) BATCH_JOB_FINISH_ACK i BATCH_JOB_FINISH s))) \<and>
    (0 < jd_fork_time (job_heap s p) \<and> wr_job_id r = i \<and> wr_state r \<noteq> 1 \<longrightarrow> mbd_new_job_reply e n (Some r) s =
      Inr (snd (send_ack e (mh_sbd_chan (host_heap s n)) BATCH_NEW_JOB_REPLY_ACK i BATCH_NEW_JOB_REPLY s)))"
  using assms by (auto simp: mbd_job_finish_def mbd_new_job_reply_def run_host_def Let_def res_simps
      send_ack_def enqueue_payload_def)

theorem duplicate_reports_only_acknowledged_witness:
  "\<exists>t. mbd_new_job_reply ex_env 0 (Some \<lparr>wr_job_id = 2, wr_pid = 4711, wr_pgid = 4711, wr_state = 3\<rparr>) ex_mbd =
     Inr t \<and> length (outq t) = 1 \<and> job_heap t = job_heap ex_mbd \<and> manifest t = []"
proof -
  have h: "job_find ex_mbd 2 = Some 1" "jd_run_hosts (job_heap ex_mbd 1) = Some 0 # []" "0 < jd_fork_time (job_heap ex_mbd 1)"
    by (simp_all add: ex_defs)
  from duplicate_reports_only_acknowledged [OF h(1,2), of ex_fin ex_env "\<lparr>wr_job_id = 2, wr_pid = 4711, wr_pgid = 4711, wr_state = 3\<rparr>"] h(3)
  show ?thesis by (simp add: send_ack_def enqueue_payload_def ex_env_def)
qed



text \<open>
  C35. Delivery reports of signals are counted without looking at the state of the job:
  a second report of a stop for a suspended job (a repeated stop signal, or a repeated
  message) changes the counters again, and the cross check of the counters ends the
  daemon.
\<close>

theorem repeated_stop_report_aborts:
  assumes "mbd_inv s" and "assert_counters s" and "job_find s (sg_job_id sg) = Some p"
    and "jd_state (job_heap s p) = JOB_SUSPENDED" and "sg_sig sg = SIGSTOP" and "wh_status hdr = MBD_OK"
  shows "mbd_job_signal_reply n (Some sg) hdr s = Inl Assert_failed"
proof -
  note jok = inv_find(4) [OF assms(1,3)]
  obtain q where q: "q \<in> set (queue_list s)" "jd_queue (job_heap s p) = Some q" using job_ok_queue [OF jok] by blast
  let ?f = "\<lambda>q. q\<lparr>mq_num_run := mq_num_run q - 1, mq_num_susp := mq_num_susp q + 1\<rparr>"
  let ?g = "\<lambda>h. h\<lparr>mh_num_susp := mh_num_susp h + 1, mh_num_run := mh_num_run h - 1\<rparr>"
  let ?u = "upd_host n ?g (upd_queue q ?f (upd_job p (\<lambda>j. j\<lparr>jd_state := JOB_SUSPENDED\<rparr>) s))"
  have "(job_heap s p)\<lparr>jd_state := JOB_SUSPENDED\<rparr> = job_heap s p" using assms(4) by (cases "job_heap s p") simp
  then have j: "job_heap ?u = job_heap s" by (simp add: upd_job_def upd_queue_def upd_host_def)
  have qs: "queue_sum ?u q JOB_LIST_RUN w = queue_sum s q JOB_LIST_RUN w" for w
    unfolding queue_sum_def j by simp
  have "mq_num_susp (queue_heap s q) = queue_sum s q JOB_LIST_RUN (\<lambda>j. of_bool (jd_state j = JOB_SUSPENDED))"
    using inv_queue_counters [OF assms(1) q(1)] by (simp add: assert_queue_counters_def Let_def)
  then have "\<not> assert_queue_counters ?u q"
    by (simp add: assert_queue_counters_def Let_def qs)
  then have "mbd_assert_counters ?u = Inl Assert_failed"
    using q(1) assms(2) by (auto simp: mbd_assert_counters_def list_all_iff)
  then show ?thesis using assms(3,5,6) q(2) by (simp add: mbd_job_signal_reply_def on_queue_def job_queue_def)
qed

definition ex_stop :: wire_job_sig where
  "ex_stop = \<lparr>sg_job_id = 2, sg_array_index = 0, sg_sig = SIGSTOP, sg_uid = 1000\<rparr>"

theorem repeated_stop_report_aborts_witness:
  "\<exists>s. mbd_job_signal_reply 0 (Some ex_stop) ex_hdr ex_mbd = Inr s \<and> mbd_inv s \<and>
     mbd_job_signal_reply 0 (Some ex_stop) ex_hdr s = Inl Assert_failed"
proof -
  have "run_hosts_are (job_heap ex_mbd 1) [0]" by (simp add: run_hosts_are_def ex_defs)
  then have "reply_fits ex_mbd 0 ex_stop" by (auto simp: reply_fits_def ex_stop_def ex_defs SIGSTOP_def SIGCONT_def)
  then obtain s where s: "mbd_job_signal_reply 0 (Some ex_stop) ex_hdr ex_mbd = Inr s" "mbd_inv s" "keeps ex_mbd s"
    "jd_state (job_heap s 1) = JOB_SUSPENDED"
    using mbd_job_signal_reply_step [OF ex_mbd_inv, of "Some ex_stop" 0 ex_hdr] by (auto simp: ex_stop_def ex_hdr_def MBD_OK_def)
  have q: "jd_queue ex_run = Some 0" by (simp add: ex_defs)
  have a: "assert_counters s"
    using s(1) by (auto simp: mbd_job_signal_reply_def ex_stop_def ex_hdr_def MBD_OK_def on_queue_def job_queue_def q
        mbd_assert_counters_def split: if_splits)
  have f: "job_find s 2 = Some 1" using s(3) ex_mbd_find [of 2] by (simp add: keeps_def job_find_def del: ex_mbd_find)
  show ?thesis using s repeated_stop_report_aborts [OF s(2) a, of ex_stop 1 ex_hdr 0] f
    by (auto simp: ex_stop_def ex_hdr_def MBD_OK_def)
qed

end
