(* ===== verification/Mbd_Info.thy ===== *)
theory Mbd_Info
  imports Mbd_Sbd
begin

unbundle bit_operations_syntax

text \<open>
  The requests that only read (\<open>src/batch/mbd/dispatch.c\<close>): the jobs, the queues, the
  host groups, the hosts and the token pools. A reply is collected in an array that is
  allocated before; the model stops where the code would write past its end. Answers to
  these requests are not signed.
\<close>

section \<open>Jobs\<close>

definition LLB_JOB_DONE :: int where "LLB_JOB_DONE = 1"
definition LLB_JOB_PEND :: int where "LLB_JOB_PEND = 2"
definition LLB_JOB_RUN :: int where "LLB_JOB_RUN = 8"

record wire_job_query =
  wq_job_id :: int
  wq_array_id :: int
  wq_array_index :: int
  wq_flags :: int
  wq_uid :: int

text \<open>A running or suspended job of an execution daemon that is not attached is reported unknown.\<close>

definition wire_state :: "mbd \<Rightarrow> jptr \<Rightarrow> crash + job_state" where
  "wire_state s p =
     (let st = jd_state (job_heap s p) in
      if st = JOB_RUNNING \<or> st = JOB_SUSPENDED
      then bindE (run_host s p 0) (\<lambda>h. Inr (if mh_sbd_chan (host_heap s h) < 0 then JOB_UNKNOWN else st))
      else Inr st)"

definition run_host_entry :: "mbd \<Rightarrow> jptr \<Rightarrow> nat \<Rightarrow> string \<Rightarrow> crash + string" where
  "run_host_entry s p i buf =
     (let buf1 = (if 0 < i then fst (ll_strlcat buf '' '' 4096) else buf) in
      bindE (run_host s p i) (\<lambda>h.
        Inr (fst (ll_strlcat buf1
          (cfield 128 (fmt_ld (jr_num_cpus (jd_res (job_heap s p))) @ ''@'' @ mh_name (host_heap s h))) 4096))))"

definition job_data_to_wire :: "mbd \<Rightarrow> jptr \<Rightarrow> crash + wire_job_info" where
  "job_data_to_wire s p =
     (let j = job_heap s p in
      bindE (wire_state s p) (\<lambda>st.
      bindE (job_queue s p) (\<lambda>q.
      bindE (foldE (run_host_entry s p) [0..<nat (jd_run_nhosts j)] []) (\<lambda>hosts.
        Inr \<lparr>wi_job_id = jd_job_id j, wi_array_id = jd_array_id j, wi_array_index = jd_array_index j,
          wi_uid = jd_uid j, wi_pid = jd_pid j, wi_state = st, wi_exit_status = jd_exit_status j,
          wi_priority = jd_priority j, wi_pend_reason = jd_pend_reason j, wi_submit_time = jd_submit_time j,
          wi_dispatch_time = jd_dispatch_time j, wi_end_time = jd_end_time j, wi_susp_time = jd_susp_time j,
          wi_name = cfield 64 (jd_name j), wi_queue = cfield 64 (mq_name (queue_heap s q)),
          wi_submit_host = [], wi_run_hosts = hosts, wi_comment = []\<rparr>))))"

text \<open>One more element of the array of \<open>cap\<close> elements.\<close>

definition put_info :: "nat \<Rightarrow> mbd \<Rightarrow> jptr \<Rightarrow> wire_job_info list \<Rightarrow> crash + wire_job_info list" where
  "put_info cap s p dst =
     bindE (assertE Out_of_bounds (length dst < cap)) (\<lambda>_.
     bindE (job_data_to_wire s p) (\<lambda>w. Inr (dst @ [w])))"

definition collect_list :: "nat \<Rightarrow> mbd \<Rightarrow> int \<Rightarrow> bool \<Rightarrow> jptr list \<Rightarrow> wire_job_info list \<Rightarrow> crash + wire_job_info list" where
  "collect_list cap s uid all ps dst =
     foldE (\<lambda>p dst. if \<not> all \<and> jd_uid (job_heap s p) \<noteq> uid then Inr dst else put_info cap s p dst) ps dst"

definition collect_element :: "nat \<Rightarrow> mbd \<Rightarrow> int \<Rightarrow> bool \<Rightarrow> int \<Rightarrow> int \<times> wire_job_info list \<Rightarrow>
    crash + unit + int \<times> wire_job_info list" where
  "collect_element cap s uid all index r =
     (case r of (job_id, dst) \<Rightarrow>
      (case job_find s job_id of
         None \<Rightarrow> Inr (Inr (job_id + 1, dst))
       | Some p \<Rightarrow>
           if \<not> all \<and> jd_uid (job_heap s p) \<noteq> uid then Inr (Inr (job_id + 1, dst))
           else bindE (put_info cap s p dst) (\<lambda>dst'. Inr (Inr (job_id + 1, dst')))))"

definition maybe_collect_array :: "nat \<Rightarrow> mbd \<Rightarrow> int \<Rightarrow> int \<Rightarrow> bool \<Rightarrow> crash + wire_job_info list" where
  "maybe_collect_array cap s array_id uid all =
     (case job_find s array_id of
        None \<Rightarrow> Inr []
      | Some h \<Rightarrow>
        (let j = job_heap s h in
         if jd_array_id j \<noteq> jd_job_id j then Inr []
         else bindE (array_loop (collect_element cap s uid all)
                (jd_array_start j) (jd_array_end j) (jd_array_stride j) (jd_job_id j, []))
              (\<lambda>r. case r of Inl _ \<Rightarrow> Inr [] | Inr (job_id, dst) \<Rightarrow> Inr dst)))"

definition reply_jobs :: "env \<Rightarrow> int \<Rightarrow> wire_job_info list \<Rightarrow> mbd \<Rightarrow> crash + bool \<times> mbd" where
  "reply_jobs e chan js s = Inr (enqueue_payload e chan BATCH_JOB_INFO_ACK MBD_OK (Job_infos js) s)"

text \<open>A single job: looked up, checked against the requester, sent.\<close>

definition reply_job :: "env \<Rightarrow> int \<Rightarrow> wire_hdr \<Rightarrow> nat \<Rightarrow> jptr option \<Rightarrow> mbd \<Rightarrow> crash + bool \<times> mbd" where
  "reply_job e chan hdr cap found s =
     (case found of
        None \<Rightarrow> Inr (enqueue_header e chan BATCH_JOB_INFO_ACK ESRCH s)
      | Some p \<Rightarrow>
        if \<not> is_manager s (wh_uid hdr) \<and> jd_uid (job_heap s p) \<noteq> wh_uid hdr
        then Inr (enqueue_header e chan BATCH_JOB_INFO_ACK EPERM s)
        else bindE (put_info cap s p []) (\<lambda>js. reply_jobs e chan js s))"

definition total_jobs :: "mbd \<Rightarrow> nat" where
  "total_jobs s = length (job_lists s JOB_LIST_PEND) + length (job_lists s JOB_LIST_RUN) + length (job_lists s JOB_LIST_FINISH)"

definition jobs_info_ref :: "env \<Rightarrow> int \<Rightarrow> wire_hdr \<Rightarrow> wire_job_query \<Rightarrow> mbd \<Rightarrow> crash + bool \<times> mbd" where
  "jobs_info_ref e chan hdr req s =
     (let all = is_manager s (wh_uid hdr);
          ntotal = (if total_jobs s = 0 then 1 else total_jobs s) in
      if wq_array_id req \<noteq> 0
      then bindE (job_find_array s (wq_array_id req) (wq_array_index req)) (\<lambda>found. reply_job e chan hdr ntotal found s)
      else bindE (maybe_collect_array ntotal s (wq_job_id req) (wh_uid hdr) all) (\<lambda>js.
        if js = [] then reply_job e chan hdr ntotal (job_find s (wq_job_id req)) s
        else reply_jobs e chan js s))"

definition collect_if :: "bool \<Rightarrow> nat \<Rightarrow> mbd \<Rightarrow> int \<Rightarrow> bool \<Rightarrow> job_list_id \<Rightarrow> wire_job_info list \<Rightarrow> crash + wire_job_info list" where
  "collect_if b cap s uid all l dst = (if b then collect_list cap s uid all (job_lists s l) dst else Inr dst)"

definition jobs_info_list :: "env \<Rightarrow> int \<Rightarrow> wire_hdr \<Rightarrow> wire_job_query \<Rightarrow> mbd \<Rightarrow> crash + bool \<times> mbd" where
  "jobs_info_list e chan hdr req s =
     (let all = is_manager s (wh_uid hdr); uid = (if all then 0 else wh_uid hdr); n = total_jobs s; fl = wq_flags req in
      bindE
        (if n = 0 then Inr []
         else
           bindE (collect_if (fl = 0 \<or> fl AND LLB_JOB_PEND \<noteq> 0) n s uid all JOB_LIST_PEND []) (\<lambda>js.
           bindE (collect_if (fl = 0 \<or> fl AND LLB_JOB_RUN \<noteq> 0) n s uid all JOB_LIST_RUN js) (\<lambda>js.
           collect_if (fl \<noteq> 0 \<and> fl AND LLB_JOB_DONE \<noteq> 0) n s uid all JOB_LIST_FINISH js)))
        (\<lambda>js. reply_jobs e chan js s))"

definition jobs_info :: "env \<Rightarrow> wire_job_query option \<Rightarrow> int \<Rightarrow> wire_hdr \<Rightarrow> mbd \<Rightarrow> crash + bool \<times> mbd" where
  "jobs_info e dec chan hdr s =
     (case dec of
        None \<Rightarrow> Inr (False, s)
      | Some req \<Rightarrow>
        if wq_job_id req \<noteq> - 1 \<or> wq_array_id req \<noteq> 0 then jobs_info_ref e chan hdr req s
        else jobs_info_list e chan hdr req s)"

section \<open>Queues, groups, hosts, tokens\<close>

text \<open>
  The keys of a table, in the order of iteration, in an array of as many elements as
  the table counts: more entries would be written past its end, fewer would leave a
  null pointer for the \<open>strlen\<close> that follows.
\<close>

definition hash_keys_dup :: "'v ll_hash \<Rightarrow> crash + string list" where
  "hash_keys_dup h =
     (let n = ll_hash_count h; ks = map fst (all_entries h) in
      if n = 0 then Inr []
      else bindE (assertE Out_of_bounds (length ks \<le> n)) (\<lambda>_.
           bindE (assertE Null_deref (length ks = n)) (\<lambda>_. Inr ks)))"

definition queue_info :: "mbd_queue \<Rightarrow> crash + wire_queue_info" where
  "queue_info q =
     bindE (hash_keys_dup (mq_host_hash q)) (\<lambda>hs.
     bindE (hash_keys_dup (mq_user_hash q)) (\<lambda>us.
       Inr \<lparr>wu_name = cfield 64 (mq_name q), wu_description = cfield 256 (mq_description q), wu_hosts = hs, wu_users = us,
         wu_priority = mq_priority q, wu_max_jobs = mq_max_jobs q, wu_num_jobs = mq_num_jobs q,
         wu_num_pend = mq_num_pend q, wu_num_run = mq_num_run q, wu_num_susp = mq_num_susp q,
         wu_num_held = mq_num_held q, wu_num_cpus_used = mq_num_cpus_used q,
         wu_num_hosts_used = mq_num_hosts_used q, wu_status = mq_state q\<rparr>))"

definition queues_info :: "env \<Rightarrow> int \<Rightarrow> mbd \<Rightarrow> crash + bool \<times> mbd" where
  "queues_info e chan s =
     bindE (foldE (\<lambda>q ws. bindE (queue_info (queue_heap s q)) (\<lambda>w. Inr (ws @ [w]))) (queue_list s) []) (\<lambda>ws.
       Inr (enqueue_payload e chan BATCH_QUEUE_INFO_ACK MBD_OK (Queue_infos ws) s))"

definition group_info :: "mbd_group \<Rightarrow> wire_group_info" where
  "group_info g = \<lparr>wg_name = cfield 64 (mg_name g), wg_num_members = mg_num_members g, wg_members = cfield 1024 (mg_members g)\<rparr>"

definition host_group_info :: "env \<Rightarrow> int \<Rightarrow> mbd \<Rightarrow> bool \<times> mbd" where
  "host_group_info e chan s =
     enqueue_payload e chan BATCH_GROUP_INFO_ACK MBD_OK
       (Group_infos (map (\<lambda>g. group_info (group_heap s g)) (group_list s))) s"

definition host_info :: "mbd_host \<Rightarrow> wire_host_info" where
  "host_info h =
     \<lparr>wo_name = cfield 64 (mh_name h), wo_state = mh_state h, wo_total_cpu = mh_total_cpu h, wo_free_cpu = mh_free_cpu h,
       wo_total_gpu = int (length (gp_ids (mh_gpu h))), wo_free_gpu = gpu_ids_count_free (mh_gpu h),
       wo_total_mem_mb = mh_total_mem_mb h, wo_free_mem_mb = mh_free_mem_mb h,
       wo_total_storage_mb = mh_total_storage_mb h, wo_free_storage_mb = mh_free_storage_mb h,
       wo_num_jobs = mh_num_jobs h, wo_num_run = mh_num_run h, wo_num_susp = mh_num_susp h,
       wo_gpu_model = cfield 64 (gp_model (mh_gpu h)), wo_gpu_ids = cfield 64 (gp_gpu_ids (mh_gpu h))\<rparr>"

definition hosts_info :: "env \<Rightarrow> int \<Rightarrow> mbd \<Rightarrow> bool \<times> mbd" where
  "hosts_info e chan s =
     enqueue_payload e chan BATCH_HOST_INFO_ACK MBD_OK (Host_infos (map (\<lambda>h. host_info (host_heap s h)) (host_list s))) s"

definition token_info :: "mbd_token_pool \<Rightarrow> wire_token_info" where
  "token_info t = \<lparr>wk_name = cfield 64 (tp_name t), wk_total = tp_total t, wk_free = tp_free t\<rparr>"

text \<open>The result of queueing the reply is not looked at.\<close>

definition tokens_info :: "env \<Rightarrow> int \<Rightarrow> mbd \<Rightarrow> bool \<times> mbd" where
  "tokens_info e chan s =
     (True, snd (enqueue_payload e chan BATCH_TOKEN_INFO_ACK MBD_OK
        (Token_infos (map (\<lambda>t. token_info (pool_heap s t)) (token_pool_list s))) s))"

section \<open>What a reply shows\<close>

definition info_of :: "mbd \<Rightarrow> jptr \<Rightarrow> wire_job_info \<Rightarrow> bool" where
  "info_of s p w \<longleftrightarrow> wi_job_id w = jd_job_id (job_heap s p) \<and> wi_uid w = jd_uid (job_heap s p) \<and>
     (wi_state w = jd_state (job_heap s p) \<or>
      wi_state w = JOB_UNKNOWN \<and> p \<in> set (job_lists s JOB_LIST_RUN) \<and>
      (\<exists>h. run_host s p 0 = Inr h \<and> mh_sbd_chan (host_heap s h) < 0))"

lemma job_data_to_wire_ok:
  assumes inv: "mbd_inv s" and p: "p \<in> set (all_jobs s)"
  shows "\<exists>w. job_data_to_wire s p = Inr w \<and> info_of s p w"
proof -
  let ?j = "job_heap s p"
  have ok: "job_ok (queue_list s) (host_list s) ?j" by (rule inv_parts(5) [OF inv inv_parts(6) [OF inv p]])
  obtain q where q: "jd_queue ?j = Some q" using job_ok_queue [OF ok] by blast
  obtain hs where hs: "run_hosts_are ?j hs" using ok by (auto simp: job_ok_def)
  have n: "nat (jd_run_nhosts ?j) = length hs" using hs by (simp add: run_hosts_are_def)
  obtain b where b: "foldE (run_host_entry s p) [0..<length hs] [] = Inr b"
    using foldE_ex [of "[0..<length hs]" "run_host_entry s p" "[]"] run_host_nth [OF hs]
    by (auto simp: run_host_entry_def)
  have "\<exists>st. wire_state s p = Inr st \<and> (st = jd_state ?j \<or> st = JOB_UNKNOWN \<and> p \<in> set (job_lists s JOB_LIST_RUN) \<and>
      (\<exists>h. run_host s p 0 = Inr h \<and> mh_sbd_chan (host_heap s h) < 0))"
  proof (cases "p \<in> set (job_lists s JOB_LIST_RUN)")
    case True
    obtain h hs' where "run_host s p 0 = Inr h" by (rule run_first [OF inv True])
    then show ?thesis using True by (auto simp: wire_state_def Let_def)
  next
    case False
    then show ?thesis using state_list(2) [OF inv p] by (auto simp: wire_state_def Let_def)
  qed
  then obtain st where "wire_state s p = Inr st" "st = jd_state ?j \<or> st = JOB_UNKNOWN \<and> p \<in> set (job_lists s JOB_LIST_RUN) \<and>
      (\<exists>h. run_host s p 0 = Inr h \<and> mh_sbd_chan (host_heap s h) < 0)" by blast
  then show ?thesis using b q n by (simp add: job_data_to_wire_def Let_def job_queue_def info_of_def)
qed

lemma put_info_ok:
  assumes "mbd_inv s" and "p \<in> set (all_jobs s)" and "length dst < cap"
  shows "\<exists>w. put_info cap s p dst = Inr (dst @ [w]) \<and> info_of s p w"
  using job_data_to_wire_ok [OF assms(1,2)] assms(3) by (auto simp: put_info_def res_simps)

definition visible :: "int \<Rightarrow> bool \<Rightarrow> mbd \<Rightarrow> jptr \<Rightarrow> bool" where
  "visible uid all s = (\<lambda>p. all \<or> jd_uid (job_heap s p) = uid)"

lemma collect_list_ok:
  assumes inv: "mbd_inv s" and "set ps \<subseteq> set (all_jobs s)" and "length dst + length ps \<le> cap"
  shows "\<exists>ws. collect_list cap s uid all ps dst = Inr (dst @ ws) \<and>
    list_all2 (info_of s) (filter (visible uid all s) ps) ws \<and> length ws \<le> length ps"
  using assms(2,3)
proof (induction ps arbitrary: dst)
  case Nil
  then show ?case by (simp add: collect_list_def)
next
  case (Cons p ps)
  show ?case
  proof (cases "visible uid all s p")
    case False
    then show ?thesis using Cons.IH [of dst] Cons.prems by (auto simp: collect_list_def visible_def)
  next
    case True
    obtain w where w: "put_info cap s p dst = Inr (dst @ [w])" "info_of s p w"
      using put_info_ok [OF inv, of p dst cap] Cons.prems by auto
    obtain ws where "collect_list cap s uid all ps (dst @ [w]) = Inr ((dst @ [w]) @ ws)"
      "list_all2 (info_of s) (filter (visible uid all s) ps) ws" "length ws \<le> length ps"
      using Cons.IH [of "dst @ [w]"] Cons.prems by auto
    then show ?thesis using w True True [unfolded visible_def]
      by (intro exI [of _ "w # ws"]) (auto simp: collect_list_def)
  qed
qed

lemma total_jobs_all: "total_jobs s = length (all_jobs s)"
  by (simp add: total_jobs_def all_jobs_def)

text \<open>The elements of an array that were collected before the number \<open>i\<close>.\<close>

definition collected :: "mbd \<Rightarrow> int \<Rightarrow> bool \<Rightarrow> int \<times> wire_job_info list \<Rightarrow> bool" where
  "collected s uid all r \<longleftrightarrow> (\<exists>ps. distinct ps \<and> list_all2 (info_of s) ps (snd r) \<and>
     (\<forall>p \<in> set ps. p \<in> set (all_jobs s) \<and> visible uid all s p \<and> jd_job_id (job_heap s p) < fst r))"

lemma collect_element_ok:
  assumes inv: "mbd_inv s" and cap: "length (all_jobs s) \<le> cap" and c: "collected s uid all r"
  shows "\<exists>r'. collect_element cap s uid all i r = Inr (Inr r') \<and> collected s uid all r'"
proof -
  obtain job_id dst where r: "r = (job_id, dst)" by (cases r)
  obtain ps where ps: "distinct ps" "list_all2 (info_of s) ps dst"
    "\<And>p. p \<in> set ps \<Longrightarrow> p \<in> set (all_jobs s) \<and> visible uid all s p \<and> jd_job_id (job_heap s p) < job_id"
    using c by (auto simp: collected_def r)
  have skip: "collected s uid all (job_id + 1, dst)" using ps by (force simp: collected_def)
  show ?thesis
  proof (cases "\<exists>p. job_find s job_id = Some p \<and> visible uid all s p")
    case False
    then show ?thesis using skip by (auto simp: collect_element_def r visible_def split: option.splits)
  next
    case True
    then obtain p where p: "job_find s job_id = Some p" "visible uid all s p" by blast
    have pa: "p \<in> set (all_jobs s)" "jd_job_id (job_heap s p) = job_id" "p \<notin> set ps"
      using inv_find(1,2) [OF inv p(1)] ps(3) by auto
    have "distinct (p # ps)" "set (p # ps) \<subseteq> set (all_jobs s)" using pa ps(1,3) by auto
    then have "length (p # ps) \<le> length (all_jobs s)"
      using distinct_card [of "p # ps"] card_mono [of "set (all_jobs s)" "set (p # ps)"] card_length [of "all_jobs s"] by simp
    then have "length dst < cap" using cap list_all2_lengthD [OF ps(2)] by simp
    then obtain w where w: "put_info cap s p dst = Inr (dst @ [w])" "info_of s p w"
      using put_info_ok [OF inv pa(1)] by blast
    have "collected s uid all (job_id + 1, dst @ [w])"
      unfolding collected_def
    proof (intro exI [of _ "ps @ [p]"] conjI ballI)
      show "list_all2 (info_of s) (ps @ [p]) (snd (job_id + 1, dst @ [w]))" using ps(2) w(2) by (simp add: list_all2_appendI)
    qed (use ps(1,3) pa p(2) in force)+
    then show ?thesis using p w by (auto simp: collect_element_def r visible_def)
  qed
qed

lemma maybe_collect_array_ok:
  assumes inv: "mbd_inv s" and arr: "arrays_ok s" and cap: "length (all_jobs s) \<le> cap"
  shows "\<exists>js. maybe_collect_array cap s a uid all = Inr js \<and>
    (\<exists>ps. distinct ps \<and> list_all2 (info_of s) ps js \<and> (\<forall>p \<in> set ps. p \<in> set (all_jobs s) \<and> visible uid all s p))"
proof (cases "\<exists>h. job_find s a = Some h \<and> jd_array_id (job_heap s h) = jd_job_id (job_heap s h)")
  case False
  then have "maybe_collect_array cap s a uid all = Inr []"
    by (auto simp: maybe_collect_array_def Let_def split: option.splits)
  then show ?thesis by (auto intro: exI [of _ "[]"])
next
  case True
  then obtain h where h: "job_find s a = Some h" "jd_array_id (job_heap s h) = jd_job_id (job_heap s h)" by blast
  let ?j = "job_heap s h" and ?f = "collect_element cap s uid all"
  have hk: "0 < jd_array_stride ?j" "in_s32 (jd_array_end ?j + jd_array_stride ?j)" "- 2147483648 \<le> jd_array_start ?j"
    using arr inv_find(1) [OF inv h(1)] h(2) by (auto simp: arrays_ok_def head_ok_def)
  have c0: "collected s uid all (jd_job_id ?j, [])" by (auto simp: collected_def intro: exI [of _ "[]"])
  note el = collect_element_ok [OF inv cap, of uid all]
  obtain r where r: "array_loop ?f (jd_array_start ?j) (jd_array_end ?j) (jd_array_stride ?j) (jd_job_id ?j, []) = Inr r"
    using array_loop_total [where P = "\<lambda>_. collected s uid all" and f = ?f, OF c0 hk] el by fastforce
  have "case r of Inl b \<Rightarrow> False | Inr r' \<Rightarrow> \<exists>k > jd_array_end ?j. collected s uid all r'"
  proof (rule array_loop_inv [OF r, where P = "\<lambda>_. collected s uid all"])
    fix i x x' b assume x: "collected s uid all x"
    show "collected s uid all x'" if "?f i x = Inr (Inr x')" using el [OF x, of i] that by auto
    show False if "?f i x = Inr (Inl b)" using el [OF x, of i] that by auto
  qed (rule c0)
  then obtain r' where "r = Inr r'" "collected s uid all r'" by (cases r) auto
  then show ?thesis using h r by (cases r') (fastforce simp: maybe_collect_array_def collected_def)
qed

section \<open>The handlers\<close>

text \<open>What was sent between two states, when nothing else changed.\<close>

definition sent :: "mbd \<Rightarrow> mbd \<Rightarrow> message list \<Rightarrow> bool" where
  "sent s t ms \<longleftrightarrow> t = s\<lparr>outq := outq s @ ms\<rparr>"

lemma sent_nothing [simp]: "sent s s []"
  by (simp add: sent_def)

lemma sent_outq: "sent s (s\<lparr>outq := outq s @ ms\<rparr>) ms"
  by (simp add: sent_def)

lemma enqueue_payload_eq:
  "enqueue_payload e c op st body s = (if e_send_ok e c op
     then (True, s\<lparr>outq := outq s @ [\<lparr>msg_chan = c, msg_op = op, msg_status = st, msg_body = body\<rparr>]\<rparr>) else (False, s))"
  by (simp add: enqueue_payload_def)

lemma enqueue_sent:
  obtains b t ms where "enqueue_payload e c op st body s = (b, t)" and "sent s t ms"
    and "ms = [] \<or> ms = [\<lparr>msg_chan = c, msg_op = op, msg_status = st, msg_body = body\<rparr>]"
    and "b \<longrightarrow> ms = [\<lparr>msg_chan = c, msg_op = op, msg_status = st, msg_body = body\<rparr>]"
proof (cases "e_send_ok e c op")
  case True
  show ?thesis
    by (rule that [of True, OF _ sent_outq [of s "[\<lparr>msg_chan = c, msg_op = op, msg_status = st, msg_body = body\<rparr>]"]])
      (simp_all add: enqueue_payload_eq True)
next
  case False
  show ?thesis by (rule that [of False, OF _ sent_nothing]) (simp_all add: enqueue_payload_eq False)
qed

lemma sent_inv: "mbd_inv s \<Longrightarrow> sent s t ms \<Longrightarrow> mbd_inv t"
  by (simp add: sent_def)

lemma sent_keeps: "sent s t ms \<Longrightarrow> keeps s t"
  by (simp add: sent_def keeps_def array_same_def all_jobs_def)

definition discloses :: "mbd \<Rightarrow> int \<Rightarrow> message list \<Rightarrow> bool" where
  "discloses s uid ms \<longleftrightarrow> (\<forall>m \<in> set ms. \<forall>js. msg_body m = Job_infos js \<longrightarrow>
     (\<forall>w \<in> set js. \<exists>p \<in> set (all_jobs s). info_of s p w \<and> (is_manager s uid \<or> jd_uid (job_heap s p) = uid)))"

lemma reply_jobs_ok:
  assumes "list_all2 (info_of s) ps js" and "\<forall>p \<in> set ps. p \<in> set (all_jobs s) \<and> (is_manager s uid \<or> jd_uid (job_heap s p) = uid)"
  shows "\<exists>b t ms. reply_jobs e c js s = Inr (b, t) \<and> sent s t ms \<and> discloses s uid ms \<and>
    (b \<longrightarrow> ms = [\<lparr>msg_chan = c, msg_op = BATCH_JOB_INFO_ACK, msg_status = MBD_OK, msg_body = Job_infos js\<rparr>])"
proof -
  have "\<exists>p \<in> set (all_jobs s). info_of s p w \<and> (is_manager s uid \<or> jd_uid (job_heap s p) = uid)" if "w \<in> set js" for w
  proof -
    obtain i where i: "i < length js" "w = js ! i" using \<open>w \<in> set js\<close> by (auto simp: in_set_conv_nth)
    then have "info_of s (ps ! i) w" "ps ! i \<in> set ps" using assms(1) by (auto simp: list_all2_conv_all_nth)
    then show ?thesis using assms(2) by blast
  qed
  then have d: "discloses s uid [\<lparr>msg_chan = c, msg_op = BATCH_JOB_INFO_ACK, msg_status = MBD_OK, msg_body = Job_infos js\<rparr>]"
    by (simp add: discloses_def)
  have n: "discloses s uid []" by (simp add: discloses_def)
  obtain b t ms where "enqueue_payload e c BATCH_JOB_INFO_ACK MBD_OK (Job_infos js) s = (b, t)" "sent s t ms"
    "ms = [] \<or> ms = [\<lparr>msg_chan = c, msg_op = BATCH_JOB_INFO_ACK, msg_status = MBD_OK, msg_body = Job_infos js\<rparr>]"
    "b \<longrightarrow> ms = [\<lparr>msg_chan = c, msg_op = BATCH_JOB_INFO_ACK, msg_status = MBD_OK, msg_body = Job_infos js\<rparr>]"
    by (rule enqueue_sent)
  then show ?thesis using d n unfolding reply_jobs_def by metis
qed

lemma enqueue_header_sent:
  "\<exists>b t ms. enqueue_header e c op st s = (b, t) \<and> sent s t ms \<and> discloses s uid ms"
proof -
  obtain b t ms where "enqueue_payload e c op st No_body s = (b, t)" "sent s t ms"
    "ms = [] \<or> ms = [\<lparr>msg_chan = c, msg_op = op, msg_status = st, msg_body = No_body\<rparr>]" by (rule enqueue_sent)
  then show ?thesis by (auto simp: enqueue_header_def discloses_def)
qed

lemma reply_job_ok:
  assumes "mbd_inv s" and "\<And>p. found = Some p \<Longrightarrow> p \<in> set (all_jobs s)" and "0 < cap"
  shows "\<exists>b t ms. reply_job e c hdr cap found s = Inr (b, t) \<and> sent s t ms \<and> discloses s (wh_uid hdr) ms"
proof (cases "\<exists>p. found = Some p \<and> (is_manager s (wh_uid hdr) \<or> jd_uid (job_heap s p) = wh_uid hdr)")
  case False
  then have "reply_job e c hdr cap found s = Inr (enqueue_header e c BATCH_JOB_INFO_ACK ESRCH s) \<or>
    reply_job e c hdr cap found s = Inr (enqueue_header e c BATCH_JOB_INFO_ACK EPERM s)"
    by (cases found) (simp_all add: reply_job_def)
  then show ?thesis
    using enqueue_header_sent [of e c BATCH_JOB_INFO_ACK ESRCH s "wh_uid hdr"]
      enqueue_header_sent [of e c BATCH_JOB_INFO_ACK EPERM s "wh_uid hdr"] by (elim disjE) fastforce+
next
  case True
  then obtain p where p: "found = Some p" "is_manager s (wh_uid hdr) \<or> jd_uid (job_heap s p) = wh_uid hdr" by blast
  obtain w where w: "put_info cap s p [] = Inr [w]" "info_of s p w"
    using put_info_ok [OF assms(1) assms(2) [OF p(1)], of "[]" cap] assms(3) by auto
  obtain b t ms where "reply_jobs e c [w] s = Inr (b, t)" "sent s t ms" "discloses s (wh_uid hdr) ms"
    using reply_jobs_ok [of s "[p]" "[w]" "wh_uid hdr" e c] w(2) p(2) assms(2) [OF p(1)] by auto
  then show ?thesis using p w by (auto simp: reply_job_def)
qed

lemma jobs_info_ref_ok:
  assumes inv: "mbd_inv s" and arr: "arrays_ok s"
  shows "\<exists>b t ms. jobs_info_ref e c hdr req s = Inr (b, t) \<and> sent s t ms \<and> discloses s (wh_uid hdr) ms"
proof -
  let ?n = "if total_jobs s = 0 then 1 else total_jobs s" and ?u = "wh_uid hdr"
  have n: "0 < ?n" "length (all_jobs s) \<le> ?n" by (simp_all add: total_jobs_all)
  show ?thesis
  proof (cases "wq_array_id req \<noteq> 0")
    case True
    obtain r where "job_find_array s (wq_array_id req) (wq_array_index req) = Inr r"
      "\<And>p. r = Some p \<Longrightarrow> p \<in> set (all_jobs s)" using job_find_array_total [OF inv arr] by blast
    then show ?thesis using True reply_job_ok [OF inv _ n(1)] by (simp add: jobs_info_ref_def Let_def)
  next
    case False
    obtain js ps where js: "maybe_collect_array ?n s (wq_job_id req) ?u (is_manager s ?u) = Inr js"
      "list_all2 (info_of s) ps js" "\<forall>p \<in> set ps. p \<in> set (all_jobs s) \<and> visible ?u (is_manager s ?u) s p"
      using maybe_collect_array_ok [OF inv arr n(2)] by blast
    show ?thesis
    proof (cases "js = []")
      case True
      have "\<And>p. job_find s (wq_job_id req) = Some p \<Longrightarrow> p \<in> set (all_jobs s)" by (rule inv_find(1) [OF inv])
      then show ?thesis using True False js(1) reply_job_ok [OF inv _ n(1)] by (simp add: jobs_info_ref_def Let_def)
    next
      case ne: False
      obtain b t ms where "reply_jobs e c js s = Inr (b, t)" "sent s t ms" "discloses s ?u ms"
        using reply_jobs_ok [OF js(2), of ?u e c] js(3) by (auto simp: visible_def)
      then show ?thesis using ne False js(1) by (auto simp: jobs_info_ref_def Let_def)
    qed
  qed
qed

text \<open>The lists a listing walks through.\<close>

definition listed :: "int \<Rightarrow> mbd \<Rightarrow> jptr list" where
  "listed fl s = (if fl = 0 \<or> fl AND LLB_JOB_PEND \<noteq> 0 then job_lists s JOB_LIST_PEND else []) @
     (if fl = 0 \<or> fl AND LLB_JOB_RUN \<noteq> 0 then job_lists s JOB_LIST_RUN else []) @
     (if fl \<noteq> 0 \<and> fl AND LLB_JOB_DONE \<noteq> 0 then job_lists s JOB_LIST_FINISH else [])"

lemma collect_if_list: "collect_if b cap s uid all l dst = collect_list cap s uid all (if b then job_lists s l else []) dst"
  by (simp add: collect_if_def collect_list_def)

lemma collect_list_append:
  "bindE (collect_list cap s uid all ps dst) (\<lambda>d. collect_list cap s uid all qs d) = collect_list cap s uid all (ps @ qs) dst"
  by (simp add: collect_list_def foldE_append)

lemma jobs_info_list_ok:
  assumes inv: "mbd_inv s"
  shows "\<exists>b t ms js. jobs_info_list e c hdr req s = Inr (b, t) \<and> sent s t ms \<and> discloses s (wh_uid hdr) ms \<and>
    list_all2 (info_of s) (filter (visible (wh_uid hdr) (is_manager s (wh_uid hdr)) s) (listed (wq_flags req) s)) js \<and>
    (b \<longrightarrow> ms = [\<lparr>msg_chan = c, msg_op = BATCH_JOB_INFO_ACK, msg_status = MBD_OK, msg_body = Job_infos js\<rparr>])"
proof -
  let ?u = "wh_uid hdr" let ?all = "is_manager s ?u" let ?uid = "if ?all then 0 else ?u" and ?fl = "wq_flags req"
  have v: "visible ?uid ?all s = visible ?u ?all s" by (auto simp: visible_def fun_eq_iff)
  have sub: "set (listed ?fl s) \<subseteq> set (all_jobs s)" by (auto simp: listed_def all_jobs_def)
  have len: "length (listed ?fl s) \<le> total_jobs s" by (simp add: listed_def total_jobs_def)
  obtain js where js: "collect_list (total_jobs s) s ?uid ?all (listed ?fl s) [] = Inr js"
    "list_all2 (info_of s) (filter (visible ?u ?all s) (listed ?fl s)) js"
    using collect_list_ok [OF inv sub, of "[]" "total_jobs s" ?uid ?all] len by (auto simp: v)
  have "jobs_info_list e c hdr req s = reply_jobs e c js s"
  proof (cases "total_jobs s = 0")
    case True
    then have "listed ?fl s = []" using len by simp
    then show ?thesis using True js by (simp add: jobs_info_list_def Let_def)
  next
    case False
    have "bindE (collect_if (?fl = 0 \<or> ?fl AND LLB_JOB_PEND \<noteq> 0) (total_jobs s) s ?uid ?all JOB_LIST_PEND []) (\<lambda>js.
        bindE (collect_if (?fl = 0 \<or> ?fl AND LLB_JOB_RUN \<noteq> 0) (total_jobs s) s ?uid ?all JOB_LIST_RUN js) (\<lambda>js.
        collect_if (?fl \<noteq> 0 \<and> ?fl AND LLB_JOB_DONE \<noteq> 0) (total_jobs s) s ?uid ?all JOB_LIST_FINISH js)) = Inr js"
      unfolding collect_if_list collect_list_append using js(1) by (simp only: listed_def)
    then show ?thesis using False by (simp add: jobs_info_list_def Let_def)
  qed
  then show ?thesis
    using reply_jobs_ok [OF js(2), of ?u e c] js(2) sub by (auto simp: visible_def)
qed

lemma jobs_info_ok:
  assumes inv: "mbd_inv s" and arr: "arrays_ok s"
  shows "\<exists>b t ms. jobs_info e dec c hdr s = Inr (b, t) \<and> sent s t ms \<and> discloses s (wh_uid hdr) ms"
  using jobs_info_ref_ok [OF assms] jobs_info_list_ok [OF inv]
  by (cases dec) (auto simp: jobs_info_def discloses_def intro: exI [of _ "[]"], fast+)

lemma hash_keys_dup_ok: "ll_hash_wf h \<Longrightarrow> \<exists>ks. hash_keys_dup h = Inr ks \<and> set ks = dom (ll_hash_abs h) \<and> distinct ks"
proof -
  assume wf: "ll_hash_wf h"
  let ?es = "concat (buckets h)"
  have d: "distinct (map fst ?es)" by (rule ll_hash_entries_spec(1) [OF wf])
  have s: "set (map fst ?es) = dom (ll_hash_abs h)"
    using ll_hash_entries_spec(2) [OF wf] by (simp only: set_map dom_map_of_conv_image_fst [symmetric] dom_def)
  have n: "length (map fst ?es) = ll_hash_count h" using distinct_card [OF d] unfolding s ht.count_abs [OF wf] by simp
  show ?thesis
  proof (cases "ll_hash_count h = 0")
    case True
    then have "dom (ll_hash_abs h) = {}" using n s by (metis length_0_conv list.set(1))
    then show ?thesis using True by (simp add: hash_keys_dup_def Let_def)
  next
    case False
    then show ?thesis using d s n by (simp add: hash_keys_dup_def Let_def all_entries_concat [OF wf] res_simps)
  qed
qed

lemma queues_info_ok:
  assumes "\<forall>q \<in> set (queue_list s). ll_hash_wf (mq_host_hash (queue_heap s q)) \<and> ll_hash_wf (mq_user_hash (queue_heap s q))"
  shows "\<exists>b t ms. queues_info e c s = Inr (b, t) \<and> sent s t ms"
proof -
  have "\<exists>w. queue_info (queue_heap s q) = Inr w" if "q \<in> set (queue_list s)" for q
    using assms that hash_keys_dup_ok [of "mq_host_hash (queue_heap s q)"] hash_keys_dup_ok [of "mq_user_hash (queue_heap s q)"]
    by (auto simp: queue_info_def)
  then obtain ws where "foldE (\<lambda>q ws. bindE (queue_info (queue_heap s q)) (\<lambda>w. Inr (ws @ [w]))) (queue_list s) [] = Inr ws"
    using foldE_ex [of "queue_list s" "\<lambda>q ws. bindE (queue_info (queue_heap s q)) (\<lambda>w. Inr (ws @ [w]))" "[]"] by fastforce
  moreover obtain b t ms where "enqueue_payload e c BATCH_QUEUE_INFO_ACK MBD_OK (Queue_infos ws) s = (b, t)" "sent s t ms"
    by (rule enqueue_sent)
  ultimately show ?thesis by (auto simp: queues_info_def)
qed

lemma other_infos_sent:
  "\<exists>ms. sent s (snd (host_group_info e c s)) ms" "\<exists>ms. sent s (snd (hosts_info e c s)) ms"
  "\<exists>ms. sent s (snd (tokens_info e c s)) ms"
proof -
  have "\<exists>ms. sent s (snd (enqueue_payload e c op st body s)) ms" for op st body
    by (rule enqueue_sent [of e c op st body s]) auto
  then show "\<exists>ms. sent s (snd (host_group_info e c s)) ms" "\<exists>ms. sent s (snd (hosts_info e c s)) ms"
    "\<exists>ms. sent s (snd (tokens_info e c s)) ms"
    by (simp_all add: host_group_info_def hosts_info_def tokens_info_def)
qed

section \<open>Property\<close>

text \<open>
  C16. A request for jobs only reads and respects ownership: it always returns, at most
  queues an answer, never writes past the array it allocated, and every job in the answer
  is a registered job that belongs to the requester, unless the requester is a manager.
  It is shown with its number and its state, or as unknown when its first host is not
  connected. A listing shows exactly the visible jobs of the lists it asks for, in order.
\<close>

theorem jobs_info_private:
  assumes "mbd_inv s" and "arrays_ok s"
  shows "(\<exists>b t ms. jobs_info e dec c hdr s = Inr (b, t) \<and> sent s t ms \<and> discloses s (wh_uid hdr) ms) \<and>
    (\<forall>fl. dec = Some \<lparr>wq_job_id = - 1, wq_array_id = 0, wq_array_index = i, wq_flags = fl, wq_uid = u\<rparr> \<and>
        e_send_ok e c BATCH_JOB_INFO_ACK \<longrightarrow>
      (\<exists>js. jobs_info e dec c hdr s = Inr (True, s\<lparr>outq := outq s @ [\<lparr>msg_chan = c, msg_op = BATCH_JOB_INFO_ACK,
          msg_status = MBD_OK, msg_body = Job_infos js\<rparr>]\<rparr>) \<and>
        list_all2 (info_of s) (filter (\<lambda>p. is_manager s (wh_uid hdr) \<or> jd_uid (job_heap s p) = wh_uid hdr) (listed fl s)) js))"
proof (intro conjI allI impI)
  show "\<exists>b t ms. jobs_info e dec c hdr s = Inr (b, t) \<and> sent s t ms \<and> discloses s (wh_uid hdr) ms"
    by (rule jobs_info_ok [OF assms])
  fix fl
  let ?q = "\<lparr>wq_job_id = - 1, wq_array_id = 0, wq_array_index = i, wq_flags = fl, wq_uid = u\<rparr>"
  assume a: "dec = Some ?q \<and> e_send_ok e c BATCH_JOB_INFO_ACK"
  obtain b t ms js where js: "jobs_info_list e c hdr ?q s = Inr (b, t)" "sent s t ms"
    "list_all2 (info_of s) (filter (visible (wh_uid hdr) (is_manager s (wh_uid hdr)) s) (listed fl s)) js"
    "b \<longrightarrow> ms = [\<lparr>msg_chan = c, msg_op = BATCH_JOB_INFO_ACK, msg_status = MBD_OK, msg_body = Job_infos js\<rparr>]"
    using jobs_info_list_ok [OF assms(1), of e c hdr ?q] by auto
  have b: b using js(1) a by (auto simp: jobs_info_list_def Let_def bindE_Inr_iff reply_jobs_def enqueue_payload_eq)
  then have "jobs_info e dec c hdr s = Inr (True, s\<lparr>outq := outq s @ [\<lparr>msg_chan = c, msg_op = BATCH_JOB_INFO_ACK,
          msg_status = MBD_OK, msg_body = Job_infos js\<rparr>]\<rparr>)"
    using js(1,2,4) a by (simp add: jobs_info_def sent_def)
  then show "\<exists>js. jobs_info e dec c hdr s = Inr (True, s\<lparr>outq := outq s @ [\<lparr>msg_chan = c, msg_op = BATCH_JOB_INFO_ACK,
          msg_status = MBD_OK, msg_body = Job_infos js\<rparr>]\<rparr>) \<and>
        list_all2 (info_of s) (filter (\<lambda>p. is_manager s (wh_uid hdr) \<or> jd_uid (job_heap s p) = wh_uid hdr) (listed fl s)) js"
    using js(3) unfolding visible_def by blast
qed

theorem jobs_info_private_witness:
  "\<exists>t w1 w2. jobs_info ex_env (Some \<lparr>wq_job_id = - 1, wq_array_id = 0, wq_array_index = 0, wq_flags = 0, wq_uid = 0\<rparr>) 5
      ex_hdr ex_mbd = Inr (True, t) \<and>
     outq t = [\<lparr>msg_chan = 5, msg_op = BATCH_JOB_INFO_ACK, msg_status = MBD_OK, msg_body = Job_infos [w1, w2]\<rparr>] \<and>
     wi_job_id w1 = 1 \<and> wi_job_id w2 = 2"
proof -
  let ?q = "\<lparr>wq_job_id = - 1, wq_array_id = 0, wq_array_index = 0, wq_flags = 0, wq_uid = 0\<rparr>"
  have s: "e_send_ok ex_env 5 BATCH_JOB_INFO_ACK" by (simp add: ex_env_def)
  have l: "filter (\<lambda>p. is_manager ex_mbd (wh_uid ex_hdr) \<or> jd_uid (job_heap ex_mbd p) = wh_uid ex_hdr) (listed 0 ex_mbd) = [0, 1]"
    by (simp add: listed_def ex_defs ex_hdr_def)
  obtain js where "jobs_info ex_env (Some ?q) 5 ex_hdr ex_mbd = Inr (True, ex_mbd\<lparr>outq := outq ex_mbd @
      [\<lparr>msg_chan = 5, msg_op = BATCH_JOB_INFO_ACK, msg_status = MBD_OK, msg_body = Job_infos js\<rparr>]\<rparr>)"
    "list_all2 (info_of ex_mbd) [0, 1] js"
    using jobs_info_private [OF ex_mbd_inv ex_arrays_ok, of ex_env "Some ?q" 5 ex_hdr 0 0, THEN conjunct2, rule_format, of 0] s l by auto
  then show ?thesis by (auto simp: list_all2_Cons1 info_of_def ex_defs)
qed

end
