(* ===== verification/Mbd_Admin.thy ===== *)
theory Mbd_Admin
  imports Mbd_Info
begin

unbundle bit_operations_syntax

text \<open>
  Opening and closing queues and hosts (\<open>queue_admin\<close> and \<open>host_admin\<close> of
  \<open>src/batch/mbd/dispatch.c\<close>) and the state files that make it survive a restart
  (\<open>src/batch/mbd/admin.c\<close>). The fields \<open>closed_queues\<close> and \<open>closed_hosts\<close> are the names
  in the two state directories, in the order a directory listing returns them.
\<close>

record wire_queue_admin =
  wqa_name :: string
  wqa_op :: int

record wire_host_admin =
  wha_name :: string
  wha_op :: int

section \<open>State files\<close>

text \<open>Creating a file that exists leaves it, and removing one that does not is no error.\<close>

definition file_create :: "env \<Rightarrow> string \<Rightarrow> string list \<Rightarrow> string list" where
  "file_create e name fs = (if \<not> e_state_ok e name \<or> name \<in> set fs then fs else fs @ [name])"

definition file_unlink :: "env \<Rightarrow> string \<Rightarrow> string list \<Rightarrow> string list" where
  "file_unlink e name fs = (if \<not> e_state_ok e name then fs else filter (\<lambda>n. n \<noteq> name) fs)"

definition queue_state_write :: "env \<Rightarrow> qptr \<Rightarrow> mbd \<Rightarrow> mbd" where
  "queue_state_write e q s =
     (let x = queue_heap s q in
      s\<lparr>closed_queues := (if mq_state x = QUEUE_CLOSED then file_create e (mq_name x) (closed_queues s)
        else file_unlink e (mq_name x) (closed_queues s))\<rparr>)"

definition host_state_write :: "env \<Rightarrow> hptr \<Rightarrow> mbd \<Rightarrow> mbd" where
  "host_state_write e h s =
     (let x = host_heap s h in
      s\<lparr>closed_hosts := (if has_flag (mh_state x) HOST_CLOSED then file_create e (mh_name x) (closed_hosts s)
        else file_unlink e (mh_name x) (closed_hosts s))\<rparr>)"

definition hidden_name :: "string \<Rightarrow> bool" where
  "hidden_name n \<longleftrightarrow> (case n of [] \<Rightarrow> False | c # _ \<Rightarrow> c = CHR ''.'')"

definition queue_state_entry :: "env \<Rightarrow> string \<Rightarrow> mbd \<Rightarrow> mbd" where
  "queue_state_entry e name s =
     (if hidden_name name then s
      else (case ll_hash_search (queue_name_hash s) name of
              None \<Rightarrow> s\<lparr>closed_queues := file_unlink e name (closed_queues s)\<rparr>
            | Some q \<Rightarrow> upd_queue q (\<lambda>x. x\<lparr>mq_state := QUEUE_CLOSED\<rparr>) s))"

text \<open>\<open>dir_ok\<close> says whether the directory can be made and opened.\<close>

definition queue_state_init :: "env \<Rightarrow> bool \<Rightarrow> mbd \<Rightarrow> bool \<times> mbd" where
  "queue_state_init e dir_ok s =
     (if \<not> dir_ok then (False, s) else (True, fold (queue_state_entry e) (closed_queues s) s))"

text \<open>
  For a host that is not configured any more the code removes the file of that name one
  directory above the state files, so the stale file stays.
\<close>

definition host_state_entry :: "string \<Rightarrow> mbd \<Rightarrow> mbd" where
  "host_state_entry name s =
     (if hidden_name name then s
      else (case ll_hash_search (host_name_hash s) name of
              None \<Rightarrow> s
            | Some h \<Rightarrow> upd_host h (\<lambda>x. x\<lparr>mh_state := mh_state x OR HOST_CLOSED\<rparr>) s))"

definition host_state_init :: "bool \<Rightarrow> mbd \<Rightarrow> bool \<times> mbd" where
  "host_state_init dir_ok s =
     (if \<not> dir_ok then (False, s) else (True, fold host_state_entry (closed_hosts s) s))"

section \<open>Requests\<close>

definition queue_admin :: "env \<Rightarrow> wire_queue_admin option \<Rightarrow> int \<Rightarrow> wire_hdr \<Rightarrow> mbd \<Rightarrow> bool \<times> mbd" where
  "queue_admin e dec chan hdr s =
     (case dec of
        None \<Rightarrow> enqueue_header e chan BATCH_QUEUE_ADMIN_ACK EPROTO s
      | Some req \<Rightarrow>
        if \<not> is_manager s (wh_uid hdr) then enqueue_header e chan BATCH_QUEUE_ADMIN_ACK EPERM s
        else (case ll_hash_search (queue_name_hash s) (wqa_name req) of
                None \<Rightarrow> enqueue_header e chan BATCH_QUEUE_ADMIN_ACK ESRCH s
              | Some q \<Rightarrow>
                enqueue_header e chan BATCH_QUEUE_ADMIN_ACK 0
                  (queue_state_write e q (upd_queue q (\<lambda>x. x\<lparr>mq_state := wqa_op req\<rparr>) s))))"

definition host_admin :: "env \<Rightarrow> wire_host_admin option \<Rightarrow> int \<Rightarrow> wire_hdr \<Rightarrow> mbd \<Rightarrow> bool \<times> mbd" where
  "host_admin e dec chan hdr s =
     (case dec of
        None \<Rightarrow> enqueue_header e chan BATCH_HOST_ADMIN_ACK EPROTO s
      | Some req \<Rightarrow>
        if \<not> is_manager s (wh_uid hdr) then enqueue_header e chan BATCH_HOST_ADMIN_ACK EPERM s
        else (case ll_hash_search (host_name_hash s) (wha_name req) of
                None \<Rightarrow> enqueue_header e chan BATCH_HOST_ADMIN_ACK EINVAL s
              | Some h \<Rightarrow>
                enqueue_header e chan BATCH_HOST_ADMIN_ACK 0
                  (host_state_write e h (upd_host h (\<lambda>x. x\<lparr>mh_state :=
                     (if wha_op req = uint HOST_CLOSED then mh_state x OR HOST_CLOSED
                      else mh_state x AND NOT HOST_CLOSED)\<rparr>) s))))"

section \<open>Files and states agree\<close>

text \<open>The tables of names lead to the queues and hosts of that name, and no name is hidden.\<close>

definition names_fit :: "mbd \<Rightarrow> bool" where
  "names_fit s \<longleftrightarrow>
     (\<forall>k q. ll_hash_search (queue_name_hash s) k = Some q \<longleftrightarrow> q \<in> set (queue_list s) \<and> mq_name (queue_heap s q) = k) \<and>
     (\<forall>k h. ll_hash_search (host_name_hash s) k = Some h \<longleftrightarrow> h \<in> set (host_list s) \<and> mh_name (host_heap s h) = k) \<and>
     (\<forall>q \<in> set (queue_list s). \<not> hidden_name (mq_name (queue_heap s q))) \<and>
     (\<forall>h \<in> set (host_list s). \<not> hidden_name (mh_name (host_heap s h)))"

definition queue_closed :: "mbd \<Rightarrow> qptr \<Rightarrow> bool" where
  "queue_closed s q \<longleftrightarrow> mq_state (queue_heap s q) = QUEUE_CLOSED"

definition host_closed :: "mbd \<Rightarrow> hptr \<Rightarrow> bool" where
  "host_closed s h \<longleftrightarrow> has_flag (mh_state (host_heap s h)) HOST_CLOSED"

definition files_agree :: "mbd \<Rightarrow> bool" where
  "files_agree s \<longleftrightarrow>
     (\<forall>q \<in> set (queue_list s). mq_name (queue_heap s q) \<in> set (closed_queues s) \<longleftrightarrow> queue_closed s q) \<and>
     (\<forall>h \<in> set (host_list s). mh_name (host_heap s h) \<in> set (closed_hosts s) \<longleftrightarrow> host_closed s h)"

lemma closed_flag [simp]:
  "has_flag (w OR HOST_CLOSED) HOST_CLOSED" "\<not> has_flag (w AND NOT HOST_CLOSED) HOST_CLOSED"
proof -
  have "bit ((w OR HOST_CLOSED) AND HOST_CLOSED) 0" by (simp add: HOST_CLOSED_def bit_simps)
  then show "has_flag (w OR HOST_CLOSED) HOST_CLOSED" by (metis has_flag_def bit_0_eq bot_apply bot_bool_def)
  have "(w AND NOT HOST_CLOSED) AND HOST_CLOSED = 0" by (rule bit_eqI) (auto simp: HOST_CLOSED_def bit_simps)
  then show "\<not> has_flag (w AND NOT HOST_CLOSED) HOST_CLOSED" by (simp add: has_flag_def)
qed

lemma set_file_create: "e_state_ok e n \<Longrightarrow> set (file_create e n fs) = insert n (set fs)"
  by (auto simp: file_create_def)

lemma set_file_unlink: "e_state_ok e n \<Longrightarrow> set (file_unlink e n fs) = set fs - {n}"
  by (auto simp: file_unlink_def)

lemma names_fitD:
  assumes "names_fit s"
  shows "ll_hash_search (queue_name_hash s) k = Some q \<longleftrightarrow> q \<in> set (queue_list s) \<and> mq_name (queue_heap s q) = k"
    and "ll_hash_search (host_name_hash s) k = Some h \<longleftrightarrow> h \<in> set (host_list s) \<and> mh_name (host_heap s h) = k"
    and "q \<in> set (queue_list s) \<Longrightarrow> \<not> hidden_name (mq_name (queue_heap s q))"
    and "h \<in> set (host_list s) \<Longrightarrow> \<not> hidden_name (mh_name (host_heap s h))"
  using assms by (auto simp: names_fit_def)

text \<open>What identifies the configuration: lists, names and tables.\<close>

definition same_conf :: "mbd \<Rightarrow> mbd \<Rightarrow> bool" where
  "same_conf s t \<longleftrightarrow> queue_list t = queue_list s \<and> host_list t = host_list s \<and>
     queue_name_hash t = queue_name_hash s \<and> host_name_hash t = host_name_hash s \<and>
     (\<forall>q. mq_name (queue_heap t q) = mq_name (queue_heap s q)) \<and>
     (\<forall>h. mh_name (host_heap t h) = mh_name (host_heap s h))"

lemma same_conf_refl [simp]: "same_conf s s"
  by (simp add: same_conf_def)

lemma same_conf_trans: "same_conf s t \<Longrightarrow> same_conf t u \<Longrightarrow> same_conf s u"
  by (simp add: same_conf_def)

lemma same_conf_names: "same_conf s t \<Longrightarrow> names_fit t = names_fit s"
  by (simp add: same_conf_def names_fit_def)

text \<open>The effect of an accepted request on a queue and on a host.\<close>

definition set_queue :: "env \<Rightarrow> qptr \<Rightarrow> int \<Rightarrow> mbd \<Rightarrow> mbd" where
  "set_queue e q op s = queue_state_write e q (upd_queue q (\<lambda>x. x\<lparr>mq_state := op\<rparr>) s)"

definition set_host :: "env \<Rightarrow> hptr \<Rightarrow> bool \<Rightarrow> mbd \<Rightarrow> mbd" where
  "set_host e h b s = host_state_write e h (upd_host h (\<lambda>x. x\<lparr>mh_state :=
     (if b then mh_state x OR HOST_CLOSED else mh_state x AND NOT HOST_CLOSED)\<rparr>) s)"

lemma q_ctr_state [simp]: "q_ctr c (x\<lparr>mq_state := n\<rparr>) = q_ctr c x"
  by (cases c) simp_all

lemma set_queue_inv: "mbd_inv s \<Longrightarrow> mbd_inv (set_queue e q op s)" "keeps s (set_queue e q op s)"
proof -
  show "mbd_inv (set_queue e q op s)" if "mbd_inv s"
    by (rule inv_frame [OF that]) (simp_all add: set_queue_def queue_state_write_def Let_def same_queue_def)
qed (simp add: keeps_def array_same_def all_jobs_def set_queue_def queue_state_write_def Let_def)

lemma set_host_inv: "mbd_inv s \<Longrightarrow> mbd_inv (set_host e h b s)" "keeps s (set_host e h b s)"
proof -
  show "mbd_inv (set_host e h b s)" if "mbd_inv s"
    by (rule inv_frame [OF that]) (simp_all add: set_host_def host_state_write_def Let_def)
qed (simp add: keeps_def array_same_def all_jobs_def set_host_def host_state_write_def Let_def)

lemma set_queue_ok:
  assumes "names_fit s" and "files_agree s" and "\<forall>k. e_state_ok e k" and "q \<in> set (queue_list s)"
  shows "same_conf s (set_queue e q op s)" and "files_agree (set_queue e q op s)"
    and "queue_closed (set_queue e q op s) x = (if x = q then op = QUEUE_CLOSED else queue_closed s x)"
    and "host_closed (set_queue e q op s) = host_closed s"
    and "mbd_inv s \<Longrightarrow> mbd_inv (set_queue e q op s)" and "keeps s (set_queue e q op s)"
proof -
  let ?t = "set_queue e q op s"
  show "same_conf s ?t" by (simp add: same_conf_def set_queue_def queue_state_write_def Let_def)
  show c: "queue_closed ?t x = (if x = q then op = QUEUE_CLOSED else queue_closed s x)" for x
    by (simp add: queue_closed_def set_queue_def queue_state_write_def Let_def)
  show h: "host_closed ?t = host_closed s" by (simp add: host_closed_def set_queue_def queue_state_write_def Let_def fun_eq_iff)
  have uniq: "mq_name (queue_heap s x) = mq_name (queue_heap s q) \<longleftrightarrow> x = q" if "x \<in> set (queue_list s)" for x
    using names_fitD(1) [OF assms(1), of "mq_name (queue_heap s q)"] that assms(4) by (metis option.inject)
  have f: "set (closed_queues ?t) = (if op = QUEUE_CLOSED then insert (mq_name (queue_heap s q)) (set (closed_queues s))
      else set (closed_queues s) - {mq_name (queue_heap s q)})" "closed_hosts ?t = closed_hosts s"
    "queue_list ?t = queue_list s" "host_list ?t = host_list s" "host_heap ?t = host_heap s"
    "mq_name (queue_heap ?t x) = mq_name (queue_heap s x)" for x
    using assms(3) by (simp_all add: set_queue_def queue_state_write_def Let_def set_file_create set_file_unlink upd_queue_def)
  show "files_agree ?t"
    using assms(2) uniq by (auto simp: files_agree_def f c h)
qed (rule set_queue_inv, assumption, rule set_queue_inv)

lemma set_host_ok:
  assumes "names_fit s" and "files_agree s" and "\<forall>k. e_state_ok e k" and "h \<in> set (host_list s)"
  shows "same_conf s (set_host e h b s)" and "files_agree (set_host e h b s)"
    and "host_closed (set_host e h b s) x = (if x = h then b else host_closed s x)"
    and "queue_closed (set_host e h b s) = queue_closed s"
    and "mbd_inv s \<Longrightarrow> mbd_inv (set_host e h b s)" and "keeps s (set_host e h b s)"
proof -
  let ?t = "set_host e h b s"
  show "same_conf s ?t" by (simp add: same_conf_def set_host_def host_state_write_def Let_def)
  show c: "host_closed ?t x = (if x = h then b else host_closed s x)" for x
    by (simp add: host_closed_def set_host_def host_state_write_def Let_def)
  show q: "queue_closed ?t = queue_closed s" by (simp add: queue_closed_def set_host_def host_state_write_def Let_def fun_eq_iff)
  have uniq: "mh_name (host_heap s x) = mh_name (host_heap s h) \<longleftrightarrow> x = h" if "x \<in> set (host_list s)" for x
    using names_fitD(2) [OF assms(1), of "mh_name (host_heap s h)"] that assms(4) by (metis option.inject)
  have f: "set (closed_hosts ?t) = (if b then insert (mh_name (host_heap s h)) (set (closed_hosts s))
      else set (closed_hosts s) - {mh_name (host_heap s h)})" "closed_queues ?t = closed_queues s"
    "queue_list ?t = queue_list s" "host_list ?t = host_list s" "queue_heap ?t = queue_heap s"
    "mh_name (host_heap ?t x) = mh_name (host_heap s x)" for x
    using assms(3) by (simp_all add: set_host_def host_state_write_def Let_def set_file_create set_file_unlink upd_host_def)
  show "files_agree ?t"
    using assms(2) uniq by (auto simp: files_agree_def f c q)
qed (rule set_host_inv, assumption, rule set_host_inv)

text \<open>A request either is refused or sets the state of the queue or host it names; then it answers.\<close>

lemma enqueue_header_outq: "\<exists>ms. snd (enqueue_header e c op st u) = u\<lparr>outq := outq u @ ms\<rparr>"
proof (cases "e_send_ok e c op")
  case False
  then show ?thesis by (intro exI [of _ "[]"]) (simp add: enqueue_header_def enqueue_payload_eq)
next
  case True
  show ?thesis by (rule exI) (simp add: True enqueue_header_def enqueue_payload_eq)
qed

lemma queue_admin_result:
  obtains u ms where "snd (queue_admin e dec c hdr s) = u\<lparr>outq := outq u @ ms\<rparr>"
    and "u = s \<or> is_manager s (wh_uid hdr) \<and> (\<exists>req q. dec = Some req \<and>
        ll_hash_search (queue_name_hash s) (wqa_name req) = Some q \<and> u = set_queue e q (wqa_op req) s)"
proof (cases "\<exists>req q. dec = Some req \<and> is_manager s (wh_uid hdr) \<and> ll_hash_search (queue_name_hash s) (wqa_name req) = Some q")
  case True
  then obtain req q where r: "dec = Some req" "is_manager s (wh_uid hdr)" "ll_hash_search (queue_name_hash s) (wqa_name req) = Some q"
    by blast
  then have "queue_admin e dec c hdr s = enqueue_header e c BATCH_QUEUE_ADMIN_ACK 0 (set_queue e q (wqa_op req) s)"
    by (simp add: queue_admin_def set_queue_def)
  then show ?thesis using enqueue_header_outq [of e c BATCH_QUEUE_ADMIN_ACK 0 "set_queue e q (wqa_op req) s"] r that by metis
next
  case False
  then have "queue_admin e dec c hdr s \<in> (\<lambda>st. enqueue_header e c BATCH_QUEUE_ADMIN_ACK st s) ` {EPROTO, EPERM, ESRCH}"
    by (cases dec) (auto simp: queue_admin_def split: option.splits)
  then obtain st where "queue_admin e dec c hdr s = enqueue_header e c BATCH_QUEUE_ADMIN_ACK st s" by blast
  then show ?thesis using enqueue_header_outq [of e c BATCH_QUEUE_ADMIN_ACK st s] that by metis
qed

lemma host_admin_result:
  obtains u ms where "snd (host_admin e dec c hdr s) = u\<lparr>outq := outq u @ ms\<rparr>"
    and "u = s \<or> is_manager s (wh_uid hdr) \<and> (\<exists>req h. dec = Some req \<and>
        ll_hash_search (host_name_hash s) (wha_name req) = Some h \<and> u = set_host e h (wha_op req = uint HOST_CLOSED) s)"
proof (cases "\<exists>req h. dec = Some req \<and> is_manager s (wh_uid hdr) \<and> ll_hash_search (host_name_hash s) (wha_name req) = Some h")
  case True
  then obtain req h where r: "dec = Some req" "is_manager s (wh_uid hdr)" "ll_hash_search (host_name_hash s) (wha_name req) = Some h"
    by blast
  then have "host_admin e dec c hdr s = enqueue_header e c BATCH_HOST_ADMIN_ACK 0 (set_host e h (wha_op req = uint HOST_CLOSED) s)"
    by (simp add: host_admin_def set_host_def)
  then show ?thesis
    using enqueue_header_outq [of e c BATCH_HOST_ADMIN_ACK 0 "set_host e h (wha_op req = uint HOST_CLOSED) s"] r that by metis
next
  case False
  then have "host_admin e dec c hdr s \<in> (\<lambda>st. enqueue_header e c BATCH_HOST_ADMIN_ACK st s) ` {EPROTO, EPERM, EINVAL}"
    by (cases dec) (auto simp: host_admin_def split: option.splits)
  then obtain st where "host_admin e dec c hdr s = enqueue_header e c BATCH_HOST_ADMIN_ACK st s" by blast
  then show ?thesis using enqueue_header_outq [of e c BATCH_HOST_ADMIN_ACK st s] that by metis
qed

section \<open>Restart\<close>

lemma queue_state_fold:
  assumes "names_fit s"
  shows "same_conf s (fold (queue_state_entry e) ns s) \<and> host_heap (fold (queue_state_entry e) ns s) = host_heap s \<and>
    closed_hosts (fold (queue_state_entry e) ns s) = closed_hosts s \<and>
    (\<forall>q \<in> set (queue_list s). (queue_closed (fold (queue_state_entry e) ns s) q \<longleftrightarrow>
         queue_closed s q \<or> mq_name (queue_heap s q) \<in> set ns) \<and>
       (mq_name (queue_heap s q) \<in> set (closed_queues (fold (queue_state_entry e) ns s)) \<longleftrightarrow>
         mq_name (queue_heap s q) \<in> set (closed_queues s)))"
  using assms
proof (induction ns arbitrary: s)
  case Nil
  then show ?case by simp
next
  case (Cons n ns)
  let ?s = "queue_state_entry e n s"
  note nf = names_fitD [OF Cons.prems]
  have c: "same_conf s ?s" "host_heap ?s = host_heap s" "closed_hosts ?s = closed_hosts s"
    by (auto simp: queue_state_entry_def same_conf_def upd_queue_def split: option.splits)
  have q: "(queue_closed ?s q \<longleftrightarrow> queue_closed s q \<or> mq_name (queue_heap s q) = n) \<and>
      (mq_name (queue_heap s q) \<in> set (closed_queues ?s) \<longleftrightarrow> mq_name (queue_heap s q) \<in> set (closed_queues s))"
    if "q \<in> set (queue_list s)" for q
  proof (cases "ll_hash_search (queue_name_hash s) n")
    case None
    then have "mq_name (queue_heap s q) \<noteq> n" using nf(1) that by (metis option.distinct(1))
    then show ?thesis using None by (auto simp: queue_state_entry_def queue_closed_def file_unlink_def)
  next
    case (Some x)
    then have "mq_name (queue_heap s q) = n \<longleftrightarrow> q = x" "\<not> hidden_name n" using nf(1) nf(3) that by (metis option.inject)+
    then show ?thesis using Some by (auto simp: queue_state_entry_def queue_closed_def upd_queue_def)
  qed
  have nf': "names_fit ?s" using same_conf_names [OF c(1)] Cons.prems by simp
  have l: "queue_list ?s = queue_list s" "\<And>q. mq_name (queue_heap ?s q) = mq_name (queue_heap s q)"
    using c(1) by (simp_all add: same_conf_def)
  show ?case using Cons.IH [OF nf'] same_conf_trans [OF c(1)] q by (simp add: c l)
qed

lemma host_state_fold:
  assumes "names_fit s"
  shows "same_conf s (fold host_state_entry ns s) \<and> queue_heap (fold host_state_entry ns s) = queue_heap s \<and>
    closed_queues (fold host_state_entry ns s) = closed_queues s \<and> closed_hosts (fold host_state_entry ns s) = closed_hosts s \<and>
    (\<forall>h \<in> set (host_list s). host_closed (fold host_state_entry ns s) h \<longleftrightarrow>
       host_closed s h \<or> mh_name (host_heap s h) \<in> set ns)"
  using assms
proof (induction ns arbitrary: s)
  case Nil
  then show ?case by simp
next
  case (Cons n ns)
  let ?s = "host_state_entry n s"
  note nf = names_fitD [OF Cons.prems]
  have c: "same_conf s ?s" "queue_heap ?s = queue_heap s" "closed_queues ?s = closed_queues s" "closed_hosts ?s = closed_hosts s"
    by (auto simp: host_state_entry_def same_conf_def upd_host_def split: option.splits)
  have h: "host_closed ?s h \<longleftrightarrow> host_closed s h \<or> mh_name (host_heap s h) = n" if "h \<in> set (host_list s)" for h
  proof (cases "ll_hash_search (host_name_hash s) n")
    case None
    then have "mh_name (host_heap s h) \<noteq> n" using nf(2) that by (metis option.distinct(1))
    then show ?thesis using None by (auto simp: host_state_entry_def)
  next
    case (Some x)
    then have "mh_name (host_heap s h) = n \<longleftrightarrow> h = x" "\<not> hidden_name n" using nf(2) nf(4) that by (metis option.inject)+
    then show ?thesis using Some by (auto simp: host_state_entry_def host_closed_def)
  qed
  have nf': "names_fit ?s" using same_conf_names [OF c(1)] Cons.prems by simp
  have l: "host_list ?s = host_list s" "\<And>h. mh_name (host_heap ?s h) = mh_name (host_heap s h)"
    using c(1) by (simp_all add: same_conf_def)
  show ?case using Cons.IH [OF nf'] same_conf_trans [OF c(1)] h by (simp add: c l)
qed

text \<open>
  A daemon that starts again with the same configuration and state directory: every
  queue is open, every host is unavailable (\<open>make_queue\<close>, \<open>make_host\<close>), and the files are
  the ones the old daemon left.
\<close>

definition restarted :: "mbd \<Rightarrow> mbd \<Rightarrow> bool" where
  "restarted s r \<longleftrightarrow> same_conf s r \<and> closed_queues r = closed_queues s \<and> closed_hosts r = closed_hosts s \<and>
     (\<forall>q \<in> set (queue_list s). mq_state (queue_heap r q) = QUEUE_OPEN) \<and>
     (\<forall>h \<in> set (host_list s). mh_state (host_heap r h) = HOST_UNAVAIL)"

definition boot_states :: "env \<Rightarrow> mbd \<Rightarrow> mbd" where
  "boot_states e r = snd (host_state_init True (snd (queue_state_init e True r)))"

lemma boot_restores:
  assumes nf: "names_fit s" and fa: "files_agree s" and r: "restarted s r"
  shows "files_agree (boot_states e r) \<and> (\<forall>q \<in> set (queue_list s). queue_closed (boot_states e r) q = queue_closed s q) \<and>
    (\<forall>h \<in> set (host_list s). host_closed (boot_states e r) h = host_closed s h)"
proof -
  have c: "same_conf s r" "closed_queues r = closed_queues s" "closed_hosts r = closed_hosts s" using r by (simp_all add: restarted_def)
  have nr: "names_fit r" using same_conf_names [OF c(1)] nf by simp
  define u where "u = fold (queue_state_entry e) (closed_queues r) r"
  note qf = queue_state_fold [OF nr, of e "closed_queues r", folded u_def]
  have nu: "names_fit u" using same_conf_names [of r u] nr qf by simp
  define v where "v = fold host_state_entry (closed_hosts u) u"
  note hf = host_state_fold [OF nu, of "closed_hosts u", folded v_def]
  have v: "boot_states e r = v" by (simp add: boot_states_def queue_state_init_def host_state_init_def u_def v_def)
  have l: "queue_list r = queue_list s" "host_list r = host_list s" "\<And>q. mq_name (queue_heap r q) = mq_name (queue_heap s q)"
    "\<And>h. mh_name (host_heap r h) = mh_name (host_heap s h)" "queue_list u = queue_list s" "host_list u = host_list s"
    "queue_list v = queue_list s" "host_list v = host_list s" "\<And>q. mq_name (queue_heap u q) = mq_name (queue_heap s q)"
    "\<And>q. mq_name (queue_heap v q) = mq_name (queue_heap s q)" "\<And>h. mh_name (host_heap v h) = mh_name (host_heap s h)"
    using c(1) qf hf by (simp_all add: same_conf_def)
  have open_r: "\<not> queue_closed r q" if "q \<in> set (queue_list s)" for q
    using r that by (simp add: restarted_def queue_closed_def QUEUE_OPEN_def QUEUE_CLOSED_def)
  have open_h: "\<not> host_closed r h" if "h \<in> set (host_list s)" for h
    using r that by (simp add: restarted_def host_closed_def has_flag_def HOST_UNAVAIL_def HOST_CLOSED_def)
  have q: "queue_closed v q = queue_closed s q" if "q \<in> set (queue_list s)" for q
    using that qf hf open_r [OF that] fa by (simp add: l c queue_closed_def files_agree_def)
  have h: "host_closed v h = host_closed s h" if "h \<in> set (host_list s)" for h
    using that qf hf open_h [OF that] fa by (simp add: l c host_closed_def files_agree_def)
  show ?thesis using q h fa qf hf by (simp add: v files_agree_def l c)
qed

section \<open>Property\<close>

text \<open>
  C17. Closing and opening survive a restart. A request to open or close a queue or a host
  changes only what it names, and only for a manager; the state files then agree with the
  states, and a daemon that starts again with the same configuration finds exactly the
  queues and hosts closed that were closed.
\<close>

theorem admin_survives_restart:
  assumes "mbd_inv s" and "names_fit s" and "files_agree s" and "\<forall>k. e_state_ok e k"
    and "t = snd (queue_admin e qreq c hdr s) \<or> t = snd (host_admin e hreq c hdr s)" and "restarted t r"
  shows "mbd_inv t \<and> files_agree t \<and>
    (\<forall>q. queue_closed t q \<noteq> queue_closed s q \<longrightarrow> is_manager s (wh_uid hdr) \<and>
       (\<exists>req. qreq = Some req \<and> mq_name (queue_heap s q) = wqa_name req)) \<and>
    (\<forall>h. host_closed t h \<noteq> host_closed s h \<longrightarrow> is_manager s (wh_uid hdr) \<and>
       (\<exists>req. hreq = Some req \<and> mh_name (host_heap s h) = wha_name req)) \<and>
    (\<forall>q \<in> set (queue_list s). queue_closed (boot_states e r) q = queue_closed t q) \<and>
    (\<forall>h \<in> set (host_list s). host_closed (boot_states e r) h = host_closed t h)"
proof -
  note nf = names_fitD [OF assms(2)]
  have io: "names_fit (u\<lparr>outq := o'\<rparr>) = names_fit u" "files_agree (u\<lparr>outq := o'\<rparr>) = files_agree u"
    "queue_closed (u\<lparr>outq := o'\<rparr>) = queue_closed u" "host_closed (u\<lparr>outq := o'\<rparr>) = host_closed u"
    "same_conf s (u\<lparr>outq := o'\<rparr>) = same_conf s u" for u o'
    by (simp_all add: names_fit_def files_agree_def queue_closed_def host_closed_def same_conf_def fun_eq_iff)
  have "mbd_inv t \<and> files_agree t \<and> same_conf s t \<and>
    (\<forall>q. queue_closed t q \<noteq> queue_closed s q \<longrightarrow> is_manager s (wh_uid hdr) \<and>
       (\<exists>req. qreq = Some req \<and> mq_name (queue_heap s q) = wqa_name req)) \<and>
    (\<forall>h. host_closed t h \<noteq> host_closed s h \<longrightarrow> is_manager s (wh_uid hdr) \<and>
       (\<exists>req. hreq = Some req \<and> mh_name (host_heap s h) = wha_name req))"
    using assms(5)
  proof
    assume t: "t = snd (queue_admin e qreq c hdr s)"
    obtain u ms where u: "t = u\<lparr>outq := outq u @ ms\<rparr>" "u = s \<or> is_manager s (wh_uid hdr) \<and> (\<exists>req q. qreq = Some req \<and>
        ll_hash_search (queue_name_hash s) (wqa_name req) = Some q \<and> u = set_queue e q (wqa_op req) s)"
      unfolding t by (rule queue_admin_result)
    show ?thesis using u(2)
    proof
      assume "is_manager s (wh_uid hdr) \<and> (\<exists>req q. qreq = Some req \<and>
        ll_hash_search (queue_name_hash s) (wqa_name req) = Some q \<and> u = set_queue e q (wqa_op req) s)"
      then obtain req q where m: "is_manager s (wh_uid hdr)" "qreq = Some req" "q \<in> set (queue_list s)"
        "mq_name (queue_heap s q) = wqa_name req" "u = set_queue e q (wqa_op req) s" using nf(1) by blast
      show ?thesis using set_queue_ok [OF assms(2-4) m(3), of "wqa_op req"] assms(1) m by (simp add: u(1) io split: if_splits)
    qed (use assms(1,3) in \<open>simp add: u(1) io\<close>)
  next
    assume t: "t = snd (host_admin e hreq c hdr s)"
    obtain u ms where u: "t = u\<lparr>outq := outq u @ ms\<rparr>" "u = s \<or> is_manager s (wh_uid hdr) \<and> (\<exists>req h. hreq = Some req \<and>
        ll_hash_search (host_name_hash s) (wha_name req) = Some h \<and> u = set_host e h (wha_op req = uint HOST_CLOSED) s)"
      unfolding t by (rule host_admin_result)
    show ?thesis using u(2)
    proof
      assume "is_manager s (wh_uid hdr) \<and> (\<exists>req h. hreq = Some req \<and>
        ll_hash_search (host_name_hash s) (wha_name req) = Some h \<and> u = set_host e h (wha_op req = uint HOST_CLOSED) s)"
      then obtain req h where m: "is_manager s (wh_uid hdr)" "hreq = Some req" "h \<in> set (host_list s)"
        "mh_name (host_heap s h) = wha_name req" "u = set_host e h (wha_op req = uint HOST_CLOSED) s" using nf(2) by blast
      show ?thesis using set_host_ok [OF assms(2-4) m(3), of "wha_op req = uint HOST_CLOSED"] assms(1) m
        by (simp add: u(1) io split: if_splits)
    qed (use assms(1,3) in \<open>simp add: u(1) io\<close>)
  qed
  moreover from this have "names_fit t" "queue_list t = queue_list s" "host_list t = host_list s"
    using same_conf_names [of s t] assms(2) by (simp_all add: same_conf_def)
  ultimately show ?thesis using boot_restores [of t r e] assms(6) by simp
qed

lemma ex_admin_ok: "names_fit ex_mbd" "files_agree ex_mbd"
proof -
  show "names_fit ex_mbd"
    unfolding names_fit_def
  proof (intro conjI allI)
    fix k h
    show "ll_hash_search (host_name_hash ex_mbd) k = Some h \<longleftrightarrow> h \<in> set (host_list ex_mbd) \<and> mh_name (host_heap ex_mbd h) = k"
      by (cases "h = 0"; cases "h = 1") (auto simp: ex_host_def)
  qed (auto simp: ex_host_def ex_queue_def hidden_name_def)
  show "files_agree ex_mbd"
    by (simp add: files_agree_def queue_closed_def host_closed_def ex_queue_def ex_host_def has_flag_def QUEUE_CLOSED_def)
      (simp add: ex_mbd_def)
qed

theorem admin_survives_restart_witness:
  "\<exists>t r. t = snd (queue_admin ex_env (Some \<lparr>wqa_name = ''normal'', wqa_op = QUEUE_CLOSED\<rparr>) 5 (ex_hdr\<lparr>wh_uid := 500\<rparr>) ex_mbd) \<and>
     queue_closed t 0 \<and> restarted t r \<and> queue_closed (boot_states ex_env r) 0"
proof -
  let ?req = "Some \<lparr>wqa_name = ''normal'', wqa_op = QUEUE_CLOSED\<rparr>" and ?hdr = "ex_hdr\<lparr>wh_uid := 500\<rparr>"
  define t where "t = snd (queue_admin ex_env ?req 5 ?hdr ex_mbd)"
  define r where "r = t\<lparr>queue_heap := (\<lambda>q. (queue_heap t q)\<lparr>mq_state := QUEUE_OPEN\<rparr>),
    host_heap := (\<lambda>h. (host_heap t h)\<lparr>mh_state := HOST_UNAVAIL\<rparr>)\<rparr>"
  have r: "restarted t r" by (simp add: restarted_def same_conf_def r_def)
  have c: "queue_closed t 0"
    by (simp add: t_def queue_admin_def is_manager_def enqueue_header_def enqueue_payload_eq queue_state_write_def
        queue_closed_def Let_def)
  have e: "\<forall>k. e_state_ok ex_env k" by (simp add: ex_env_def)
  from admin_survives_restart [OF ex_mbd_inv ex_admin_ok e disjI1 [OF t_def] r] c r show ?thesis
    by (auto simp: t_def [symmetric])
qed

end
