(* ===== verification/Mbd_Compact.thy ===== *)
theory Mbd_Compact
  imports Mbd_Admin
begin

text \<open>
  Compaction of the manifest (\<open>manifest_rebuild\<close> and \<open>maybe_rebuild_manifest\<close> of
  \<open>src/batch/mbd/events.c\<close>): the old file becomes an archive, the jobs are written anew, and
  the finished jobs nothing refers to any more are dropped from the tables. The theory shows
  that a compaction ends without a failed assertion, keeps the invariant, and writes exactly
  the records of the jobs that stay.
\<close>

section \<open>Model\<close>

definition new_record :: "mbd \<Rightarrow> job_data \<Rightarrow> qptr \<Rightarrow> log_event" where
  "new_record s j q = Job_new \<lparr>ln_job_id = jd_job_id j, ln_array_id = jd_array_id j,
     ln_array_index = jd_array_index j, ln_array_start = jd_array_start j,
     ln_array_end = jd_array_end j, ln_array_stride = jd_array_stride j,
     ln_uid = jd_uid j, ln_gid = jd_gid j, ln_state = job_state_code (jd_state j),
     ln_priority = jd_priority j, ln_submit_time = jd_submit_time j,
     ln_begin_time = jd_begin_time j, ln_term_time = jd_term_time j,
     ln_num_cpu = jr_num_cpus (jd_res j), ln_num_hosts = jr_num_hosts (jd_res j),
     ln_num_gpus = jr_num_gpus (jd_res j),
     ln_mem_mb = uint (jr_mem_mb (jd_res j)), ln_storage_mb = uint (jr_storage_mb (jd_res j)),
     ln_flags = uint (jd_flags j), ln_username = cfield 64 (jd_user j),
     ln_job_name = cfield 64 (jd_name j), ln_queue = cfield 64 (mq_name (queue_heap s q)),
     ln_project_name = cfield 64 (jd_project j),
     ln_gpu_model = cfield 64 (jr_gpu_model (jd_res j)),
     ln_machines = cfield 1024 (jr_machines_str (jd_res j)),
     ln_tokenpool = cfield 256 (jr_tokenpool_str (jd_res j)),
     ln_depend_cond = cfield 4096 (jd_depend_cond j)\<rparr>"

definition compact_write_job_new :: "jptr \<Rightarrow> mbd \<Rightarrow> crash + mbd" where
  "compact_write_job_new p s = bindE (job_queue s p) (\<lambda>q. log_append (new_record s (job_heap s p) q) s)"

text \<open>The host loop runs to \<open>res.num_hosts\<close>, and the assigned devices are not written.\<close>

definition start_record :: "job_data \<Rightarrow> string \<Rightarrow> log_event" where
  "start_record j hosts = Job_start \<lparr>ls_job_id = jd_job_id j, ls_dispatch_time = jd_dispatch_time j,
     ls_nhosts = jr_num_hosts (jd_res j), ls_cpus_per_host = jr_num_cpus (jd_res j),
     ls_gpus_per_host = jr_num_gpus (jd_res j), ls_gpu_model = cfield 64 (jr_gpu_model (jd_res j)),
     ls_gpu_assigned = [], ls_hosts = hosts\<rparr>"

definition compact_write_job_start :: "jptr \<Rightarrow> mbd \<Rightarrow> crash + mbd" where
  "compact_write_job_start p s =
     bindE (foldE (append_host_name s p) [0..<nat (jr_num_hosts (jd_res (job_heap s p)))] []) (\<lambda>hosts.
       log_append (start_record (job_heap s p) hosts) s)"

definition fork_record :: "job_data \<Rightarrow> log_event" where
  "fork_record j = Job_fork \<lparr>lf_job_id = jd_job_id j, lf_job_pid = jd_pid j, lf_fork_time = jd_fork_time j\<rparr>"

definition compact_write_job_fork :: "jptr \<Rightarrow> mbd \<Rightarrow> crash + mbd" where
  "compact_write_job_fork p s = log_append (fork_record (job_heap s p)) s"

definition finish_record :: "job_data \<Rightarrow> log_event" where
  "finish_record j = Job_finish \<lparr>le_job_id = jd_job_id j, le_uid = jd_uid j,
     le_state = job_state_code (jd_state j), le_exit_status = jd_exit_status j, le_end_time = jd_end_time j\<rparr>"

definition compact_write_job_finish :: "jptr \<Rightarrow> mbd \<Rightarrow> crash + mbd" where
  "compact_write_job_finish p s = log_append (finish_record (job_heap s p)) s"

definition compact_write_job_finished :: "jptr \<Rightarrow> mbd \<Rightarrow> crash + mbd" where
  "compact_write_job_finished p s =
     bindE (compact_write_job_new p s) (\<lambda>s1.
     bindE (if jd_dispatch_time (job_heap s p) \<noteq> 0
            then bindE (compact_write_job_start p s1) (\<lambda>s2.
              if jd_fork_time (job_heap s p) \<noteq> 0 then compact_write_job_fork p s2 else Inr s2)
            else Inr s1) (\<lambda>s3.
     compact_write_job_finish p s3))"

text \<open>One round of the loop over the running list.\<close>

definition compact_running :: "jptr \<Rightarrow> mbd \<Rightarrow> crash + mbd" where
  "compact_running p s =
     bindE (compact_write_job_new p s) (\<lambda>s1.
     bindE (compact_write_job_start p s1) (\<lambda>s2.
       if jd_fork_time (job_heap s p) \<noteq> 0 then compact_write_job_fork p s2 else Inr s2))"

text \<open>What keeps a finished job: a pending job refers to it, or it heads an array that is not done.\<close>

definition retained :: "job_data \<Rightarrow> bool" where
  "retained j \<longleftrightarrow> 0 < jd_dep_refcnt j \<or>
     jd_array_id j = jd_job_id j \<and> jd_array_id j \<noteq> 0 \<and> 0 < jd_array_element_cnt j"

text \<open>
  One round over the finished list. The loop keeps the successor before it removes an
  entry, so it passes every entry. A freed job is no longer on a list or in the table.
\<close>

definition compact_finished :: "jptr \<Rightarrow> mbd \<Rightarrow> crash + mbd" where
  "compact_finished p s =
     (if retained (job_heap s p) then compact_write_job_finished p s
      else
        let s1 = s\<lparr>job_lists := (job_lists s)(JOB_LIST_FINISH := remove1 p (job_lists s JOB_LIST_FINISH))\<rparr>;
            (j2, ht) = ll_hash_remove (job_id_hash s) (fmt_ld (jd_job_id (job_heap s p))) in
        bindE (assertE Assert_failed (j2 = Some p)) (\<lambda>_. Inr (s1\<lparr>job_id_hash := ht\<rparr>)))"

definition manifest_rebuild :: "mbd \<Rightarrow> crash + mbd" where
  "manifest_rebuild s =
     bindE (foldE compact_write_job_new (job_lists s JOB_LIST_PEND)
       (s\<lparr>archives := archives s @ [manifest s], manifest := []\<rparr>)) (\<lambda>s1.
     bindE (foldE compact_running (job_lists s JOB_LIST_RUN) s1) (\<lambda>s2.
       foldE compact_finished (job_lists s JOB_LIST_FINISH) s2))"

definition maybe_rebuild_manifest :: "mbd \<Rightarrow> crash + mbd" where
  "maybe_rebuild_manifest s =
     (if int (length (job_lists s JOB_LIST_FINISH)) < job_finish_threshold s then Inr s else manifest_rebuild s)"

section \<open>The records of a job\<close>

text \<open>What a compaction writes for a job, given its list and its hosts.\<close>

definition host_names :: "mbd \<Rightarrow> jptr \<Rightarrow> string" where
  "host_names s p =
     (case foldE (append_host_name s p) [0..<nat (jr_num_hosts (jd_res (job_heap s p)))] [] of
        Inr x \<Rightarrow> x | Inl _ \<Rightarrow> [])"

definition started_records :: "mbd \<Rightarrow> jptr \<Rightarrow> log_event list" where
  "started_records s p = start_record (job_heap s p) (host_names s p) #
     (if jd_fork_time (job_heap s p) \<noteq> 0 then [fork_record (job_heap s p)] else [])"

definition job_records :: "mbd \<Rightarrow> jptr \<Rightarrow> log_event list" where
  "job_records s p =
     (let j = job_heap s p in
      new_record s j (the (jd_queue j)) #
      (case jd_list_id j of
         JOB_LIST_PEND \<Rightarrow> []
       | JOB_LIST_RUN \<Rightarrow> started_records s p
       | JOB_LIST_FINISH \<Rightarrow> (if jd_dispatch_time j \<noteq> 0 then started_records s p else []) @ [finish_record j]))"

text \<open>The state during a compaction: only the manifest, the finished list and the table differ.\<close>

definition compacting :: "mbd \<Rightarrow> mbd \<Rightarrow> bool" where
  "compacting s t \<longleftrightarrow> (\<exists>l h a m. t = s\<lparr>job_lists := l, job_id_hash := h, archives := a, manifest := m\<rparr>)"

lemma compacting_simps:
  assumes "compacting s t"
  shows "job_heap t = job_heap s" "host_heap t = host_heap s" "queue_heap t = queue_heap s"
    "run_host t p i = run_host s p i" "job_queue t p = job_queue s p" "new_record t = new_record s"
    "append_host_name t = append_host_name s"
  using assms by (auto simp: compacting_def run_host_def job_queue_def new_record_def append_host_name_def fun_eq_iff)

lemma compacting_refl [simp]: "compacting s s"
  unfolding compacting_def
  by (rule exI [of _ "job_lists s"], rule exI [of _ "job_id_hash s"], rule exI [of _ "archives s"],
      rule exI [of _ "manifest s"]) simp

lemma compacting_manifest: "compacting s t \<Longrightarrow> compacting s (t\<lparr>manifest := m\<rparr>)"
  by (auto simp: compacting_def) blast

lemma write_new:
  assumes "compacting s t" and "jd_queue (job_heap s p) = Some q" and "0 < jd_submit_time (job_heap s p)"
  shows "compact_write_job_new p t = Inr (t\<lparr>manifest := manifest t @ [new_record s (job_heap s p) q]\<rparr>)"
  using assms log_append_ok [of "new_record s (job_heap s p) q" t]
  by (simp add: compact_write_job_new_def compacting_simps [OF assms(1)] job_queue_def) (simp add: new_record_def)

lemma host_names_total:
  assumes "run_hosts_are (job_heap s p) hs" and "length hs = nat (jr_num_hosts (jd_res (job_heap s p)))"
  shows "foldE (append_host_name s p) [0..<nat (jr_num_hosts (jd_res (job_heap s p)))] [] = Inr (host_names s p)"
proof -
  obtain b where "foldE (append_host_name s p) [0..<length hs] [] = Inr b"
    using foldE_ex [of "[0..<length hs]" "append_host_name s p" "[]"] run_host_nth [OF assms(1)]
    by (auto simp: append_host_name_def)
  then show ?thesis by (simp add: host_names_def assms(2))
qed

lemma write_started:
  assumes c: "compacting s t" and hs: "run_hosts_are (job_heap s p) hs"
    and n: "length hs = nat (jr_num_hosts (jd_res (job_heap s p)))"
    and time: "0 < jd_dispatch_time (job_heap s p)" "0 \<le> jd_fork_time (job_heap s p)"
  shows "bindE (compact_write_job_start p t) (\<lambda>u.
      if jd_fork_time (job_heap s p) \<noteq> 0 then compact_write_job_fork p u else Inr u) =
    Inr (t\<lparr>manifest := manifest t @ started_records s p\<rparr>)"
proof -
  let ?j = "job_heap s p" and ?e = "start_record (job_heap s p) (host_names s p)"
  have "0 < ev_time ?e" using time(1) by (simp add: start_record_def)
  then have "compact_write_job_start p t = Inr (t\<lparr>manifest := manifest t @ [?e]\<rparr>)"
    by (simp add: compact_write_job_start_def compacting_simps [OF c] host_names_total [OF hs n] log_append_ok)
  moreover have "log_append (fork_record ?j) u = Inr (u\<lparr>manifest := manifest u @ [fork_record ?j]\<rparr>)"
    if "jd_fork_time ?j \<noteq> 0" for u
    using that time(2) by (intro log_append_ok) (simp add: fork_record_def)
  ultimately show ?thesis
    by (simp add: started_records_def compact_write_job_fork_def compacting_simps [OF c])
qed


text \<open>Every host slot of a job that was dispatched is filled, so the host loop finds its names.\<close>

lemma dispatched_hosts:
  assumes "job_ok ql hl j" and "jd_dispatch_time j \<noteq> 0"
  obtains hs where "run_hosts_are j hs" and "length hs = nat (jr_num_hosts (jd_res j))"
proof -
  obtain hs where hs: "run_hosts_are j hs" using assms(1) by (auto simp: job_ok_def)
  moreover have "jd_run_nhosts j = jr_num_hosts (jd_res j)" using assms by (auto simp: job_ok_def)
  then have "length hs = nat (jr_num_hosts (jd_res j))" using hs by (simp add: run_hosts_are_def)
  ultimately show ?thesis by (rule that)
qed

text \<open>A job that can be written: it has its queue, its hosts and the times the log asserts.\<close>

definition writable :: "mbd \<Rightarrow> jptr \<Rightarrow> bool" where
  "writable s p \<longleftrightarrow> (\<exists>ql hl. job_ok ql hl (job_heap s p)) \<and> times_ok (job_heap s p)"

lemma writable_queue: "writable s p \<Longrightarrow> jd_queue (job_heap s p) = Some (the (jd_queue (job_heap s p)))"
  by (auto simp: writable_def job_ok_def)

lemma write_started_records:
  assumes w: "writable s p" and c: "compacting s t" and d: "jd_dispatch_time (job_heap s p) \<noteq> 0"
  shows "bindE (compact_write_job_start p t) (\<lambda>u.
      if jd_fork_time (job_heap s p) \<noteq> 0 then compact_write_job_fork p u else Inr u) =
    Inr (t\<lparr>manifest := manifest t @ started_records s p\<rparr>)"
proof -
  obtain ql hl where "job_ok ql hl (job_heap s p)" using w by (auto simp: writable_def)
  from dispatched_hosts [OF this d] obtain hs where "run_hosts_are (job_heap s p) hs"
    and "length hs = nat (jr_num_hosts (jd_res (job_heap s p)))" by blast
  then show ?thesis
    by (rule write_started [OF c]) (use w d in \<open>simp_all add: writable_def times_ok_def\<close>)
qed

lemma write_records:
  assumes w: "writable s p" and c: "compacting s t"
  shows "jd_list_id (job_heap s p) = JOB_LIST_PEND \<Longrightarrow>
      compact_write_job_new p t = Inr (t\<lparr>manifest := manifest t @ job_records s p\<rparr>)" (is "_ \<Longrightarrow> ?pend")
    and "jd_list_id (job_heap s p) = JOB_LIST_RUN \<Longrightarrow>
      compact_running p t = Inr (t\<lparr>manifest := manifest t @ job_records s p\<rparr>)" (is "_ \<Longrightarrow> ?run")
    and "jd_list_id (job_heap s p) = JOB_LIST_FINISH \<Longrightarrow>
      compact_write_job_finished p t = Inr (t\<lparr>manifest := manifest t @ job_records s p\<rparr>)" (is "_ \<Longrightarrow> ?fin")
proof -
  let ?j = "job_heap s p" and ?q = "the (jd_queue (job_heap s p))"
  let ?t1 = "t\<lparr>manifest := manifest t @ [new_record s ?j ?q]\<rparr>"
  have time: "times_ok ?j" using w by (simp add: writable_def)
  have new: "compact_write_job_new p t = Inr ?t1"
    by (rule write_new [OF c writable_queue [OF w]]) (use time in \<open>simp add: times_ok_def\<close>)
  have c1: "compacting s ?t1" by (rule compacting_manifest [OF c])
  note st = write_started_records [OF w c1]
  show ?pend if "jd_list_id ?j = JOB_LIST_PEND" using that new by (simp add: job_records_def Let_def)
  show ?run if l: "jd_list_id ?j = JOB_LIST_RUN"
  proof -
    have "jd_dispatch_time ?j \<noteq> 0" using l time by (simp add: times_ok_def)
    from st [OF this] show ?thesis
      using l by (simp add: compact_running_def new compacting_simps [OF c] job_records_def Let_def)
  qed
  show ?fin if l: "jd_list_id ?j = JOB_LIST_FINISH"
  proof -
    have f: "compact_write_job_finish p u = Inr (u\<lparr>manifest := manifest u @ [finish_record ?j]\<rparr>)"
      if "job_heap u = job_heap s" for u
      unfolding compact_write_job_finish_def that
      by (rule log_append_ok) (use l time in \<open>simp add: finish_record_def times_ok_def\<close>)
    show ?thesis
      using l st f by (cases "jd_dispatch_time ?j = 0")
        (simp_all add: compact_write_job_finished_def new compacting_simps [OF c] job_records_def Let_def)
  qed
qed

lemma write_all_records:
  assumes "\<And>p t. p \<in> set ps \<Longrightarrow> compacting s t \<Longrightarrow> f p t = Inr (t\<lparr>manifest := manifest t @ job_records s p\<rparr>)"
    and "compacting s t"
  shows "foldE f ps t = Inr (t\<lparr>manifest := manifest t @ concat (map (job_records s) ps)\<rparr>)"
  using assms by (induction ps arbitrary: t) (simp_all add: compacting_manifest)

section \<open>Dropping a finished job\<close>

definition dropped :: "jptr \<Rightarrow> mbd \<Rightarrow> mbd" where
  "dropped p s = s\<lparr>job_lists := (job_lists s)(JOB_LIST_FINISH := remove1 p (job_lists s JOB_LIST_FINISH)),
     job_id_hash := snd (ll_hash_remove (job_id_hash s) (fmt_ld (jd_job_id (job_heap s p))))\<rparr>"

lemma dropped_fields [simp]:
  "job_heap (dropped p s) = job_heap s" "host_heap (dropped p s) = host_heap s" "host_list (dropped p s) = host_list s"
  "queue_heap (dropped p s) = queue_heap s" "queue_list (dropped p s) = queue_list s"
  "pool_heap (dropped p s) = pool_heap s" "token_pool_list (dropped p s) = token_pool_list s"
  "token_pool_name_hash (dropped p s) = token_pool_name_hash s" "queue_name_hash (dropped p s) = queue_name_hash s"
  "job_fresh (dropped p s) = job_fresh s" "job_id_seq (dropped p s) = job_id_seq s"
  "manifest (dropped p s) = manifest s" "archives (dropped p s) = archives s"
  "job_lists (dropped p s) = (job_lists s)(JOB_LIST_FINISH := remove1 p (job_lists s JOB_LIST_FINISH))"
  "job_id_hash (dropped p s) = snd (ll_hash_remove (job_id_hash s) (fmt_ld (jd_job_id (job_heap s p))))"
  by (simp_all add: dropped_def)

lemma dropped_jobs:
  assumes "p \<in> set (job_lists s JOB_LIST_FINISH)"
  shows "mset (all_jobs s) = add_mset p (mset (all_jobs (dropped p s)))"
  using assms by (simp add: all_jobs_def)

lemma dropped_load:
  assumes "p \<in> set (job_lists s JOB_LIST_FINISH)" and "w (job_heap s p) = 0"
  shows "load (dropped p s) w = load s w"
proof -
  have "load s w = tally (\<lambda>x. w (job_heap s x)) (p # all_jobs (dropped p s))"
    unfolding load_def by (rule tally_mset) (simp add: dropped_jobs [OF assms(1)])
  then show ?thesis using assms(2) by (simp add: load_def)
qed

lemma dropped_inv:
  assumes inv: "mbd_inv s" and p: "p \<in> set (job_lists s JOB_LIST_FINISH)"
  shows "mbd_inv (dropped p s)"
proof -
  let ?t = "dropped p s" and ?k = "fmt_ld (jd_job_id (job_heap s p))"
  have wf: "ll_hash_wf (job_id_hash s)" using inv by (simp add: mbd_inv_def table_agrees_def)
  have ds: "distinct (all_jobs s)" using inv by (simp add: mbd_inv_def lists_ok_def)
  have ms: "mset (all_jobs s) = add_mset p (mset (all_jobs ?t))" by (rule dropped_jobs [OF p])
  have "distinct (p # all_jobs ?t)"
    using ds ms by (metis mset.simps(2) mset_eq_imp_distinct_iff)
  moreover have "set (all_jobs s) = insert p (set (all_jobs ?t))"
    using ms by (metis set_mset_add_mset_insert set_mset_mset)
  ultimately have st: "set (all_jobs ?t) = set (all_jobs s) - {p}" "distinct (all_jobs ?t)" by auto
  have l: "jd_list_id (job_heap s p) = JOB_LIST_FINISH" using inv p by (simp add: mbd_inv_def lists_ok_def)
  have pa: "p \<in> set (all_jobs s)" using p by (simp add: all_jobs_def)
  have "x \<in> set (job_lists ?t i) \<Longrightarrow> x \<in> set (job_lists s i)" for x i
    using set_remove1_subset [of p "job_lists s JOB_LIST_FINISH"] by (auto split: if_splits)
  then have "lists_ok ?t" using inv st(2) by (auto simp: mbd_inv_def lists_ok_def simp del: dropped_fields(14))
  moreover have "table_agrees ?t"
  proof -
    have se: "ll_hash_search (job_id_hash ?t) k = (if k = ?k then None else ll_hash_search (job_id_hash s) k)" for k
      by (simp add: ht.search_abs wf ht.remove_wf ht.remove_abs)
    have "ll_hash_contains (job_id_hash ?t) k \<longleftrightarrow> k \<noteq> ?k \<and> ll_hash_contains (job_id_hash s) k" for k
      by (simp add: ht.contains_abs wf ht.remove_wf ht.remove_abs)
    moreover have "job_find ?t i = Some x \<longleftrightarrow> x \<in> set (all_jobs ?t) \<and> jd_job_id (job_heap s x) = i" for i x
    proof -
      have tab: "job_find s k = Some y \<longleftrightarrow> y \<in> set (all_jobs s) \<and> jd_job_id (job_heap s y) = k" for k y
        using inv by (simp add: mbd_inv_def table_agrees_def)
      have "job_find ?t i = (if i = jd_job_id (job_heap s p) then None else job_find s i)"
        by (simp add: job_find_def se del: dropped_fields(15))
      moreover have "jd_job_id (job_heap s x) = jd_job_id (job_heap s p) \<Longrightarrow> x \<in> set (all_jobs s) \<Longrightarrow> x = p"
        using tab [of "jd_job_id (job_heap s p)" x] tab [of "jd_job_id (job_heap s p)" p] pa by simp
      ultimately show ?thesis using tab [of i x] by (auto simp: st(1))
    qed
    ultimately show ?thesis
      using inv st(1) ht.remove_wf [OF wf, of ?k, folded dropped_fields(15)]
      by (auto simp: mbd_inv_def table_agrees_def se simp del: dropped_fields(14,15))
  qed
  moreover have "q_weight c q (job_heap s p) = 0" "h_weight d h (job_heap s p) = 0"
    "t_weight tn r (job_heap s p) = 0" for c q d h tn r
    by (cases c; simp add: q_weight_def l) (simp_all add: h_weight_def t_weight_def l)
  then have "counters_ok ?t" using inv by (simp add: mbd_inv_def counters_ok_def dropped_load [OF p])
  ultimately show ?thesis using inv st(1) by (auto simp: mbd_inv_def names_ok_def)
qed


section \<open>A compaction keeps the invariant\<close>

lemma compacting_dropped: "compacting s t \<Longrightarrow> compacting s (dropped p t)"
proof -
  assume "compacting s t"
  then obtain l h a m where "t = s\<lparr>job_lists := l, job_id_hash := h, archives := a, manifest := m\<rparr>"
    by (auto simp: compacting_def)
  then have "dropped p t = s\<lparr>job_lists := l(JOB_LIST_FINISH := remove1 p (l JOB_LIST_FINISH)),
      job_id_hash := snd (ll_hash_remove h (fmt_ld (jd_job_id (job_heap s p)))), archives := a, manifest := m\<rparr>"
    by (simp add: dropped_def)
  then show ?thesis unfolding compacting_def by blast
qed

lemma compact_finished_step:
  assumes "mbd_inv t" and "compacting s t" and "writable s p" and "p \<in> set (job_lists t JOB_LIST_FINISH)"
  shows "compact_finished p t = Inr (if retained (job_heap s p) then t\<lparr>manifest := manifest t @ job_records s p\<rparr>
    else dropped p t)"
proof -
  have jh: "job_heap t = job_heap s" by (rule compacting_simps [OF assms(2)])
  have l: "jd_list_id (job_heap s p) = JOB_LIST_FINISH"
    using assms(1,4) by (simp add: mbd_inv_def lists_ok_def jh)
  have "job_find t (jd_job_id (job_heap t p)) = Some p"
    using assms(1,4) by (simp add: mbd_inv_def table_agrees_def all_jobs_def)
  moreover have "ll_hash_wf (job_id_hash t)" using assms(1) by (simp add: mbd_inv_def table_agrees_def)
  ultimately have "fst (ll_hash_remove (job_id_hash t) (fmt_ld (jd_job_id (job_heap s p)))) = Some p"
    by (simp add: ht.remove_value job_find_def jh)
  then show ?thesis
    using write_records(3) [OF assms(3,2) l]
    by (auto simp: compact_finished_def jh dropped_def split_beta res_simps)
qed

lemma compact_all_finished:
  assumes "mbd_inv t" and "compacting s t" and "\<And>p. p \<in> set ps \<Longrightarrow> writable s p"
    and "distinct ps" and "set ps \<subseteq> set (job_lists t JOB_LIST_FINISH)"
  shows "\<exists>u. foldE compact_finished ps t = Inr u \<and> mbd_inv u \<and> compacting s u \<and> archives u = archives t \<and>
    job_lists u = (job_lists t)(JOB_LIST_FINISH :=
      filter (\<lambda>p. p \<in> set ps \<longrightarrow> retained (job_heap s p)) (job_lists t JOB_LIST_FINISH)) \<and>
    manifest u = manifest t @ concat (map (job_records s) (filter (\<lambda>p. retained (job_heap s p)) ps))"
  using assms
proof (induction ps arbitrary: t)
  case Nil
  then show ?case by simp
next
  case (Cons p ps)
  let ?l = "job_lists t JOB_LIST_FINISH"
  define u where "u = (if retained (job_heap s p) then t\<lparr>manifest := manifest t @ job_records s p\<rparr> else dropped p t)"
  have p: "p \<in> set ?l" using Cons.prems(5) by simp
  have step: "compact_finished p t = Inr u"
    unfolding u_def by (rule compact_finished_step [OF Cons.prems(1,2) _ p]) (use Cons.prems(3) in simp)
  have d: "distinct ?l" using Cons.prems(1) by (simp add: mbd_inv_def lists_ok_def all_jobs_def)
  have inv: "mbd_inv u" using Cons.prems(1) dropped_inv [OF Cons.prems(1) p] by (simp add: u_def)
  have c: "compacting s u" using Cons.prems(2) by (simp add: u_def compacting_manifest compacting_dropped)
  have lu: "job_lists u = (job_lists t)(JOB_LIST_FINISH := filter (\<lambda>x. x = p \<longrightarrow> retained (job_heap s p)) ?l)"
    using d by (auto simp: u_def distinct_remove1_removeAll removeAll_filter_not_eq intro!: filter_cong)
  have sub: "set ps \<subseteq> set (job_lists u JOB_LIST_FINISH)"
    using Cons.prems(4,5) by (auto simp: lu)
  obtain v where v: "foldE compact_finished ps u = Inr v" "mbd_inv v" "compacting s v" "archives v = archives u"
    "job_lists v = (job_lists u)(JOB_LIST_FINISH :=
      filter (\<lambda>p. p \<in> set ps \<longrightarrow> retained (job_heap s p)) (job_lists u JOB_LIST_FINISH))"
    "manifest v = manifest u @ concat (map (job_records s) (filter (\<lambda>p. retained (job_heap s p)) ps))"
    using Cons.IH [OF inv c _ _ sub] Cons.prems(3,4) by force
  have fe: "filter (\<lambda>x. x \<in> set ps \<longrightarrow> retained (job_heap s x)) (filter (\<lambda>x. x = p \<longrightarrow> retained (job_heap s p)) ?l) =
      filter (\<lambda>x. x \<in> set (p # ps) \<longrightarrow> retained (job_heap s x)) ?l"
    unfolding filter_filter by (rule filter_cong) auto
  have "job_lists v = (job_lists t)(JOB_LIST_FINISH := filter (\<lambda>x. x \<in> set (p # ps) \<longrightarrow> retained (job_heap s x)) ?l)"
    unfolding v(5) lu fun_upd_same fe fun_upd_upd ..
  moreover have "manifest v = manifest t @ concat (map (job_records s) (filter (\<lambda>p. retained (job_heap s p)) (p # ps)))"
    "archives v = archives t" by (simp_all add: v(4,6) u_def)
  ultimately show ?case using step v(1-3) by (intro exI [of _ v] conjI) simp_all
qed

lemma manifest_rebuild_step:
  assumes inv: "mbd_inv s" and time: "\<forall>p \<in> set (all_jobs s). times_ok (job_heap s p)"
  shows "\<exists>t. manifest_rebuild s = Inr t \<and> mbd_inv t \<and> compacting s t \<and>
    archives t = archives s @ [manifest s] \<and>
    job_lists t = (job_lists s)(JOB_LIST_FINISH :=
      filter (\<lambda>p. retained (job_heap s p)) (job_lists s JOB_LIST_FINISH)) \<and>
    manifest t = concat (map (job_records s) (all_jobs t))"
proof -
  have w: "writable s p" if "p \<in> set (all_jobs s)" for p
    using that inv time by (auto simp: writable_def mbd_inv_def)
  have li: "p \<in> set (job_lists s l) \<Longrightarrow> jd_list_id (job_heap s p) = l" for p l
    using inv by (simp add: mbd_inv_def lists_ok_def)
  let ?P = "job_lists s JOB_LIST_PEND" and ?R = "job_lists s JOB_LIST_RUN" and ?F = "job_lists s JOB_LIST_FINISH"
  let ?r = "\<lambda>ps. concat (map (job_records s) ps)"
  define s0 where "s0 = s\<lparr>archives := archives s @ [manifest s], manifest := []\<rparr>"
  have c0: "compacting s s0"
    unfolding s0_def compacting_def
    by (rule exI [of _ "job_lists s"], rule exI [of _ "job_id_hash s"], rule exI [of _ "archives s @ [manifest s]"],
        rule exI [of _ "[]"]) simp
  define s1 where "s1 = s0\<lparr>manifest := ?r ?P\<rparr>"
  have "foldE compact_write_job_new ?P s0 = Inr s1"
    unfolding s1_def by (subst write_all_records [OF _ c0])
      (use write_records(1) w li in \<open>simp_all add: all_jobs_def s0_def\<close>)
  moreover define s2 where "s2 = s0\<lparr>manifest := ?r (?P @ ?R)\<rparr>"
  have c1: "compacting s s1" unfolding s1_def by (rule compacting_manifest [OF c0])
  have "foldE compact_running ?R s1 = Inr s2"
    unfolding s2_def by (subst write_all_records [OF _ c1])
      (use write_records(2) w li in \<open>simp_all add: all_jobs_def s1_def\<close>)
  moreover have c2: "compacting s s2" unfolding s2_def by (rule compacting_manifest [OF c0])
  have "mbd_inv s2" using inv by (simp add: s2_def s0_def)
  moreover have "distinct ?F" using inv by (simp add: mbd_inv_def lists_ok_def all_jobs_def)
  ultimately obtain u where "foldE compact_finished ?F s2 = Inr u" "mbd_inv u" "compacting s u"
    "archives u = archives s2" "job_lists u = (job_lists s2)(JOB_LIST_FINISH :=
      filter (\<lambda>p. p \<in> set ?F \<longrightarrow> retained (job_heap s p)) (job_lists s2 JOB_LIST_FINISH))"
    "manifest u = manifest s2 @ ?r (filter (\<lambda>p. retained (job_heap s p)) ?F)"
    using compact_all_finished [OF _ c2, of ?F] w by (auto simp: all_jobs_def s2_def s0_def)
  moreover have "filter (\<lambda>p. p \<in> set ?F \<longrightarrow> retained (job_heap s p)) ?F = filter (\<lambda>p. retained (job_heap s p)) ?F"
    by (rule filter_cong) simp_all
  ultimately show ?thesis
    using \<open>foldE compact_write_job_new ?P s0 = Inr s1\<close> \<open>foldE compact_running ?R s1 = Inr s2\<close>
    by (simp add: manifest_rebuild_def s0_def [symmetric]) (simp add: s2_def s0_def all_jobs_def)
qed

end
