(* ===== verification/Mbd_Net.thy ===== *)
theory Mbd_Net
  imports Mbd_Compact
begin

text \<open>
  The way of a message into the master daemon (\<open>src/batch/mbd/net.c\<close>, \<open>mbd_sbd_route\<close> of
  \<open>sbd.c\<close>) and the body of the main loop (\<open>mbd.c\<close>). A channel that is ready delivers an
  error, nothing, a header that does not decode, or a packet; a packet holds its operation
  and version, the identity of the sender, and what the decoder of each payload would return.
  Whether the header is signed with the cluster's key is a parameter. The theory puts the
  handlers together: from a state of the daemon that is in order, no sequence of events
  makes it fail.
\<close>

section \<open>Model\<close>

definition all_batch_ops :: "batch_op list" where
  "all_batch_ops =
    [BATCH_JOB_SUBMIT, BATCH_JOB_SUBMIT_ACK, BATCH_JOB_SIGNAL, BATCH_JOB_SIGNAL_ACK,
     BATCH_JOB_INFO, BATCH_JOB_INFO_ACK, BATCH_HOST_INFO, BATCH_HOST_INFO_ACK,
     BATCH_QUEUE_INFO, BATCH_QUEUE_INFO_ACK, BATCH_GROUP_INFO, BATCH_GROUP_INFO_ACK,
     BATCH_SBD_REGISTER, BATCH_SBD_REGISTER_ACK, BATCH_TOKEN_INFO, BATCH_TOKEN_INFO_ACK,
     BATCH_NEW_JOB, BATCH_NEW_JOB_REPLY, BATCH_NEW_JOB_REPLY_ACK, BATCH_JOB_FINISH,
     BATCH_JOB_FINISH_ACK, BATCH_SBD_JOB_SIGNAL, BATCH_SBD_JOB_SIGNAL_REPLY, BATCH_JOB_MISSING,
     BATCH_QUEUE_ADMIN, BATCH_QUEUE_ADMIN_ACK, BATCH_HOST_ADMIN, BATCH_HOST_ADMIN_ACK,
     BATCH_JOB_MOVE, BATCH_JOB_MOVE_ACK, BATCH_JOB_PRIORITY, BATCH_JOB_PRIORITY_ACK]"

text \<open>The enumeration counts from one.\<close>

definition batch_op_of :: "int \<Rightarrow> batch_op option" where
  "batch_op_of n = (if 1 \<le> n \<and> n \<le> int (length all_batch_ops) then Some (all_batch_ops ! nat (n - 1)) else None)"

definition valid_batch_op :: "int \<Rightarrow> bool" where
  "valid_batch_op n \<longleftrightarrow> batch_op_of n \<noteq> None"

definition CURRENT_PROTOCOL_VERSION :: int where "CURRENT_PROTOCOL_VERSION = 0x00020000"

record packet =
  pk_operation :: int
  pk_version :: int
  pk_hdr :: wire_hdr
  pk_submit :: "wire_job_submit option"
  pk_script :: "string option"
  pk_sig :: "wire_job_sig option"
  pk_query :: "wire_job_query option"
  pk_register :: "string option"
  pk_queue_admin :: "wire_queue_admin option"
  pk_host_admin :: "wire_host_admin option"
  pk_move :: "wire_job_move option"
  pk_priority :: "wire_job_priority option"
  pk_reply :: "wire_job_reply option"
  pk_finish :: "wire_job_finish option"
  pk_state :: "wire_job_state option"

datatype input = Chan_error | Dequeue_failed | Bad_header | Packet packet

text \<open>The checks every packet passes before its operation is looked at.\<close>

definition packet_ok :: "(packet \<Rightarrow> bool) \<Rightarrow> packet \<Rightarrow> bool" where
  "packet_ok auth pk \<longleftrightarrow> valid_batch_op (pk_operation pk) \<and> auth pk \<and> pk_version pk = CURRENT_PROTOCOL_VERSION"

definition shut_on_failure :: "int \<Rightarrow> bool \<times> mbd \<Rightarrow> mbd" where
  "shut_on_failure chan r = (if fst r then snd r else chan_shutdown chan (snd r))"

definition route_op :: "env \<Rightarrow> int \<Rightarrow> packet \<Rightarrow> batch_op \<Rightarrow> mbd \<Rightarrow> crash + mbd" where
  "route_op e chan pk op s =
     (let shut = (\<lambda>r. bindE r (\<lambda>x. Inr (shut_on_failure chan x))) in
      case op of
        BATCH_JOB_SUBMIT \<Rightarrow> job_register e (pk_submit pk) (pk_script pk) chan (pk_hdr pk) s
      | BATCH_JOB_SIGNAL \<Rightarrow> shut (jobs_signal e (pk_sig pk) chan (pk_hdr pk) s)
      | BATCH_GROUP_INFO \<Rightarrow> shut (Inr (host_group_info e chan s))
      | BATCH_QUEUE_INFO \<Rightarrow> shut (queues_info e chan s)
      | BATCH_JOB_INFO \<Rightarrow> shut (jobs_info e (pk_query pk) chan (pk_hdr pk) s)
      | BATCH_HOST_INFO \<Rightarrow> shut (Inr (hosts_info e chan s))
      | BATCH_SBD_REGISTER \<Rightarrow> shut (mbd_sbd_register e (pk_register pk) chan s)
      | BATCH_TOKEN_INFO \<Rightarrow> Inr (snd (tokens_info e chan s))
      | BATCH_QUEUE_ADMIN \<Rightarrow> Inr (snd (queue_admin e (pk_queue_admin pk) chan (pk_hdr pk) s))
      | BATCH_HOST_ADMIN \<Rightarrow> shut (Inr (host_admin e (pk_host_admin pk) chan (pk_hdr pk) s))
      | BATCH_JOB_MOVE \<Rightarrow> shut (job_move e (pk_move pk) chan (pk_hdr pk) s)
      | BATCH_JOB_PRIORITY \<Rightarrow> shut (job_priority e (pk_priority pk) chan (pk_hdr pk) s)
      | _ \<Rightarrow> Inr s)"

definition route :: "(packet \<Rightarrow> bool) \<Rightarrow> env \<Rightarrow> int \<Rightarrow> input \<Rightarrow> mbd \<Rightarrow> crash + mbd" where
  "route auth e chan i s =
     (case i of
        Chan_error \<Rightarrow> Inr (chan_shutdown chan s)
      | Dequeue_failed \<Rightarrow> Inr (chan_shutdown chan s)
      | Bad_header \<Rightarrow> Inr (chan_shutdown chan s)
      | Packet pk \<Rightarrow>
          (case batch_op_of (pk_operation pk) of
             None \<Rightarrow> Inr (chan_shutdown chan s)
           | Some op \<Rightarrow>
               if \<not> auth pk then Inr (chan_shutdown chan s)
               else if pk_version pk \<noteq> CURRENT_PROTOCOL_VERSION then Inr (chan_shutdown chan s)
               else route_op e chan pk op s))"

definition mbd_sbd_op :: "env \<Rightarrow> hptr \<Rightarrow> packet \<Rightarrow> batch_op \<Rightarrow> mbd \<Rightarrow> crash + mbd" where
  "mbd_sbd_op e n pk op s =
     (case op of
        BATCH_NEW_JOB_REPLY \<Rightarrow> mbd_new_job_reply e n (pk_reply pk) s
      | BATCH_JOB_FINISH \<Rightarrow> mbd_job_finish e n (pk_finish pk) s
      | BATCH_SBD_JOB_SIGNAL_REPLY \<Rightarrow> mbd_job_signal_reply n (pk_sig pk) (pk_hdr pk) s
      | BATCH_JOB_MISSING \<Rightarrow> mbd_job_missing e n (pk_state pk) s
      | _ \<Rightarrow> Inr s)"

text \<open>Only an error of the channel detaches the host; the other failures close the channel alone.\<close>

definition mbd_sbd_route :: "(packet \<Rightarrow> bool) \<Rightarrow> env \<Rightarrow> hptr \<Rightarrow> input \<Rightarrow> mbd \<Rightarrow> crash + mbd" where
  "mbd_sbd_route auth e n i s =
     (let chan_id = mh_sbd_chan (host_heap s n) in
      case i of
        Chan_error \<Rightarrow> Inr (mbd_sbd_disconnect n s)
      | Dequeue_failed \<Rightarrow> Inr (chan_shutdown chan_id s)
      | Bad_header \<Rightarrow> Inr (chan_shutdown chan_id s)
      | Packet pk \<Rightarrow>
          (case batch_op_of (pk_operation pk) of
             None \<Rightarrow> Inr (chan_shutdown chan_id s)
           | Some op \<Rightarrow>
               if \<not> auth pk then Inr (chan_shutdown chan_id s)
               else if pk_version pk \<noteq> CURRENT_PROTOCOL_VERSION then Inr (chan_shutdown chan_id s)
               else mbd_sbd_op e n pk op s))"

definition mbd_message :: "(packet \<Rightarrow> bool) \<Rightarrow> env \<Rightarrow> int \<Rightarrow> input \<Rightarrow> mbd \<Rightarrow> crash + mbd" where
  "mbd_message auth e chan i s =
     (case ll_hash_search (sbd_chan_hash s) (fmt_ld chan) of
        Some n \<Rightarrow> bindE (assertE Assert_failed (mh_sbd_chan (host_heap s n) = chan)) (\<lambda>_.
          mbd_sbd_route auth e n i s)
      | None \<Rightarrow> route auth e chan i s)"

text \<open>
  One event of the main loop. Accepting a connection changes nothing of this state: the
  channel is registered with the operating system or closed again.
\<close>

datatype event = Timer | Accept | Readable int input

definition mbd_event :: "(packet \<Rightarrow> bool) \<Rightarrow> env \<Rightarrow> event \<Rightarrow> mbd \<Rightarrow> crash + mbd" where
  "mbd_event auth e ev s =
     (case ev of
        Timer \<Rightarrow> bindE (schedule e s) maybe_rebuild_manifest
      | Accept \<Rightarrow> Inr s
      | Readable chan i \<Rightarrow> mbd_message auth e chan i s)"

section \<open>Operation codes\<close>

lemma batch_op_of_code: "n < 32 \<Longrightarrow> batch_op_of (int n + 1) = Some (all_batch_ops ! n)"
  by (simp add: batch_op_of_def all_batch_ops_def)

lemma all_batch_ops_complete: "op \<in> set all_batch_ops"
  by (cases op) (simp_all add: all_batch_ops_def)

lemma all_batch_ops_distinct: "distinct all_batch_ops" "length all_batch_ops = 32"
  by (simp_all add: all_batch_ops_def)

section \<open>A daemon in order\<close>

definition tables_wf :: "mbd \<Rightarrow> bool" where
  "tables_wf s \<longleftrightarrow> (\<forall>q \<in> set (queue_list s). ll_hash_wf (mq_host_hash (queue_heap s q)) \<and>
     ll_hash_wf (mq_user_hash (queue_heap s q)))"

definition jobs_fine :: "mbd \<Rightarrow> bool" where
  "jobs_fine s \<longleftrightarrow> (\<forall>p \<in> set (all_jobs s). times_ok (job_heap s p) \<and> jr_num_gpus (jd_res (job_heap s p)) \<le> 0)"

definition daemon_ok :: "mbd \<Rightarrow> bool" where
  "daemon_ok s \<longleftrightarrow> mbd_inv s \<and> arrays_ok s \<and> conn_ok s \<and> tables_wf s \<and> jobs_fine s \<and>
     (\<forall>h \<in> set (host_list s). mh_sbd_chan (host_heap s h) \<noteq> 0)"

lemma conn_ok_keeps: "conn_ok s \<Longrightarrow> keeps s t \<Longrightarrow> conn_ok t"
  by (simp add: conn_ok_def keeps_def)

lemma daemon_keeps:
  assumes "daemon_ok s" and "mbd_inv t" and "keeps s t"
  shows "daemon_ok t"
proof -
  have "arrays_ok t" "conn_ok t" using assms arrays_ok_keeps conn_ok_keeps by (auto simp: daemon_ok_def)
  moreover have "tables_wf t" using assms(1,3) by (simp add: daemon_ok_def tables_wf_def keeps_def)
  moreover have "jobs_fine t"
    using assms(1,3) by (simp add: daemon_ok_def jobs_fine_def keeps_def array_same_def)
  ultimately show ?thesis using assms by (simp add: daemon_ok_def keeps_def)
qed

lemma daemon_io [simp]:
  "daemon_ok (s\<lparr>outq := a\<rparr>) = daemon_ok s" "daemon_ok (chan_shutdown c s) = daemon_ok s"
  by (simp_all add: daemon_ok_def arrays_ok_def tables_wf_def jobs_fine_def all_jobs_def chan_shutdown_def)

lemma daemon_shut: "daemon_ok (snd r) \<Longrightarrow> daemon_ok (shut_on_failure c r)"
  by (simp add: shut_on_failure_def)

lemma daemon_held:
  assumes "daemon_ok s" and "p \<in> set (job_lists s JOB_LIST_RUN)"
  shows "held s p"
proof -
  have "jr_num_gpus (jd_res (job_heap s p)) \<le> 0" using assms by (simp add: daemon_ok_def jobs_fine_def all_jobs_def)
  then show ?thesis by (simp add: held_def gpus_held_def)
qed

section \<open>Registration\<close>

text \<open>What a decoded submission is assumed to hold: no devices, and a range that does not overflow.\<close>

definition submit_fits :: "wire_job_submit \<Rightarrow> bool" where
  "submit_fits ws \<longleftrightarrow> 0 \<le> ws_num_cpus ws \<and> ws_num_gpus ws \<le> 0 \<and>
     in_s32 (ws_array_start ws) \<and> in_s32 (ws_array_end ws + ws_array_stride ws)"

lemma daemon_frame:
  assumes ok: "daemon_ok s" and inv: "mbd_inv t" and fr: "reg_frame s t"
    and new: "\<And>p. p \<in> set (all_jobs t) \<Longrightarrow> p \<notin> set (all_jobs s) \<Longrightarrow>
      head_ok (job_heap t p) \<and> times_ok (job_heap t p) \<and> jr_num_gpus (jd_res (job_heap t p)) \<le> 0"
  shows "daemon_ok t"
proof -
  have old: "array_same (job_heap s p) (job_heap t p)" if "p \<in> set (all_jobs s)" for p
  proof -
    have "p < job_fresh s"
      using that ok all_jobs_set [of p s] by (auto simp: daemon_ok_def mbd_inv_def lists_ok_def)
    then show ?thesis using fr minor_array_same by (simp add: reg_frame_def)
  qed
  have jobs: "head_ok (job_heap t p) \<and> times_ok (job_heap t p) \<and> jr_num_gpus (jd_res (job_heap t p)) \<le> 0"
    if "p \<in> set (all_jobs t)" for p
  proof (cases "p \<in> set (all_jobs s)")
    case True
    then have "head_ok (job_heap s p)" "times_ok (job_heap s p)" "jr_num_gpus (jd_res (job_heap s p)) \<le> 0"
      using ok by (simp_all add: daemon_ok_def arrays_ok_def jobs_fine_def)
    then show ?thesis using old [OF True] by (simp add: array_same_def head_ok_def)
  qed (use new that in blast)
  have "conn_ok t" using ok fr by (simp add: daemon_ok_def conn_ok_def reg_frame_def)
  then show ?thesis
    using ok inv fr jobs by (simp add: daemon_ok_def arrays_ok_def tables_wf_def jobs_fine_def reg_frame_def)
qed

lemma element_fine:
  assumes el: "element_ok e ws hdr s (submit_range ws) k j" and fits: "submit_fits ws" and env: "env_ok e"
    and seq: "0 \<le> job_id_seq s"
    and stride: "has_flag (ws_flags ws) JOB_FLAG_ARRAY \<Longrightarrow> 0 < ws_array_stride ws"
  shows "head_ok j \<and> times_ok j \<and> jr_num_gpus (jd_res j) \<le> 0"
proof (cases "has_flag (ws_flags ws) JOB_FLAG_ARRAY")
  case True
  then have r: "submit_range ws = (ws_array_start ws, ws_array_end ws, ws_array_stride ws)" by (simp add: submit_range_def)
  have "jd_job_id j = jd_array_id j \<Longrightarrow> k = 0" using el True r by (simp add: element_ok_def)
  then show ?thesis
    using el True fits env stride by (auto simp: r element_ok_def head_ok_def times_ok_def submit_fits_def env_ok_def in_s32_def)
next
  case False
  then show ?thesis
    using el fits env seq by (auto simp: element_ok_def head_ok_def times_ok_def submit_fits_def env_ok_def split: prod.splits)
qed

lemma register_daemon:
  assumes ok: "daemon_ok s" and env: "env_ok e" and fits: "\<And>ws. dw = Some ws \<Longrightarrow> submit_fits ws"
  shows "\<exists>t. job_register e dw ds chan hdr s = Inr t \<and> daemon_ok t"
proof (cases "\<exists>ws script. dw = Some ws \<and> ds = Some script")
  case False
  then have "job_register e dw ds chan hdr s = Inr (chan_shutdown chan s)"
    by (cases dw; cases ds) (simp_all add: job_register_def)
  then show ?thesis using ok by simp
next
  case True
  then obtain ws script where d: "dw = Some ws" "ds = Some script" by blast
  note f = fits [OF d(1)]
  have inv: "mbd_inv s" using ok by (simp add: daemon_ok_def)
  have cpus: "0 \<le> ws_num_cpus ws" using f by (simp add: submit_fits_def)
  obtain t where t: "job_register e dw ds chan hdr s = Inr t"
    using job_register_total [OF inv cpus env, of script chan hdr] f d by (auto simp: submit_fits_def)
  have out: "mbd_inv t" "refused chan s t \<or> (\<exists>ps. accepted e ws chan hdr s ps t)"
    using job_register_outcome [OF inv cpus t [unfolded d]] by auto
  from out(2) have "daemon_ok t"
  proof (elim disjE exE)
    assume r: "refused chan s t"
    then have "all_jobs t = all_jobs s" by (simp add: refused_def all_jobs_def)
    then show ?thesis using r by (intro daemon_frame [OF ok out(1)]) (simp_all add: refused_def)
  next
    fix ps assume a: "accepted e ws chan hdr s ps t"
    obtain start fin stride where rng: "submit_range ws = (start, fin, stride)" by (cases "submit_range ws")
    have "start + (int (length ps) - 1) * stride < start + int (length ps) * stride"
      using a by (simp add: accepted_def rng)
    then have pos: "0 < stride" by (simp add: algebra_simps)
    have jobs: "set (all_jobs t) = set (all_jobs s) \<union> set ps"
      using a by (auto simp: accepted_def rng all_jobs_def)
    have seq: "0 \<le> job_id_seq s" using inv by (simp add: mbd_inv_def table_agrees_def)
    have "head_ok (job_heap t p) \<and> times_ok (job_heap t p) \<and> jr_num_gpus (jd_res (job_heap t p)) \<le> 0"
      if p: "p \<in> set ps" for p
    proof -
      obtain k where "k < length ps" "p = ps ! k" using p by (auto simp: in_set_conv_nth)
      then have "element_ok e ws hdr s (submit_range ws) k (job_heap t p)" using a by (simp add: accepted_def rng)
      then show ?thesis
        by (rule element_fine [OF _ f env seq]) (use pos rng in \<open>simp add: submit_range_def\<close>)
    qed
    then show ?thesis
      using a by (intro daemon_frame [OF ok out(1)]) (auto simp: jobs accepted_def rng)
  qed
  with t show ?thesis by blast
qed

section \<open>Every handler keeps the daemon in order\<close>

lemma daemon_handler:
  assumes "daemon_ok s" and "\<exists>b t. r = Inr (b, t) \<and> mbd_inv t \<and> keeps s t"
  shows "\<exists>t. bindE r (\<lambda>x. Inr (shut_on_failure chan x)) = Inr t \<and> daemon_ok t"
  using assms daemon_keeps [OF assms(1)] daemon_shut by fastforce

lemma sent_daemon: "daemon_ok s \<Longrightarrow> sent s t ms \<Longrightarrow> daemon_ok t"
  by (simp add: sent_def)

lemma admin_daemon:
  assumes ok: "daemon_ok s"
  shows "daemon_ok (snd (queue_admin e dq chan hdr s))" and "daemon_ok (snd (host_admin e dh chan hdr s))"
proof -
  have inv: "mbd_inv s" using ok by (simp add: daemon_ok_def)
  obtain u ms where u: "snd (queue_admin e dq chan hdr s) = u\<lparr>outq := outq u @ ms\<rparr>"
    "u = s \<or> is_manager s (wh_uid hdr) \<and> (\<exists>req q. dq = Some req \<and>
        ll_hash_search (queue_name_hash s) (wqa_name req) = Some q \<and> u = set_queue e q (wqa_op req) s)"
    by (rule queue_admin_result [of e dq chan hdr s])
  have "daemon_ok u" using u(2) ok daemon_keeps [OF ok] set_queue_inv [of s e] inv by auto
  then show "daemon_ok (snd (queue_admin e dq chan hdr s))" by (simp add: u(1))
  obtain v ns where v: "snd (host_admin e dh chan hdr s) = v\<lparr>outq := outq v @ ns\<rparr>"
    "v = s \<or> is_manager s (wh_uid hdr) \<and> (\<exists>req h. dh = Some req \<and>
        ll_hash_search (host_name_hash s) (wha_name req) = Some h \<and> v = set_host e h (wha_op req = uint HOST_CLOSED) s)"
    by (rule host_admin_result [of e dh chan hdr s])
  have "daemon_ok v" using v(2) ok daemon_keeps [OF ok] set_host_inv [of s e] inv by auto
  then show "daemon_ok (snd (host_admin e dh chan hdr s))" by (simp add: v(1))
qed


text \<open>Attaching and detaching a host: the jobs and the tables of the queues stay as they are.\<close>

lemma daemon_link:
  assumes "daemon_ok s" and "mbd_inv t" and "conn_ok t" and "job_heap t = job_heap s" and "job_lists t = job_lists s"
    and "queue_heap t = queue_heap s" and "queue_list t = queue_list s"
    and "\<And>h. h \<in> set (host_list t) \<Longrightarrow> mh_sbd_chan (host_heap t h) \<noteq> 0"
  shows "daemon_ok t"
  using assms by (simp add: daemon_ok_def arrays_ok_def tables_wf_def jobs_fine_def all_jobs_def)

lemma disconnect_daemon:
  assumes "daemon_ok s" and "n \<in> set (host_list s)"
  shows "daemon_ok (mbd_sbd_disconnect n s)"
proof (rule daemon_link [OF assms(1)])
  show "mbd_inv (mbd_sbd_disconnect n s)" "conn_ok (mbd_sbd_disconnect n s)"
    using assms mbd_sbd_disconnect_ok by (auto simp: daemon_ok_def)
  show "mh_sbd_chan (host_heap (mbd_sbd_disconnect n s) h) \<noteq> 0" if "h \<in> set (host_list (mbd_sbd_disconnect n s))" for h
    using that assms(1) by (auto simp: mbd_sbd_disconnect_result daemon_ok_def)
qed (simp_all add: mbd_sbd_disconnect_result)

lemma attach_daemon:
  assumes ok: "daemon_ok s" and n: "n \<in> set (host_list s)" "mh_sbd_chan (host_heap s n) = - 1"
    and c: "ll_hash_search (sbd_chan_hash s) (fmt_ld c) = None" "0 < c"
  shows "daemon_ok (attach_host n c s)"
proof (rule daemon_link [OF ok])
  show "mbd_inv (attach_host n c s)" "conn_ok (attach_host n c s)"
    using attach_host_ok [OF _ _ n c(1)] ok c(2) by (auto simp: daemon_ok_def)
  show "mh_sbd_chan (host_heap (attach_host n c s) h) \<noteq> 0" if "h \<in> set (host_list (attach_host n c s))" for h
    using that ok c(2) by (auto simp: attach_host_def daemon_ok_def)
qed (simp_all add: attach_host_def)

lemma sbd_register_daemon:
  assumes ok: "daemon_ok s" and c: "ll_hash_search (sbd_chan_hash s) (fmt_ld c) = None" "0 < c"
  shows "\<exists>r. mbd_sbd_register e reg c s = Inr r \<and> daemon_ok (snd r)"
proof (cases "\<exists>name n. reg = Some name \<and> ll_hash_search (host_name_hash s) (cfield 64 name) = Some n \<and>
    mh_sbd_chan (host_heap s n) = - 1")
  case False
  then have "mbd_sbd_register e reg c s = Inr (False, chan_shutdown c s)"
    by (auto simp: mbd_sbd_register_def split: option.splits)
  then show ?thesis using ok by simp
next
  case True
  then obtain name n where n: "reg = Some name" "ll_hash_search (host_name_hash s) (cfield 64 name) = Some n"
    "mh_sbd_chan (host_heap s n) = - 1" by blast
  have inv: "mbd_inv s" "conn_ok s" using ok by (simp_all add: daemon_ok_def)
  have nl: "n \<in> set (host_list s)" by (rule conn_okD(2) [OF inv(2) n(2)])
  have at: "daemon_ok (attach_host n c s)" by (rule attach_daemon [OF ok nl n(3) c])
  moreover have "daemon_ok (mbd_sbd_disconnect n (attach_host n c s))"
    by (rule disconnect_daemon [OF at]) (use nl in \<open>simp add: attach_host_def\<close>)
  ultimately show ?thesis
    by (auto simp: n mbd_sbd_register_result [OF inv(1) n(2,3)] enqueue_payload_def)
qed

section \<open>Events\<close>

text \<open>
  What the daemon relies on when a report of an execution daemon arrives: it concerns a job
  in a state that the protocol allows for it.
\<close>

definition reports_fit :: "mbd \<Rightarrow> hptr \<Rightarrow> packet \<Rightarrow> bool" where
  "reports_fit s n pk \<longleftrightarrow>
     (\<forall>r p. pk_reply pk = Some r \<and> job_find s (wr_job_id r) = Some p \<longrightarrow>
        (if wr_state r = 1 then jd_state (job_heap s p) \<in> {JOB_PENDING, JOB_HELD, JOB_RUNNING}
         else 0 < jd_fork_time (job_heap s p) \<or> jd_state (job_heap s p) = JOB_RUNNING)) \<and>
     (\<forall>f p. pk_finish pk = Some f \<and> job_find s (wf_job_id f) = Some p \<longrightarrow>
        hd (jd_run_hosts (job_heap s p)) \<noteq> None \<and>
        (p \<in> set (job_lists s JOB_LIST_RUN) \<or> 0 < jd_end_time (job_heap s p))) \<and>
     (\<forall>sg. pk_sig pk = Some sg \<longrightarrow> reply_fits s n sg)"

definition admissible :: "env \<Rightarrow> event \<Rightarrow> mbd \<Rightarrow> bool" where
  "admissible e ev s \<longleftrightarrow> env_ok e \<and>
     (case ev of
        Timer \<Rightarrow> sched_ok e s \<and> length (job_lists s JOB_LIST_PEND) \<le> 131072
      | Accept \<Rightarrow> True
      | Readable chan i \<Rightarrow> 0 < chan \<and> (\<forall>pk. i = Packet pk \<longrightarrow>
          (case ll_hash_search (sbd_chan_hash s) (fmt_ld chan) of
             None \<Rightarrow> \<forall>ws. pk_submit pk = Some ws \<longrightarrow> submit_fits ws
           | Some n \<Rightarrow> reports_fit s n pk)))"

lemma route_op_daemon:
  assumes ok: "daemon_ok s" and env: "env_ok e" and fits: "\<And>ws. pk_submit pk = Some ws \<Longrightarrow> submit_fits ws"
    and c: "ll_hash_search (sbd_chan_hash s) (fmt_ld c) = None" "0 < c"
  shows "\<exists>t. route_op e c pk op s = Inr t \<and> daemon_ok t"
proof -
  have inv: "mbd_inv s" "arrays_ok s" "tables_wf s" using ok by (simp_all add: daemon_ok_def)
  note h = daemon_handler [OF ok, where chan = c]
  have "\<exists>t. job_register e (pk_submit pk) (pk_script pk) c (pk_hdr pk) s = Inr t \<and> daemon_ok t"
    by (rule register_daemon [OF ok env fits])
  moreover have "\<exists>t. bindE (jobs_signal e (pk_sig pk) c (pk_hdr pk) s) (\<lambda>x. Inr (shut_on_failure c x)) = Inr t \<and> daemon_ok t"
    by (rule h) (use jobs_signal_step [OF inv(1) env inv(2), unfolded steps_by_def] in blast)
  moreover have "\<exists>t. bindE (job_move e (pk_move pk) c (pk_hdr pk) s) (\<lambda>x. Inr (shut_on_failure c x)) = Inr t \<and> daemon_ok t"
    by (rule h) (use job_move_step [OF inv(1) env] in blast)
  moreover have "\<exists>t. bindE (job_priority e (pk_priority pk) c (pk_hdr pk) s) (\<lambda>x. Inr (shut_on_failure c x)) = Inr t \<and> daemon_ok t"
    by (rule h) (use job_priority_step [OF inv(1) env] in blast)
  moreover have "\<exists>t. bindE (jobs_info e (pk_query pk) c (pk_hdr pk) s) (\<lambda>x. Inr (shut_on_failure c x)) = Inr t \<and> daemon_ok t"
    using jobs_info_ok [OF inv(1,2), of e "pk_query pk" c "pk_hdr pk"] sent_daemon [OF ok] daemon_shut by fastforce
  moreover have "\<exists>t. bindE (queues_info e c s) (\<lambda>x. Inr (shut_on_failure c x)) = Inr t \<and> daemon_ok t"
    using queues_info_ok [of s e c] inv(3) sent_daemon [OF ok] daemon_shut unfolding tables_wf_def by fastforce
  moreover have "\<exists>t. bindE (mbd_sbd_register e (pk_register pk) c s) (\<lambda>x. Inr (shut_on_failure c x)) = Inr t \<and> daemon_ok t"
    using sbd_register_daemon [OF ok c, of e "pk_register pk"] daemon_shut by fastforce
  moreover have "daemon_ok (snd (host_group_info e c s))" "daemon_ok (snd (hosts_info e c s))" "daemon_ok (snd (tokens_info e c s))"
    using other_infos_sent [of s e c] sent_daemon [OF ok] by blast+
  moreover note admin_daemon [OF ok]
  ultimately show ?thesis
    using ok by (cases op) (simp_all add: route_op_def Let_def daemon_shut)
qed

lemma mbd_sbd_op_daemon:
  assumes ok: "daemon_ok s" and env: "env_ok e" and fits: "reports_fit s n pk"
  shows "\<exists>t. mbd_sbd_op e n pk op s = Inr t \<and> daemon_ok t"
proof -
  have inv: "mbd_inv s" using ok by (simp add: daemon_ok_def)
  have "\<exists>t. mbd_new_job_reply e n (pk_reply pk) s = Inr t \<and> daemon_ok t"
    using mbd_new_job_reply_step [OF inv env daemon_held [OF ok], of "pk_reply pk" n] fits daemon_keeps [OF ok]
    unfolding reports_fit_def by blast
  moreover have "\<exists>t. mbd_job_finish e n (pk_finish pk) s = Inr t \<and> daemon_ok t"
    using mbd_job_finish_step [OF inv env daemon_held [OF ok], of "pk_finish pk" n] fits daemon_keeps [OF ok]
    unfolding reports_fit_def by blast
  moreover have "\<exists>t. mbd_job_signal_reply n (pk_sig pk) (pk_hdr pk) s = Inr t \<and> daemon_ok t"
    using mbd_job_signal_reply_step [OF inv, of "pk_sig pk" n "pk_hdr pk"] fits daemon_keeps [OF ok]
    unfolding reports_fit_def by blast
  moreover have "\<exists>t. mbd_job_missing e n (pk_state pk) s = Inr t \<and> daemon_ok t"
    using mbd_job_missing_step [OF inv env daemon_held [OF ok], of n "pk_state pk"] ok daemon_keeps [OF ok]
    unfolding back_pending_def touches_def by blast
  ultimately show ?thesis using ok by (cases op) (simp_all add: mbd_sbd_op_def)
qed

lemma message_daemon:
  assumes ok: "daemon_ok s" and adm: "admissible e (Readable c i) s"
  shows "\<exists>t. mbd_message auth e c i s = Inr t \<and> daemon_ok t"
proof (cases "ll_hash_search (sbd_chan_hash s) (fmt_ld c)")
  case None
  have "\<exists>t. route_op e c pk op s = Inr t \<and> daemon_ok t" if "i = Packet pk" for pk op
    by (rule route_op_daemon [OF ok _ _ None]) (use adm that None in \<open>auto simp: admissible_def\<close>)
  then show ?thesis
    using None ok by (auto simp: mbd_message_def route_def split: input.splits option.splits)
next
  case (Some n)
  have conn: "conn_ok s" using ok by (simp add: daemon_ok_def)
  then have n: "n \<in> set (host_list s)" "mh_sbd_chan (host_heap s n) = c"
    using Some conn_ok_search(1) [OF conn] conn_okD(3) [OF conn] by auto
  have "\<exists>t. mbd_sbd_op e n pk op s = Inr t \<and> daemon_ok t" if "i = Packet pk" for pk op
    by (rule mbd_sbd_op_daemon [OF ok]) (use adm that Some in \<open>auto simp: admissible_def\<close>)
  then show ?thesis
    using Some n ok disconnect_daemon [OF ok n(1)]
    by (auto simp: mbd_message_def mbd_sbd_route_def Let_def res_simps split: input.splits option.splits)
qed


lemma compact_daemon:
  assumes ok: "daemon_ok s"
  shows "\<exists>t. maybe_rebuild_manifest s = Inr t \<and> daemon_ok t"
proof (cases "int (length (job_lists s JOB_LIST_FINISH)) < job_finish_threshold s")
  case True
  then show ?thesis using ok by (simp add: maybe_rebuild_manifest_def)
next
  case False
  have "mbd_inv s" "\<forall>p \<in> set (all_jobs s). times_ok (job_heap s p)"
    using ok by (simp_all add: daemon_ok_def jobs_fine_def)
  from manifest_rebuild_step [OF this] obtain t where t: "manifest_rebuild s = Inr t" "mbd_inv t" "compacting s t"
    "job_lists t = (job_lists s)(JOB_LIST_FINISH :=
      filter (\<lambda>p. retained (job_heap s p)) (job_lists s JOB_LIST_FINISH))" by blast
  have sub: "set (all_jobs t) \<subseteq> set (all_jobs s)" by (auto simp: all_jobs_def t(4))
  obtain l h a m where c: "t = s\<lparr>job_lists := l, job_id_hash := h, archives := a, manifest := m\<rparr>"
    using t(3) by (auto simp: compacting_def)
  have "arrays_ok t" "tables_wf t" "jobs_fine t" "conn_ok t"
    using ok sub by (auto simp: c daemon_ok_def arrays_ok_def tables_wf_def jobs_fine_def conn_ok_def)
  then have "daemon_ok t" using ok t(2) by (simp add: daemon_ok_def) (simp add: c)
  then show ?thesis using False t(1) by (simp add: maybe_rebuild_manifest_def)
qed

lemma timer_daemon:
  assumes ok: "daemon_ok s" and adm: "admissible e Timer s"
  shows "\<exists>t. mbd_event auth e Timer s = Inr t \<and> daemon_ok t"
proof -
  obtain t where t: "schedule e s = Inr t" "mbd_inv t" "keeps s t"
    using schedule_step [of s e] ok adm by (auto simp: daemon_ok_def admissible_def)
  obtain u where "maybe_rebuild_manifest t = Inr u" "daemon_ok u"
    using compact_daemon [OF daemon_keeps [OF ok t(2,3)]] by blast
  then show ?thesis using t(1) by (simp add: mbd_event_def)
qed

lemma event_daemon:
  assumes "daemon_ok s" and "admissible e ev s"
  shows "\<exists>t. mbd_event auth e ev s = Inr t \<and> daemon_ok t"
proof (cases ev)
  case Timer
  then show ?thesis using timer_daemon assms by simp
next
  case Accept
  then show ?thesis using assms by (simp add: mbd_event_def)
next
  case (Readable c i)
  then show ?thesis using message_daemon [of s e c i auth] assms by (simp add: mbd_event_def)
qed

section \<open>Runs of the daemon\<close>

inductive reaches :: "(packet \<Rightarrow> bool) \<Rightarrow> mbd \<Rightarrow> mbd \<Rightarrow> bool" for auth s where
  start: "reaches auth s s"
| step: "reaches auth s t \<Longrightarrow> admissible e ev t \<Longrightarrow> mbd_event auth e ev t = Inr u \<Longrightarrow> reaches auth s u"

lemma reaches_ok: "reaches auth s t \<Longrightarrow> daemon_ok s \<Longrightarrow> daemon_ok t"
proof (induction rule: reaches.induct)
  case (step t e ev u)
  then show ?case using event_daemon [OF step.IH [OF step.prems] step.hyps(2), of auth] by simp
qed



text \<open>The example daemon with one attached host and the files of its pending job.\<close>

definition ex_net :: mbd where
  "ex_net = ex_mbd\<lparr>submit_files := [1 \<mapsto> ''COMMAND=run''], script_files := [1 \<mapsto> ''run''],
     host_heap := (\<lambda>h. (host_heap ex_mbd h)\<lparr>mh_sbd_chan := (if h = 0 then 7 else - 1)\<rparr>)\<rparr>"

lemma ex_net_conn: "conn_ok ex_net"
  unfolding conn_ok_def ex_net_def by (auto simp: table_of_spec)

lemma ex_net_ok: "daemon_ok ex_net"
proof -
  have inv: "mbd_inv ex_net" by (rule inv_frame [OF ex_mbd_inv]) (simp_all add: ex_net_def)
  have "arrays_ok ex_net" "tables_wf ex_net" "jobs_fine ex_net"
    using ex_arrays_ok
    by (simp_all add: ex_net_def arrays_ok_def all_jobs_def tables_wf_def ex_queue_def table_of_spec ll_hash_init_ok
        jobs_fine_def times_ok_def ex_defs)
  then show ?thesis using inv ex_net_conn by (simp add: daemon_ok_def) (simp add: ex_net_def)
qed

lemma ex_net_timer: "admissible ex_env Timer ex_net"
  by (simp add: admissible_def ex_env_ok sched_ok_def files_ready_def deps_fit_def)
    (simp add: ex_net_def ex_env_def ex_defs)


section \<open>Rejected packets\<close>

definition rejected :: "(packet \<Rightarrow> bool) \<Rightarrow> input \<Rightarrow> bool" where
  "rejected auth i \<longleftrightarrow> i = Dequeue_failed \<or> i = Bad_header \<or> (\<exists>pk. i = Packet pk \<and> \<not> packet_ok auth pk)"

lemma conn_ok_attached:
  "conn_ok s \<Longrightarrow> ll_hash_search (sbd_chan_hash s) (fmt_ld c) = Some n \<longleftrightarrow>
     c \<noteq> - 1 \<and> n \<in> set (host_list s) \<and> mh_sbd_chan (host_heap s n) = c"
  using conn_ok_search(1) [of s c n] conn_okD(3) [of s c "Some n"] by auto

lemma rejected_closes:
  assumes "conn_ok s" and "rejected auth i"
  shows "mbd_message auth e c i s = Inr (chan_shutdown c s)"
proof (cases "ll_hash_search (sbd_chan_hash s) (fmt_ld c)")
  case None
  then show ?thesis
    using assms(2) by (auto simp: mbd_message_def route_def rejected_def packet_ok_def valid_batch_op_def split: option.splits)
next
  case (Some n)
  then have "mh_sbd_chan (host_heap s n) = c" using conn_ok_attached [OF assms(1)] by simp
  then show ?thesis
    using Some assms(2)
    by (auto simp: mbd_message_def mbd_sbd_route_def rejected_def packet_ok_def valid_batch_op_def res_simps split: option.splits)
qed

text \<open>
  C36. A packet that cannot be read, is not signed, or has another version is dropped with its
  connection and changes nothing else. On the connection of an execution daemon this leaves
  the host marked as attached: when the daemon connects again on another channel its
  registration is refused, however often it tries, and the channel is closed twice.
\<close>

theorem rejected_packet_locks_host:
  assumes "conn_ok s" and "n \<in> set (host_list s)" and "mh_sbd_chan (host_heap s n) = c" and "c \<noteq> - 1"
    and "rejected auth i" and "ll_hash_search (host_name_hash s) (cfield 64 name) = Some n"
    and "pk_operation pk = 13" and "pk_register pk = Some name" and "packet_ok auth pk"
    and "ll_hash_search (sbd_chan_hash s) (fmt_ld d) = None"
  shows "\<exists>t. mbd_message auth e c i s = Inr t \<and> t = s\<lparr>shut_chans := shut_chans s @ [c]\<rparr> \<and>
    mbd_message auth e' d (Packet pk) t = Inr (t\<lparr>shut_chans := shut_chans t @ [d, d]\<rparr>)"
proof -
  let ?t = "s\<lparr>shut_chans := shut_chans s @ [c]\<rparr>"
  have "mbd_message auth e c i s = Inr ?t"
    using rejected_closes [OF assms(1,5)] by (simp add: chan_shutdown_def)
  moreover have op: "batch_op_of 13 = Some BATCH_SBD_REGISTER" by (simp add: batch_op_of_def all_batch_ops_def)
  have "mbd_sbd_register e' (Some name) d ?t = Inr (False, chan_shutdown d ?t)"
    using assms(3,4,6) by (simp add: mbd_sbd_register_def)
  then have "mbd_message auth e' d (Packet pk) ?t = Inr (?t\<lparr>shut_chans := shut_chans ?t @ [d, d]\<rparr>)"
    using assms(7-10) op
    by (simp add: mbd_message_def route_def route_op_def packet_ok_def shut_on_failure_def chan_shutdown_def)
  ultimately show ?thesis by blast
qed

definition ex_packet :: "int \<Rightarrow> packet" where
  "ex_packet op = \<lparr>pk_operation = op, pk_version = CURRENT_PROTOCOL_VERSION, pk_hdr = ex_hdr, pk_submit = None,
     pk_script = None, pk_sig = None, pk_query = None, pk_register = Some ''n1'', pk_queue_admin = None,
     pk_host_admin = None, pk_move = None, pk_priority = None, pk_reply = None, pk_finish = None, pk_state = None\<rparr>"

theorem rejected_packet_locks_host_witness:
  "\<exists>t. mbd_message (\<lambda>_. True) ex_env 7 (Packet (ex_packet 99)) ex_net = Inr t \<and>
    t = ex_net\<lparr>shut_chans := shut_chans ex_net @ [7]\<rparr> \<and>
    mbd_message (\<lambda>_. True) ex_env 9 (Packet (ex_packet 13)) t = Inr (t\<lparr>shut_chans := shut_chans t @ [9, 9]\<rparr>)"
proof (rule rejected_packet_locks_host [where n = 0 and name = "''n1''"])
  show "conn_ok ex_net" by (rule ex_net_conn)
  show "0 \<in> set (host_list ex_net)" "mh_sbd_chan (host_heap ex_net 0) = 7" by (simp_all add: ex_net_def)
  show "rejected (\<lambda>_. True) (Packet (ex_packet 99))"
    by (simp add: rejected_def packet_ok_def ex_packet_def valid_batch_op_def batch_op_of_def all_batch_ops_def)
  have "cfield 64 ''n1'' = ''n1''" by code_simp
  then show "ll_hash_search (host_name_hash ex_net) (cfield 64 ''n1'') = Some 0" by (simp add: ex_net_def)
  show "packet_ok (\<lambda>_. True) (ex_packet 13)"
    by (simp add: packet_ok_def ex_packet_def valid_batch_op_def batch_op_of_def all_batch_ops_def)
  show "ll_hash_search (sbd_chan_hash ex_net) (fmt_ld 9) = None" by (simp add: ex_net_def table_of_search)
qed (simp_all add: ex_packet_def)

end
