(* ===== verification/Spec2Isabelle.thy ===== *)
theory Spec2Isabelle
  imports Prelude Cstring Ll_Hash Ll_List Dependency Log Mbd_State Mbd_Resources Mbd_Inv Mbd_Job Mbd_Example Mbd_Register Mbd_Step Mbd_Signal Mbd_Files Mbd_Sched Mbd_Sbd Mbd_Info Mbd_Admin Mbd_Compact Mbd_Net
begin

text \<open>
  LavaLite is a batch scheduler for compute clusters. A master daemon (\<open>mbd\<close>, sources in
  \<open>src/batch/mbd\<close>) keeps the jobs, queues, hosts and token pools, answers the requests of
  the commands and starts jobs on hosts. An execution daemon on every host (\<open>sbd\<close>, sources
  in \<open>src/batch/sbd\<close>) runs them and reports back. Both share the containers and string
  helpers of \<open>src/base/lib\<close> and the log format, the dependency language and the messages of
  \<open>src/batch/lib\<close>. The master records every change in an event log, the manifest, from which
  a restart rebuilds its state.

  \<^bold>\<open>Conventions.\<close> A C function that can end the daemon (\<open>assert\<close>, \<open>abort\<close>, a null
  dereference, a write past an array) is a function into \<open>crash + 'a\<close>; \<open>Inl\<close> names the
  failure and \<open>bindE\<close> of \<open>Prelude\<close> sequences the steps. Structures are records, the globals of
  a daemon are one record that is passed along, pointers are numbers that index a heap
  (a function) inside it. Fixed-width arithmetic is written out with \<open>s32\<close> or words where a
  value can leave the range. What lies outside the sources is a parameter: the record \<open>env\<close>
  of \<open>Mbd_State\<close> holds the clock and the outcome of signing a header, of queueing a message
  and of each file operation. A request arrives as the value its decoder returned, \<open>None\<close>
  when decoding failed.

  \<^bold>\<open>Library.\<close>
  \<^item> \<open>Prelude\<close>: results, machine integers, list lemmas and the simplification collections.
  \<^item> \<open>Cstring\<close> (\<open>src/base/lib/ll.sys.c\<close>): number conversion, bounded copy, signal names, and
    the parts of the C library the sources use (\<open>strtok\<close>, \<open>fgets\<close>, number formats).
  \<^item> \<open>Ll_Hash\<close> (\<open>ll.hash.c\<close>): the chained table, its growth and its iterator, refined to maps;
    the locale \<open>string_table\<close> is its contract, interpreted as \<open>ht\<close>.
  \<^item> \<open>Ll_List\<close> (\<open>ll.list.c\<close>): the intrusive doubly linked list on a heap of links, refined to
    sequences; the locales \<open>array_sort\<close> and \<open>list_store\<close> state what the sort and the clients
    rely on, interpreted as \<open>qs\<close> and \<open>hl\<close>. The daemons' models use the sequences.
  \<^item> \<open>Dependency\<close> (\<open>src/batch/lib/dependency.c\<close>): the recursive-descent parser, the postfix
    list it emits and its evaluation on a stack, with the grammar as specification.
  \<^item> \<open>Log\<close> (\<open>src/batch/lib/log.c\<close>): the writers and readers of the manifest's lines.

  \<^bold>\<open>Master daemon.\<close>
  \<^item> \<open>Mbd_State\<close>: the structures of \<open>mbd.h\<close>, \<open>wire.h\<close> and \<open>llbatch.h\<close>, the globals, the job
    lists and the writers of the manifest (\<open>events.c\<close>).
  \<^item> \<open>Mbd_Resources\<close>: devices, host shares and tokens of a job, and the cross check
    \<open>mbd_assert_counters\<close> of \<open>sched.c\<close> that ends the daemon when a counter is wrong.
  \<^item> \<open>Mbd_Inv\<close>: the invariant \<open>mbd_inv\<close>. Every counter is the sum of what the jobs contribute;
    every job is on the list its record names, in a fitting state, with the queue and hosts it
    needs; the table of job numbers and the lists agree.
  \<^item> \<open>Mbd_Step\<close>: the moves of one job between lists that keep the invariant, and the frame
    relation \<open>keeps\<close> that says what no handler touches.
  \<^item> \<open>Mbd_Job\<close>, \<open>Mbd_Register\<close>: submission of jobs and arrays (\<open>job_register\<close>) and lookup.
  \<^item> \<open>Mbd_Signal\<close>: signals, moves between queues and priority changes (\<open>job.c\<close>).
  \<^item> \<open>Mbd_Files\<close>: the script and the sidecar file read back for a dispatch, assignment of devices.
  \<^item> \<open>Mbd_Sched\<close>: the scheduler (\<open>sched.c\<close>) and \<open>mbd_dispatch_job\<close>.
  \<^item> \<open>Mbd_Sbd\<close>: the master's side of the execution daemons (\<open>sbd.c\<close>, \<open>job.c\<close>).
  \<^item> \<open>Mbd_Info\<close>, \<open>Mbd_Admin\<close>: the requests that read, and opening and closing of queues and
    hosts with their state files (\<open>dispatch.c\<close>, \<open>admin.c\<close>).
  \<^item> \<open>Mbd_Example\<close>: the concrete daemon the witnesses use.

  \<^bold>\<open>What is shown.\<close> For each handler a lemma of total correctness: from a state with the
  invariant it returns a state (no assertion fails, no pointer is null) that has the invariant
  again, with the effect stated and everything else framed by \<open>keeps\<close>. On top of these stand
  the numbered properties, and the errors found on the way are theorems too.

  \<^bold>\<open>Bounds and fuel.\<close> \<open>next_job_id\<close> has fuel of one more than the number of table entries: each
  round passes a used number. The parser's fuel is the length of the text, shown to be enough.
  The loops over arrays of a submission stop because the stride is positive and the end does
  not overflow, which is a hypothesis of the registration properties.

  \<^bold>\<open>Not modelled.\<close> Sockets and epoll (\<open>ll.channel.c\<close>, \<open>network_init\<close>), signal handlers and
  process control, name resolution (\<open>ll.host.c\<close>), logging to syslog (\<open>ll.syslog.c\<close>) are calls
  to the operating system. The message encoders of \<open>wire.c\<close> are lists of calls to the XDR
  library. The command line programs under \<open>src/batch/cmd\<close> print what the daemon answers.
\<close>

text \<open>
  C31. Printing a 32-bit number with \<^verbatim>\<open>%d\<close> and reading it with \<open>ll_atoi\<close> gives
  the number back.
\<close>

theorem atoi_print_roundtrip: "in_s32 i \<Longrightarrow> ll_atoi (fmt_ld i) = Some i"
  by (rule ll_atoi_fmt_ld)

theorem atoi_print_roundtrip_witness: "in_s32 (- 42) \<and> ll_atoi (fmt_ld (- 42)) = Some (- 42)"
  using atoi_print_roundtrip [of "- 42"] by (simp add: in_s32_def)

end
